(* ===== verification/Rko_Prelude.thy ===== *)
theory Rko_Prelude
  imports Main "HOL-Library.Word" "HOL-Library.Multiset"
begin

text \<open>
  Shared vocabulary of the development: the machine integers of the target
  (x86_64, release build, so unchecked arithmetic wraps), the
  state-and-error operations that stand for Rust methods taking
  \<open>&mut self\<close> and returning a \<open>Result\<close>, base-256 digits, and the
  generic list facts the components use.
\<close>

named_theorems op_simps \<open>equations of the model's operations\<close>
named_theorems keeps_intros \<open>an operation keeps the invariant of its state\<close>

type_synonym byte = "8 word"


section \<open>Machine integers\<close>

definition usize_max :: nat where
  "usize_max = 2 ^ 64 - 1"

definition isize_max :: nat where
  "isize_max = 2 ^ 63 - 1"

definition checked_add :: "nat \<Rightarrow> nat \<Rightarrow> nat option" where
  "checked_add a b = (if a + b \<le> usize_max then Some (a + b) else None)"

definition checked_mul :: "nat \<Rightarrow> nat \<Rightarrow> nat option" where
  "checked_mul a b = (if a * b \<le> usize_max then Some (a * b) else None)"

text \<open>The two's complement wrap of a mathematical integer at a signed width.\<close>

definition wrap_i32 :: "int \<Rightarrow> int" where
  "wrap_i32 x = signed_take_bit 31 x"

definition wrap_i64 :: "int \<Rightarrow> int" where
  "wrap_i64 x = signed_take_bit 63 x"

definition in_i32 :: "int \<Rightarrow> bool" where
  "in_i32 x \<longleftrightarrow> - (2 ^ 31) \<le> x \<and> x < 2 ^ 31"

definition in_i64 :: "int \<Rightarrow> bool" where
  "in_i64 x \<longleftrightarrow> - (2 ^ 63) \<le> x \<and> x < 2 ^ 63"

text \<open>Signed division of Rust truncates towards zero.\<close>

definition tdiv :: "int \<Rightarrow> int \<Rightarrow> int" where
  "tdiv a b = (if a < 0 then - ((- a) div b) else a div b)"

lemma tdiv_nonneg [simp]: "0 \<le> a \<Longrightarrow> tdiv a b = a div b"
  by (simp add: tdiv_def)

lemma wrap_i32_id [simp]: "in_i32 x \<Longrightarrow> wrap_i32 x = x"
  unfolding wrap_i32_def in_i32_def
  by (rule signed_take_bit_int_eq_self) auto

lemma wrap_i64_id [simp]: "in_i64 x \<Longrightarrow> wrap_i64 x = x"
  unfolding wrap_i64_def in_i64_def
  by (rule signed_take_bit_int_eq_self) auto

lemma checked_add_Some [simp]:
  "checked_add a b = Some c \<longleftrightarrow> a + b \<le> usize_max \<and> c = a + b"
  by (auto simp: checked_add_def)

lemma checked_mul_Some [simp]:
  "checked_mul a b = Some c \<longleftrightarrow> a * b \<le> usize_max \<and> c = a * b"
  by (auto simp: checked_mul_def)


section \<open>Operations on a state that may fail\<close>

text \<open>
  A Rust method \<open>fn m(&mut self) -> Result<R, E>\<close> is a function from the
  state to the outcome (\<open>Inl\<close> the error) and the state it leaves behind,
  also when it fails.  The question mark operator is \<open>sbind\<close>.
\<close>

type_synonym ('s, 'e, 'r) op = "'s \<Rightarrow> ('e + 'r) \<times> 's"

definition sret :: "'r \<Rightarrow> ('s, 'e, 'r) op" where
  "sret r = (\<lambda>s. (Inr r, s))"

definition sraise :: "'e \<Rightarrow> ('s, 'e, 'r) op" where
  "sraise e = (\<lambda>s. (Inl e, s))"

definition sbind :: "('s, 'e, 'r) op \<Rightarrow> ('r \<Rightarrow> ('s, 'e, 't) op) \<Rightarrow> ('s, 'e, 't) op" where
  "sbind m f = (\<lambda>s. case m s of (Inl e, s') \<Rightarrow> (Inl e, s') | (Inr r, s') \<Rightarrow> f r s')"

definition sthen :: "('s, 'e, unit) op \<Rightarrow> ('s, 'e, 't) op \<Rightarrow> ('s, 'e, 't) op" where
  "sthen m n = sbind m (\<lambda>_. n)"

definition slift :: "'e + 'r \<Rightarrow> ('s, 'e, 'r) op" where
  "slift r = (\<lambda>s. (r, s))"

text \<open>A sequence of fallible calls, and the conversion of the error of a call.\<close>

primrec sseq :: "('s, 'e, unit) op list \<Rightarrow> ('s, 'e, unit) op" where
  "sseq [] = sret ()"
| "sseq (m # ms) = sthen m (sseq ms)"

definition smap_err :: "('e \<Rightarrow> 'f) \<Rightarrow> ('s, 'e, 'r) op \<Rightarrow> ('s, 'f, 'r) op" where
  "smap_err f m = (\<lambda>s. case m s of (Inl e, s') \<Rightarrow> (Inl (f e), s') | (Inr r, s') \<Rightarrow> (Inr r, s'))"

definition map_err :: "('e \<Rightarrow> 'f) \<Rightarrow> 'e + 'r \<Rightarrow> 'f + 'r" where
  "map_err f r = (case r of Inl e \<Rightarrow> Inl (f e) | Inr a \<Rightarrow> Inr a)"

lemma map_err_simps [simp]: "map_err f (Inl e) = Inl (f e)" "map_err f (Inr a) = Inr a"
  by (simp_all add: map_err_def)

lemma map_err_eq_Inr [simp]: "map_err f r = Inr a \<longleftrightarrow> r = Inr a"
  by (cases r) simp_all

text \<open>
  A call that may also panic (an index out of range, a division by zero): the
  panic handler never returns, so it is told apart from every error value.
\<close>

datatype 'e fault = Fail 'e | Panic

definition lift_fault :: "'e + 'a \<Rightarrow> 'e fault + 'a" where
  "lift_fault r = (case r of Inl e \<Rightarrow> Inl (Fail e) | Inr a \<Rightarrow> Inr a)"

lemma lift_fault_simps [simp]:
  "lift_fault (Inl e) = Inl (Fail e)" "lift_fault (Inr a) = Inr a"
  by (simp_all add: lift_fault_def)

lemma lift_fault_eq_Inr [simp]: "lift_fault r = Inr a \<longleftrightarrow> r = Inr a"
  by (cases r) simp_all

lemma lift_fault_no_panic [simp]: "lift_fault r \<noteq> Inl Panic"
  by (cases r) simp_all

text \<open>The question mark operator on a value of type \<open>Result\<close>.\<close>

primrec rbind :: "'e + 'a \<Rightarrow> ('a \<Rightarrow> 'e + 'b) \<Rightarrow> 'e + 'b" where
  "rbind (Inl e) f = Inl e"
| "rbind (Inr a) f = f a"

definition of_option :: "'e \<Rightarrow> 'a option \<Rightarrow> 'e + 'a" where
  "of_option e x = (case x of None \<Rightarrow> Inl e | Some a \<Rightarrow> Inr a)"

definition unwrap_or :: "'a option \<Rightarrow> 'a \<Rightarrow> 'a" where
  "unwrap_or x d = (case x of Some v \<Rightarrow> v | None \<Rightarrow> d)"

lemma unwrap_or_simps [simp]: "unwrap_or (Some v) d = v" "unwrap_or None d = d"
  by (simp_all add: unwrap_or_def)

lemma of_option_simps [simp]:
  "of_option e None = Inl e" "of_option e (Some a) = Inr a"
  by (simp_all add: of_option_def)

lemma of_option_eq_Inr [simp]: "of_option e x = Inr a \<longleftrightarrow> x = Some a"
  by (cases x) simp_all

lemma sret_apply [simp]: "sret r s = (Inr r, s)"
  by (simp add: sret_def)

lemma sraise_apply [simp]: "sraise e s = (Inl e, s)"
  by (simp add: sraise_def)

lemma slift_apply [simp]: "slift r s = (r, s)"
  by (simp add: slift_def)

lemma sbind_Inr: "m s = (Inr r, s') \<Longrightarrow> sbind m f s = f r s'"
  by (simp add: sbind_def)

lemma sbind_Inl: "m s = (Inl e, s') \<Longrightarrow> sbind m f s = (Inl e, s')"
  by (simp add: sbind_def)

lemma sbind_eq_Inr_iff:
  "sbind m f s = (Inr t, s'') \<longleftrightarrow> (\<exists>r s'. m s = (Inr r, s') \<and> f r s' = (Inr t, s''))"
  by (auto simp: sbind_def split: prod.splits sum.splits)

lemma sbind_cases:
  assumes "sbind m f s = (res, s'')"
  obtains (fails) e where "m s = (Inl e, s'')" "res = Inl e"
  | (continues) r s' where "m s = (Inr r, s')" "f r s' = (res, s'')"
  using assms by (auto simp: sbind_def split: prod.splits sum.splits)

lemma rbind_eq_Inr [simp]: "rbind m f = Inr b \<longleftrightarrow> (\<exists>a. m = Inr a \<and> f a = Inr b)"
  by (cases m) simp_all

lemma rbind_no_panic:
  "m \<noteq> Inl Panic \<Longrightarrow> (\<And>a. m = Inr a \<Longrightarrow> f a \<noteq> Inl Panic) \<Longrightarrow> rbind m f \<noteq> Inl Panic"
  by (cases m) simp_all

lemma rbind_eq_Inl: "rbind m f = Inl e \<longleftrightarrow> m = Inl e \<or> (\<exists>a. m = Inr a \<and> f a = Inl e)"
  by (cases m) simp_all


section \<open>Base-256 digits\<close>

text \<open>The \<open>n\<close> little-endian base-256 digits of a number, and their value.\<close>

primrec le_digits :: "nat \<Rightarrow> nat \<Rightarrow> nat list" where
  "le_digits 0 x = []"
| "le_digits (Suc n) x = x mod 256 # le_digits n (x div 256)"

primrec le_val :: "nat list \<Rightarrow> nat" where
  "le_val [] = 0"
| "le_val (d # ds) = d + 256 * le_val ds"

lemma length_le_digits [simp]: "length (le_digits n x) = n"
  by (induction n arbitrary: x) simp_all

lemma le_digits_byte: "d \<in> set (le_digits n x) \<Longrightarrow> d < 256"
  by (induction n arbitrary: x) auto

lemma le_val_digits [simp]: "le_val (le_digits n x) = x mod 256 ^ n"
proof (induction n arbitrary: x)
  case (Suc n)
  have "x mod 256 + 256 * (x div 256 mod 256 ^ n) = x mod (256 * 256 ^ n)"
    by (simp only: mod_mult2_eq)
  with Suc show ?case by simp
qed simp

lemma le_val_bound: "\<forall>d \<in> set ds. d < 256 \<Longrightarrow> le_val ds < 256 ^ length ds"
  by (induction ds) auto


section \<open>Lists\<close>

lemma take_map_Some: "take n (map Some xs @ ys) = map Some (take n xs) @ take (n - length xs) ys"
  by (simp add: take_map)

lemma drop_nth_Cons: "i < length xs \<Longrightarrow> drop i xs = xs ! i # drop (Suc i) xs"
  by (rule Cons_nth_drop_Suc [symmetric])

text \<open>Overwriting a stretch of a buffer.\<close>

lemma take_overwrite:
  assumes "i + length b \<le> length buf"
  shows "take (i + length b) (take i buf @ b @ drop (i + length b) buf) = take i buf @ b"
proof -
  have "min (length buf) i = i" using assms by simp
  then show ?thesis by simp
qed

lemma drop_overwrite:
  assumes "i + length b \<le> n" "n \<le> length buf"
  shows "drop n (take i buf @ b @ drop (i + length b) buf) = drop n buf"
proof -
  have "min (length buf) i = i" using assms by simp
  with assms show ?thesis by simp
qed

text \<open>The first element satisfying a predicate, with its position.\<close>

primrec find_index :: "('a \<Rightarrow> bool) \<Rightarrow> 'a list \<Rightarrow> nat option" where
  "find_index P [] = None"
| "find_index P (x # xs) = (if P x then Some 0 else map_option Suc (find_index P xs))"

lemma find_index_None: "find_index P xs = None \<longleftrightarrow> (\<forall>x \<in> set xs. \<not> P x)"
  by (induction xs) auto

lemma find_index_Some:
  "find_index P xs = Some i \<longleftrightarrow> i < length xs \<and> P (xs ! i) \<and> (\<forall>j < i. \<not> P (xs ! j))"
proof (induction xs arbitrary: i)
  case (Cons x xs)
  then show ?case by (cases i) (auto simp: less_Suc_eq_0_disj)
qed simp

text \<open>Removing the element at an index; the index is in range where it is used.\<close>

definition remove_at :: "nat \<Rightarrow> 'a list \<Rightarrow> 'a list" where
  "remove_at i xs = take i xs @ drop (Suc i) xs"

lemma length_remove_at [simp]: "i < length xs \<Longrightarrow> length (remove_at i xs) = length xs - 1"
  by (simp add: remove_at_def)

lemma set_remove_at: "set (remove_at i xs) \<subseteq> set xs"
  unfolding remove_at_def using set_take_subset [of i xs] set_drop_subset [of "Suc i" xs] by auto

lemma remove_at_Cons_Suc [simp]: "remove_at (Suc i) (x # xs) = x # remove_at i xs"
  by (simp add: remove_at_def)

lemma remove_at_0 [simp]: "remove_at 0 xs = tl xs"
  by (cases xs) (simp_all add: remove_at_def)

lemma mset_remove_at:
  "i < length xs \<Longrightarrow> add_mset (xs ! i) (mset (remove_at i xs)) = mset xs"
  by (metis id_take_nth_drop mset.simps(2) mset_append remove_at_def union_mset_add_mset_right)

end
