(* ===== verification/Rko_Error.thy ===== *)
theory Rko_Error
  imports Rko_Prelude
begin

text \<open>
  The kernel error type of \<open>rko-core/src/error.rs\<close>: an \<open>i32\<close> holding a
  negative errno value, its constructors, and the conversions to and from
  the return conventions of C callbacks (a negative \<open>int\<close>, an
  \<open>ERR_PTR\<close>).  The errno numbers are those of the Linux user ABI.
\<close>

datatype error = Error int

definition error_new :: "int \<Rightarrow> error" where
  "error_new errno = Error (wrap_i32 (- errno))"

definition to_errno :: "error \<Rightarrow> int" where
  "to_errno e = (case e of Error n \<Rightarrow> n)"

definition EPERM :: error where "EPERM = error_new 1"
definition ENOENT :: error where "ENOENT = error_new 2"
definition EIO :: error where "EIO = error_new 5"
definition ENXIO :: error where "ENXIO = error_new 6"
definition E2BIG :: error where "E2BIG = error_new 7"
definition EAGAIN :: error where "EAGAIN = error_new 11"
definition ENOMEM :: error where "ENOMEM = error_new 12"
definition EFAULT :: error where "EFAULT = error_new 14"
definition EBUSY :: error where "EBUSY = error_new 16"
definition EEXIST :: error where "EEXIST = error_new 17"
definition ENOTDIR :: error where "ENOTDIR = error_new 20"
definition EISDIR :: error where "EISDIR = error_new 21"
definition EINVAL :: error where "EINVAL = error_new 22"
definition EDOM :: error where "EDOM = error_new 33"
definition ERANGE :: error where "ERANGE = error_new 34"
definition ENAMETOOLONG :: error where "ENAMETOOLONG = error_new 36"
definition ENOSYS :: error where "ENOSYS = error_new 38"
definition ENODATA :: error where "ENODATA = error_new 61"
definition EOPNOTSUPP :: error where "EOPNOTSUPP = error_new 95"
definition ECONNABORTED :: error where "ECONNABORTED = error_new 103"
definition ECONNRESET :: error where "ECONNRESET = error_new 104"
definition ESTALE :: error where "ESTALE = error_new 116"

lemmas errno_defs =
  EPERM_def ENOENT_def EIO_def ENXIO_def E2BIG_def EAGAIN_def ENOMEM_def EFAULT_def
  EBUSY_def EEXIST_def ENOTDIR_def EISDIR_def EINVAL_def EDOM_def ERANGE_def
  ENAMETOOLONG_def ENOSYS_def ENODATA_def EOPNOTSUPP_def ECONNABORTED_def
  ECONNRESET_def ESTALE_def

definition from_errno :: "int \<Rightarrow> error" where
  "from_errno errno = (if errno < 0 then Error errno else EINVAL)"

definition from_result :: "error + unit \<Rightarrow> int" where
  "from_result r = (case r of Inr _ \<Rightarrow> 0 | Inl e \<Rightarrow> to_errno e)"

text \<open>
  A pointer returned by a kernel function, as \<open>IS_ERR\<close> and \<open>PTR_ERR\<close>
  tell it: an error pointer with its (negative) code, the null pointer, or a
  pointer to an object.
\<close>

datatype 'p kptr = ErrPtr int | NullPtr | Ptr 'p

definition from_err_ptr :: "'p kptr \<Rightarrow> error + 'p kptr" where
  "from_err_ptr p = (case p of ErrPtr n \<Rightarrow> Inl (from_errno (wrap_i32 n)) | _ \<Rightarrow> Inr p)"

definition to_err_ptr :: "error + 'p kptr \<Rightarrow> 'p kptr" where
  "to_err_ptr r = (case r of Inr p \<Rightarrow> p | Inl e \<Rightarrow> ErrPtr (to_errno e))"

text \<open>The error codes a kernel function may put in an error pointer.\<close>

definition kernel_errno :: "int \<Rightarrow> bool" where
  "kernel_errno n \<longleftrightarrow> - 4095 \<le> n \<and> n < 0"

lemma kernel_errno_i32 [simp]: "kernel_errno n \<Longrightarrow> wrap_i32 n = n"
  by (simp add: kernel_errno_def in_i32_def)

lemma to_errno_Error [simp]: "to_errno (Error n) = n"
  by (simp add: to_errno_def)

lemma error_new_small [simp]: "\<bar>n\<bar> < 2 ^ 31 \<Longrightarrow> error_new n = Error (- n)"
  unfolding error_new_def by (subst wrap_i32_id) (auto simp: in_i32_def)

lemma from_errno_neg [simp]: "n < 0 \<Longrightarrow> from_errno n = Error n"
  by (simp add: from_errno_def)

lemma from_errno_negative: "to_errno (from_errno n) < 0"
  by (simp add: from_errno_def EINVAL_def)

text \<open>
  Constructing an error from a code that is already negative, as
  \<open>Error::new(PTR_ERR(p))\<close> does, yields a positive code.
\<close>

lemma error_new_of_negative:
  "kernel_errno n \<Longrightarrow> to_errno (error_new n) = - n \<and> to_errno (error_new n) > 0"
  by (simp add: kernel_errno_def)

lemma err_ptr_roundtrip:
  "kernel_errno (to_errno e) \<Longrightarrow> from_err_ptr (to_err_ptr (Inl e) :: 'p kptr) = Inl e"
  by (cases e) (simp add: from_err_ptr_def to_err_ptr_def kernel_errno_def in_i32_def)

end
