(* ===== verification/Kernel_Vec.thy ===== *)
theory Kernel_Vec
  imports Rko_Error "HOL-Library.Sublist"
begin

text \<open>
  The growable vector of \<open>rko-core/src/alloc/kvec.rs\<close> over the allocator
  of \<open>allocator.rs\<close> and the layouts of \<open>layout.rs\<close>.  The block a
  vector points to is a list of slots; a slot is \<open>None\<close> while it holds no
  live value, so moving a value out or dropping it empties the slot, and
  reading an empty slot or touching a slot outside the block is the outcome
  \<open>Undefined\<close> that the theorems exclude.  The kernel's \<open>krealloc\<close>
  is a parameter, constrained by \<open>krealloc_ok\<close>.
\<close>

datatype alloc_error = AllocError | IndexPanic | Undefined

record layout =
  lsize :: nat
  lalign :: nat

text \<open>The size and the alignment of the element type.\<close>

record elem_ty =
  size_of :: nat
  align_of :: nat

type_synonym 'a block = "'a option list"
type_synonym 'a krealloc = "'a block \<Rightarrow> nat \<Rightarrow> nat \<Rightarrow> 'a block option"

definition from_size_align :: "nat \<Rightarrow> nat \<Rightarrow> layout option" where
  "from_size_align sz align =
     (if sz + (align - 1) \<le> isize_max then Some \<lparr>lsize = sz, lalign = align\<rparr> else None)"

definition array_layout :: "elem_ty \<Rightarrow> nat \<Rightarrow> alloc_error + layout" where
  "array_layout ty n =
     rbind (of_option AllocError (checked_mul (size_of ty) n))
       (\<lambda>sz. of_option AllocError (from_size_align sz (align_of ty)))"

definition kmalloc_realloc :: "'a krealloc \<Rightarrow> 'a block \<Rightarrow> layout \<Rightarrow> alloc_error + 'a block" where
  "kmalloc_realloc krealloc ptr layout =
     (let result = krealloc ptr (lsize layout) (lalign layout)
      in if lsize layout = 0 then Inr [] else of_option AllocError result)"

text \<open>
  What the kernel documents of \<open>krealloc\<close>: a successful call returns a
  block of the requested size with the contents of the old one up to the
  lesser of the two sizes; the rest of it is uninitialised.
\<close>

definition krealloc_ok :: "elem_ty \<Rightarrow> 'a krealloc \<Rightarrow> bool" where
  "krealloc_ok ty krealloc \<longleftrightarrow> 0 < size_of ty \<and>
     (\<forall>old sz align new. krealloc old sz align = Some new \<longrightarrow>
        new = take (sz div size_of ty) old
                @ replicate (sz div size_of ty - length old) None)"

record 'a kvec =
  kv_ptr :: "'a block"
  kv_len :: nat
  kv_cap :: nat


section \<open>Slots\<close>

definition slot_write :: "nat \<Rightarrow> 'a \<Rightarrow> 'a block \<Rightarrow> alloc_error + 'a block" where
  "slot_write i x blk = (if i < length blk then Inr (blk[i := Some x]) else Inl Undefined)"

text \<open>Reading by value moves the element out of its slot.\<close>

definition slot_read :: "nat \<Rightarrow> 'a block \<Rightarrow> alloc_error + ('a \<times> 'a block)" where
  "slot_read i blk =
     (if i < length blk
      then (case blk ! i of Some x \<Rightarrow> Inr (x, blk[i := None]) | None \<Rightarrow> Inl Undefined)
      else Inl Undefined)"

text \<open>
  \<open>ptr::copy(p + src, p + dst, n)\<close> of values that are moved: the source
  slots that the destination does not cover are left empty.
\<close>

definition slots_move :: "nat \<Rightarrow> nat \<Rightarrow> nat \<Rightarrow> 'a block \<Rightarrow> alloc_error + 'a block" where
  "slots_move src dst n blk =
     (if src + n \<le> length blk \<and> dst + n \<le> length blk
      then let vals = take n (drop src blk);
               cleared = take src blk @ replicate n None @ drop (src + n) blk
           in Inr (take dst cleared @ vals @ drop (dst + n) cleared)
      else Inl Undefined)"

definition slots_swap :: "nat \<Rightarrow> nat \<Rightarrow> 'a block \<Rightarrow> alloc_error + 'a block" where
  "slots_swap i j blk =
     (if i < length blk \<and> j < length blk then Inr (blk[i := blk ! j, j := blk ! i])
      else Inl Undefined)"


section \<open>Operations\<close>

definition kv_new :: "'a kvec" where
  "kv_new = \<lparr>kv_ptr = [], kv_len = 0, kv_cap = 0\<rparr>"

definition kv_is_empty :: "'a kvec \<Rightarrow> bool" where
  "kv_is_empty v \<longleftrightarrow> kv_len v = 0"

definition realloc_to ::
  "elem_ty \<Rightarrow> 'a krealloc \<Rightarrow> nat \<Rightarrow> ('a kvec, alloc_error, unit) op" where
  "realloc_to ty krealloc new_cap v =
     (case rbind (array_layout ty new_cap) (\<lambda>new_layout.
            rbind (array_layout ty (kv_cap v)) (\<lambda>old_layout.
              kmalloc_realloc krealloc (if kv_cap v = 0 then [] else kv_ptr v) new_layout)) of
        Inl e \<Rightarrow> (Inl e, v)
      | Inr raw \<Rightarrow> (Inr (), v\<lparr>kv_ptr := raw, kv_cap := new_cap\<rparr>))"

definition reserve ::
  "elem_ty \<Rightarrow> 'a krealloc \<Rightarrow> nat \<Rightarrow> ('a kvec, alloc_error, unit) op" where
  "reserve ty krealloc additional v =
     (case checked_add (kv_len v) additional of
        None \<Rightarrow> (Inl AllocError, v)
      | Some needed \<Rightarrow>
          if needed \<le> kv_cap v then (Inr (), v) else realloc_to ty krealloc needed v)"

definition grow :: "elem_ty \<Rightarrow> 'a krealloc \<Rightarrow> ('a kvec, alloc_error, unit) op" where
  "grow ty krealloc v =
     (case (if kv_cap v = 0 then Some 1 else checked_mul (kv_cap v) 2) of
        None \<Rightarrow> (Inl AllocError, v)
      | Some new_cap \<Rightarrow> realloc_to ty krealloc new_cap v)"

definition with_capacity :: "elem_ty \<Rightarrow> 'a krealloc \<Rightarrow> nat \<Rightarrow> alloc_error + 'a kvec" where
  "with_capacity ty krealloc capacity =
     (case reserve ty krealloc capacity kv_new of
        (Inl e, _) \<Rightarrow> Inl e
      | (Inr _, v) \<Rightarrow> Inr v)"

text \<open>The tail of \<open>push\<close>: write the slot at \<open>len\<close>, then count it.\<close>

definition kv_write_end :: "'a \<Rightarrow> ('a kvec, alloc_error, unit) op" where
  "kv_write_end x v =
     (case slot_write (kv_len v) x (kv_ptr v) of
        Inl e \<Rightarrow> (Inl e, v)
      | Inr blk \<Rightarrow> (Inr (), v\<lparr>kv_ptr := blk, kv_len := kv_len v + 1\<rparr>))"

definition kv_push ::
  "elem_ty \<Rightarrow> 'a krealloc \<Rightarrow> 'a \<Rightarrow> ('a kvec, alloc_error, unit) op" where
  "kv_push ty krealloc x v =
     sthen (if kv_len v = kv_cap v then grow ty krealloc else sret ()) (kv_write_end x) v"

definition kv_pop :: "('a kvec, alloc_error, 'a option) op" where
  "kv_pop v =
     (if kv_len v = 0 then (Inr None, v)
      else case slot_read (kv_len v - 1) (kv_ptr v) of
             Inl e \<Rightarrow> (Inl e, v\<lparr>kv_len := kv_len v - 1\<rparr>)
           | Inr (x, blk) \<Rightarrow> (Inr (Some x), v\<lparr>kv_ptr := blk, kv_len := kv_len v - 1\<rparr>))"

definition kv_remove :: "nat \<Rightarrow> ('a kvec, alloc_error, 'a) op" where
  "kv_remove index v =
     (if \<not> index < kv_len v then (Inl IndexPanic, v)
      else case slot_read index (kv_ptr v) of
             Inl e \<Rightarrow> (Inl e, v)
           | Inr (result, blk) \<Rightarrow>
               (let count = kv_len v - index - 1
                in case (if count > 0 then slots_move (index + 1) index count blk else Inr blk) of
                     Inl e \<Rightarrow> (Inl e, v\<lparr>kv_ptr := blk\<rparr>)
                   | Inr blk' \<Rightarrow> (Inr result, v\<lparr>kv_ptr := blk', kv_len := kv_len v - 1\<rparr>)))"

definition kv_swap_remove :: "nat \<Rightarrow> ('a kvec, alloc_error, 'a) op" where
  "kv_swap_remove index v =
     (if \<not> index < kv_len v then (Inl IndexPanic, v)
      else let len = kv_len v - 1
           in case (if index \<noteq> len then slots_swap index len (kv_ptr v) else Inr (kv_ptr v)) of
                Inl e \<Rightarrow> (Inl e, v\<lparr>kv_len := len\<rparr>)
              | Inr blk \<Rightarrow>
                  (case slot_read len blk of
                     Inl e \<Rightarrow> (Inl e, v\<lparr>kv_ptr := blk, kv_len := len\<rparr>)
                   | Inr (x, blk') \<Rightarrow> (Inr x, v\<lparr>kv_ptr := blk', kv_len := len\<rparr>)))"

text \<open>
  \<open>drop_in_place\<close> over the slots from \<open>i\<close> on, \<open>n\<close> of them; the result
  lists the dropped values in order.
\<close>

primrec drop_slots :: "nat \<Rightarrow> nat \<Rightarrow> 'a block \<Rightarrow> alloc_error + ('a list \<times> 'a block)" where
  "drop_slots 0 i blk = Inr ([], blk)"
| "drop_slots (Suc n) i blk =
     rbind (slot_read i blk) (\<lambda>(x, blk').
       rbind (drop_slots n (Suc i) blk') (\<lambda>(xs, blk''). Inr (x # xs, blk'')))"

definition kv_truncate :: "nat \<Rightarrow> ('a kvec, alloc_error, 'a list) op" where
  "kv_truncate new_len v =
     (if new_len \<ge> kv_len v then (Inr [], v)
      else case drop_slots (kv_len v - new_len) new_len (kv_ptr v) of
             Inl e \<Rightarrow> (Inl e, v\<lparr>kv_len := new_len\<rparr>)
           | Inr (xs, blk) \<Rightarrow> (Inr xs, v\<lparr>kv_ptr := blk, kv_len := new_len\<rparr>))"

definition kv_clear :: "('a kvec, alloc_error, 'a list) op" where
  "kv_clear = kv_truncate 0"

text \<open>
  The initialised prefix; a slot of it that holds no value would be undefined
  behaviour.
\<close>

definition as_slice :: "'a kvec \<Rightarrow> alloc_error + 'a list" where
  "as_slice v =
     (if kv_len v \<le> length (kv_ptr v) \<and> None \<notin> set (take (kv_len v) (kv_ptr v))
      then Inr (map the (take (kv_len v) (kv_ptr v))) else Inl Undefined)"

primrec kv_push_each ::
  "elem_ty \<Rightarrow> 'a krealloc \<Rightarrow> 'a list \<Rightarrow> ('a kvec, alloc_error, unit) op" where
  "kv_push_each ty krealloc [] = sret ()"
| "kv_push_each ty krealloc (x # xs) =
     sthen (kv_push ty krealloc x) (kv_push_each ty krealloc xs)"

definition extend_from_slice ::
  "elem_ty \<Rightarrow> 'a krealloc \<Rightarrow> 'a list \<Rightarrow> ('a kvec, alloc_error, unit) op" where
  "extend_from_slice ty krealloc xs =
     sthen (reserve ty krealloc (length xs)) (kv_push_each ty krealloc xs)"

definition from_slice :: "elem_ty \<Rightarrow> 'a krealloc \<Rightarrow> 'a list \<Rightarrow> alloc_error + 'a kvec" where
  "from_slice ty krealloc xs =
     rbind (with_capacity ty krealloc (length xs)) (\<lambda>v.
       case extend_from_slice ty krealloc xs v of
         (Inl e, _) \<Rightarrow> Inl e
       | (Inr _, v') \<Rightarrow> Inr v')"

text \<open>
  The filling loop of \<open>resize\<close> and \<open>resize_with\<close>; the generator is
  threaded through its state, a constant one for \<open>resize\<close>.
\<close>

function fill_loop ::
  "('g \<Rightarrow> 'a \<times> 'g) \<Rightarrow> 'g \<Rightarrow> nat \<Rightarrow> ('a kvec, alloc_error, 'g) op" where
  "fill_loop f g new_len v =
     (if kv_len v < new_len
      then (case kv_write_end (fst (f g)) v of
              (Inl e, v') \<Rightarrow> (Inl e, v')
            | (Inr _, v') \<Rightarrow> fill_loop f (snd (f g)) new_len v')
      else (Inr g, v))"
  by pat_completeness auto
termination
  by (relation "measure (\<lambda>(f, g, n, v). n - kv_len v)")
    (auto simp: kv_write_end_def split: sum.splits)

declare fill_loop.simps [simp del]

definition resize_with ::
  "elem_ty \<Rightarrow> 'a krealloc \<Rightarrow> nat \<Rightarrow> ('g \<Rightarrow> 'a \<times> 'g) \<Rightarrow> 'g \<Rightarrow> ('a kvec, alloc_error, unit) op" where
  "resize_with ty krealloc new_len f g v =
     (if new_len \<le> kv_len v then sbind (kv_truncate new_len) (\<lambda>_. sret ()) v
      else sthen (reserve ty krealloc (new_len - kv_len v))
             (sbind (fill_loop f g new_len) (\<lambda>_. sret ())) v)"

definition kv_resize ::
  "elem_ty \<Rightarrow> 'a krealloc \<Rightarrow> nat \<Rightarrow> 'a \<Rightarrow> ('a kvec, alloc_error, unit) op" where
  "kv_resize ty krealloc new_len x v =
     (if new_len \<le> kv_len v then sbind (kv_truncate new_len) (\<lambda>_. sret ()) v
      else sthen (reserve ty krealloc (new_len - kv_len v))
             (sbind (fill_loop (\<lambda>u. (x, u)) () new_len) (\<lambda>_. sret ())) v)"

text \<open>
  Dropping a vector: the values dropped, and the block handed to
  \<open>kfree\<close> with the slots it then has, if one was allocated.
\<close>

definition kv_drop :: "elem_ty \<Rightarrow> 'a kvec \<Rightarrow> alloc_error + ('a list \<times> 'a block option)" where
  "kv_drop ty v =
     (case kv_clear v of
        (Inl e, _) \<Rightarrow> Inl e
      | (Inr xs, v') \<Rightarrow>
          Inr (xs, if kv_cap v' > 0 \<and> \<not> isl (array_layout ty (kv_cap v'))
                   then Some (kv_ptr v') else None))"


section \<open>The consuming iterator\<close>

record 'a into_iter =
  it_vec :: "'a kvec"
  it_pos :: nat

definition kv_into_iter :: "'a kvec \<Rightarrow> 'a into_iter" where
  "kv_into_iter v = \<lparr>it_vec = v, it_pos = 0\<rparr>"

definition iter_next :: "('a into_iter, alloc_error, 'a option) op" where
  "iter_next it =
     (if it_pos it \<ge> kv_len (it_vec it) then (Inr None, it)
      else case slot_read (it_pos it) (kv_ptr (it_vec it)) of
             Inl e \<Rightarrow> (Inl e, it)
           | Inr (x, blk) \<Rightarrow>
               (Inr (Some x), it\<lparr>it_vec := (it_vec it)\<lparr>kv_ptr := blk\<rparr>, it_pos := it_pos it + 1\<rparr>))"

definition size_hint :: "'a into_iter \<Rightarrow> nat" where
  "size_hint it = kv_len (it_vec it) - it_pos it"

text \<open>
  Dropping the iterator drops the values not yet consumed and then drops the
  vector with its length set to zero.
\<close>

definition iter_drop :: "elem_ty \<Rightarrow> 'a into_iter \<Rightarrow> alloc_error + ('a list \<times> 'a block option)" where
  "iter_drop ty it =
     rbind (drop_slots (kv_len (it_vec it) - it_pos it) (it_pos it) (kv_ptr (it_vec it)))
       (\<lambda>(xs, blk). rbind (kv_drop ty ((it_vec it)\<lparr>kv_ptr := blk, kv_len := 0\<rparr>))
          (\<lambda>(ys, freed). Inr (xs @ ys, freed)))"


section \<open>Representation\<close>

definition kv_list :: "'a kvec \<Rightarrow> 'a list" where
  "kv_list v = map the (take (kv_len v) (kv_ptr v))"

definition kv_rep :: "elem_ty \<Rightarrow> 'a list \<Rightarrow> 'a kvec \<Rightarrow> bool" where
  "kv_rep ty xs v \<longleftrightarrow>
     kv_ptr v = map Some xs @ replicate (kv_cap v - length xs) None \<and>
     kv_len v = length xs \<and> length xs \<le> kv_cap v \<and>
     (0 < kv_cap v \<longrightarrow> \<not> isl (array_layout ty (kv_cap v)))"

text \<open>
  The invariant: the first \<open>len\<close> slots of the block are live, the others
  are empty, the block has \<open>cap\<close> slots and its layout is representable.
\<close>

definition kv_inv :: "elem_ty \<Rightarrow> 'a kvec \<Rightarrow> bool" where
  "kv_inv ty v \<longleftrightarrow> kv_rep ty (kv_list v) v"

lemma kv_rep_list: "kv_rep ty xs v \<Longrightarrow> kv_list v = xs"
  by (simp add: kv_rep_def kv_list_def)

lemma kv_rep_inv: "kv_rep ty xs v \<longleftrightarrow> kv_inv ty v \<and> kv_list v = xs"
  using kv_rep_list by (auto simp: kv_inv_def)

lemma kv_rep_new [simp]: "kv_rep ty [] kv_new"
  by (simp add: kv_rep_def kv_new_def)

lemma array_layout_Inr:
  "array_layout ty n = Inr l \<Longrightarrow> lsize l = size_of ty * n \<and> lalign l = align_of ty"
  by (auto simp: array_layout_def from_size_align_def split: if_splits)

lemma array_layout_Inl: "array_layout ty n = Inl e \<Longrightarrow> e = AllocError"
  by (auto simp: array_layout_def from_size_align_def rbind_eq_Inl of_option_def
      split: if_splits option.splits)

lemma as_slice_rep: "kv_rep ty xs v \<Longrightarrow> as_slice v = Inr xs"
  by (auto simp: kv_rep_def as_slice_def)


section \<open>Growing\<close>

lemma krealloc_okD:
  assumes "krealloc_ok ty krealloc" "krealloc old (size_of ty * n) align = Some new"
  shows "new = take n old @ replicate (n - length old) None"
proof -
  have "size_of ty * n div size_of ty = n" using assms(1) by (simp add: krealloc_ok_def)
  with assms show ?thesis unfolding krealloc_ok_def by metis
qed

lemma kmalloc_realloc_grows:
  assumes "krealloc_ok ty krealloc" "array_layout ty n = Inr l" "0 < n"
    and "length xs \<le> m" "m \<le> n"
    and "kmalloc_realloc krealloc (map Some xs @ replicate (m - length xs) None) l = Inr raw"
  shows "raw = map Some xs @ replicate (n - length xs) None"
proof -
  have "lsize l = size_of ty * n" "0 < size_of ty"
    using assms(1,2) array_layout_Inr by (auto simp: krealloc_ok_def)
  with assms(3,6) have "krealloc (map Some xs @ replicate (m - length xs) None)
      (size_of ty * n) (lalign l) = Some raw"
    by (simp add: kmalloc_realloc_def)
  from krealloc_okD [OF assms(1) this] assms(4,5) show ?thesis
    by (simp add: replicate_add [symmetric])
qed

lemma kmalloc_realloc_Inl: "kmalloc_realloc krealloc ptr l = Inl e \<Longrightarrow> e = AllocError"
  by (auto simp: kmalloc_realloc_def Let_def of_option_def split: if_splits option.splits)

lemma realloc_to_rep:
  assumes ok: "krealloc_ok ty krealloc" and rep: "kv_rep ty xs v"
    and n: "kv_cap v \<le> n" "0 < n"
    and run: "realloc_to ty krealloc n v = (r, v')"
  shows "r = Inl AllocError \<and> v' = v \<or> r = Inr () \<and> kv_rep ty xs v' \<and> kv_cap v' = n"
proof (cases "rbind (array_layout ty n) (\<lambda>new_layout.
            rbind (array_layout ty (kv_cap v)) (\<lambda>old_layout.
              kmalloc_realloc krealloc (if kv_cap v = 0 then [] else kv_ptr v) new_layout))")
  case (Inl e)
  then have "e = AllocError"
    by (auto simp: rbind_eq_Inl dest: array_layout_Inl kmalloc_realloc_Inl)
  with Inl run show ?thesis by (simp add: realloc_to_def)
next
  case (Inr raw)
  then obtain l where l: "array_layout ty n = Inr l"
    and raw: "kmalloc_realloc krealloc (if kv_cap v = 0 then [] else kv_ptr v) l = Inr raw"
    by auto
  have "(if kv_cap v = 0 then [] else kv_ptr v)
          = map Some xs @ replicate (kv_cap v - length xs) None"
    using rep by (auto simp: kv_rep_def)
  with raw have "raw = map Some xs @ replicate (n - length xs) None"
    using kmalloc_realloc_grows [OF ok l n(2), of xs "kv_cap v" raw] rep n(1)
    by (simp add: kv_rep_def)
  with Inr run l rep n show ?thesis by (auto simp: realloc_to_def kv_rep_def)
qed

lemma reserve_rep:
  assumes "krealloc_ok ty krealloc" "kv_rep ty xs v"
    and "reserve ty krealloc k v = (r, v')"
  shows "r = Inl AllocError \<and> v' = v
       \<or> r = Inr () \<and> kv_rep ty xs v' \<and> length xs + k \<le> kv_cap v'"
  using assms realloc_to_rep [OF assms(1,2), of "length xs + k" r v']
  by (auto simp: reserve_def checked_add_def kv_rep_def split: if_splits)

lemma grow_rep:
  assumes "krealloc_ok ty krealloc" "kv_rep ty xs v" "kv_len v = kv_cap v"
    and "grow ty krealloc v = (r, v')"
  shows "r = Inl AllocError \<and> v' = v
       \<or> r = Inr () \<and> kv_rep ty xs v' \<and> length xs < kv_cap v'"
proof (cases "if kv_cap v = 0 then Some 1 else checked_mul (kv_cap v) 2")
  case None
  with assms show ?thesis by (simp add: grow_def)
next
  case (Some n)
  then have "kv_cap v < n" by (auto split: if_splits)
  with Some assms show ?thesis
    using realloc_to_rep [OF assms(1,2), of n r v'] by (auto simp: grow_def kv_rep_def)
qed

lemma kv_write_end_rep:
  assumes "kv_rep ty xs v" "length xs < kv_cap v"
  shows "\<exists>v'. kv_write_end x v = (Inr (), v') \<and> kv_rep ty (xs @ [x]) v' \<and> kv_cap v' = kv_cap v"
proof -
  obtain n where n: "kv_cap v - length xs = Suc n" "kv_cap v - Suc (length xs) = n"
    using assms(2) by (metis Suc_diff_Suc)
  with assms show ?thesis
    by (auto simp: kv_write_end_def slot_write_def kv_rep_def list_update_append)
qed

lemma kv_push_rep:
  assumes "krealloc_ok ty krealloc" "kv_rep ty xs v"
    and "kv_push ty krealloc x v = (r, v')"
  shows "r = Inl AllocError \<and> v' = v \<or> r = Inr () \<and> kv_rep ty (xs @ [x]) v'"
proof (cases "kv_len v = kv_cap v")
  case True
  with assms(3) have run: "sthen (grow ty krealloc) (kv_write_end x) v = (r, v')"
    by (simp add: kv_push_def)
  from run [unfolded sthen_def] show ?thesis
  proof (cases rule: sbind_cases)
    case (fails e)
    then show ?thesis using grow_rep [OF assms(1,2) True] by fastforce
  next
    case (continues u v1)
    then have "kv_rep ty xs v1 \<and> length xs < kv_cap v1"
      using grow_rep [OF assms(1,2) True] by fastforce
    with continues show ?thesis using kv_write_end_rep [of ty xs v1 x] by auto
  qed
next
  case False
  with assms have "length xs < kv_cap v" by (simp add: kv_rep_def)
  with False assms show ?thesis
    using kv_write_end_rep [of ty xs v x] by (auto simp: kv_push_def sthen_def sbind_def)
qed

text \<open>With room for it, a push neither fails nor reallocates.\<close>

lemma kv_push_room:
  assumes "kv_rep ty xs v" "length xs < kv_cap v"
  shows "\<exists>v'. kv_push ty krealloc x v = (Inr (), v') \<and> kv_rep ty (xs @ [x]) v'
           \<and> kv_cap v' = kv_cap v"
proof -
  have "kv_len v \<noteq> kv_cap v" using assms by (simp add: kv_rep_def)
  then show ?thesis
    using kv_write_end_rep [OF assms, of x] by (simp add: kv_push_def sthen_def sbind_def)
qed

lemma kv_push_each_room:
  "kv_rep ty xs v \<Longrightarrow> length xs + length ys \<le> kv_cap v \<Longrightarrow>
   \<exists>v'. kv_push_each ty krealloc ys v = (Inr (), v') \<and> kv_rep ty (xs @ ys) v'
      \<and> kv_cap v' = kv_cap v"
proof (induction ys arbitrary: xs v)
  case (Cons y ys)
  then obtain v1 where v1: "kv_push ty krealloc y v = (Inr (), v1)"
    "kv_rep ty (xs @ [y]) v1" "kv_cap v1 = kv_cap v"
    using kv_push_room [of ty xs v krealloc y] by auto
  with Cons show ?case
    using Cons.IH [of "xs @ [y]" v1] by (auto simp: sthen_def sbind_def)
qed simp

lemma extend_rep:
  assumes "krealloc_ok ty krealloc" "kv_rep ty xs v"
    and "extend_from_slice ty krealloc ys v = (r, v')"
  shows "r = Inl AllocError \<and> v' = v \<or> r = Inr () \<and> kv_rep ty (xs @ ys) v'"
  using assms(3) [unfolded extend_from_slice_def sthen_def]
proof (cases rule: sbind_cases)
  case (fails e)
  then show ?thesis using reserve_rep [OF assms(1,2)] by fastforce
next
  case (continues u v1)
  then have "kv_rep ty xs v1" "length xs + length ys \<le> kv_cap v1"
    using reserve_rep [OF assms(1,2)] by fastforce+
  with continues show ?thesis using kv_push_each_room [of ty xs v1 ys krealloc] by auto
qed

lemma with_capacity_rep:
  assumes "krealloc_ok ty krealloc"
  shows "with_capacity ty krealloc n = Inl AllocError
    \<or> (\<exists>v. with_capacity ty krealloc n = Inr v \<and> kv_rep ty [] v \<and> n \<le> kv_cap v)"
proof -
  obtain r v where "reserve ty krealloc n kv_new = (r, v)" by fastforce
  with reserve_rep [OF assms kv_rep_new this] show ?thesis by (auto simp: with_capacity_def)
qed

lemma from_slice_rep:
  assumes "krealloc_ok ty krealloc"
  shows "from_slice ty krealloc xs = Inl AllocError
    \<or> (\<exists>v. from_slice ty krealloc xs = Inr v \<and> kv_rep ty xs v)"
  using with_capacity_rep [OF assms, of "length xs"]
proof
  assume "\<exists>v. with_capacity ty krealloc (length xs) = Inr v \<and> kv_rep ty [] v \<and> length xs \<le> kv_cap v"
  then obtain v where v: "with_capacity ty krealloc (length xs) = Inr v" "kv_rep ty [] v" by blast
  obtain r v' where "extend_from_slice ty krealloc xs v = (r, v')" by fastforce
  with v extend_rep [OF assms v(2) this] show ?thesis by (auto simp: from_slice_def)
qed (simp add: from_slice_def)

lemma from_slice_cases:
  assumes "krealloc_ok ty krealloc"
  obtains (bad) "from_slice ty krealloc xs = Inl AllocError"
  | (good) v where "from_slice ty krealloc xs = Inr v" "kv_inv ty v" "kv_list v = xs"
  using from_slice_rep [OF assms, of xs] by (auto simp: kv_rep_inv)

lemma fill_loop_rep:
  "kv_rep ty xs v \<Longrightarrow> length xs + n \<le> kv_cap v \<Longrightarrow>
   \<exists>v'. fill_loop (\<lambda>u. (x, u)) () (length xs + n) v = (Inr (), v')
      \<and> kv_rep ty (xs @ replicate n x) v'"
proof (induction n arbitrary: xs v)
  case 0
  then show ?case by (simp add: fill_loop.simps kv_rep_def)
next
  case (Suc n)
  then obtain v1 where v1: "kv_write_end x v = (Inr (), v1)" "kv_rep ty (xs @ [x]) v1"
    "kv_cap v1 = kv_cap v"
    using kv_write_end_rep [of ty xs v x] by auto
  moreover have "kv_len v < length xs + Suc n" using Suc.prems by (simp add: kv_rep_def)
  ultimately show ?case
    using Suc.IH [of "xs @ [x]" v1] Suc.prems by (subst fill_loop.simps) auto
qed


section \<open>Shrinking\<close>

lemma drop_slots_live:
  "length p = i \<Longrightarrow>
   drop_slots (length xs) i (p @ map Some xs @ r) = Inr (xs, p @ replicate (length xs) None @ r)"
proof (induction xs arbitrary: i p)
  case (Cons x xs)
  then show ?case
    using Cons.IH [of "p @ [None]" "Suc i"] by (auto simp: slot_read_def list_update_append nth_append)
qed simp

lemma kv_truncate_rep:
  assumes "kv_rep ty xs v"
  shows "\<exists>v'. kv_truncate n v = (Inr (drop n xs), v') \<and> kv_rep ty (take n xs) v'"
proof (cases "length xs \<le> n")
  case True
  with assms show ?thesis by (auto simp: kv_truncate_def kv_rep_def)
next
  case False
  let ?r = "replicate (kv_cap v - length xs) (None :: 'a option)"
  have "kv_ptr v = map Some (take n xs) @ map Some (drop n xs) @ ?r"
    using assms by (simp add: kv_rep_def flip: map_append append.assoc)
  then have "drop_slots (length xs - n) n (kv_ptr v)
      = Inr (drop n xs, map Some (take n xs) @ replicate (length xs - n) None @ ?r)"
    using drop_slots_live [of "map Some (take n xs)" n "drop n xs" ?r] False by simp
  with assms False show ?thesis
    by (auto simp: kv_truncate_def kv_rep_def replicate_add [symmetric] min_def)
qed

lemma kv_pop_rep:
  assumes "kv_rep ty xs v"
  shows "\<exists>v'. kv_pop v = (Inr (if xs = [] then None else Some (last xs)), v')
           \<and> kv_rep ty (butlast xs) v'"
proof (cases xs rule: rev_cases)
  case (snoc ys y)
  then have "kv_len v = Suc (length ys)"
    "kv_ptr v = map Some ys @ Some y # replicate (kv_cap v - Suc (length ys)) None"
    "kv_cap v - length ys = Suc (kv_cap v - Suc (length ys))"
    using assms by (auto simp: kv_rep_def)
  with assms snoc show ?thesis
    by (auto simp: kv_pop_def slot_read_def kv_rep_def nth_append list_update_append)
qed (use assms in \<open>auto simp: kv_pop_def kv_rep_def\<close>)

lemma split_at_index:
  assumes "i < length xs"
  obtains ys y zs where "xs = ys @ y # zs" "i = length ys" "xs ! i = y"
  using assms id_take_nth_drop [of i xs] that [of "take i xs" "xs ! i" "drop (Suc i) xs"] by simp

lemma kv_remove_rep:
  assumes rep: "kv_rep ty xs v" and i: "i < length xs"
  shows "\<exists>v'. kv_remove i v = (Inr (xs ! i), v') \<and> kv_rep ty (remove_at i xs) v'"
proof -
  from i obtain ys y zs where xs: "xs = ys @ y # zs" "i = length ys" "xs ! i = y"
    by (rule split_at_index)
  let ?r = "replicate (kv_cap v - length xs) (None :: 'a option)"
  have len: "kv_len v = Suc (length ys + length zs)"
    and ptr: "kv_ptr v = map Some ys @ Some y # map Some zs @ ?r"
    using rep xs by (auto simp: kv_rep_def)
  have read: "slot_read i (kv_ptr v) = Inr (y, map Some ys @ None # map Some zs @ ?r)"
    using xs ptr by (simp add: slot_read_def nth_append list_update_append)
  have move: "slots_move (Suc i) i (length zs) (map Some ys @ None # map Some zs @ ?r)
      = Inr (map Some ys @ map Some zs @ None # ?r)"
    using xs by (cases zs rule: rev_cases)
      (simp_all add: slots_move_def Let_def replicate_app_Cons_same [symmetric])
  have cap: "kv_cap v - (length ys + length zs) = Suc (kv_cap v - length xs)"
    using rep xs by (auto simp: kv_rep_def)
  have "kv_remove i v = (Inr y,
      v\<lparr>kv_ptr := map Some ys @ map Some zs @ None # ?r, kv_len := length ys + length zs\<rparr>)"
    using read move len xs by (cases zs) (simp_all add: kv_remove_def)
  with rep xs cap show ?thesis by (auto simp: kv_rep_def remove_at_def)
qed

text \<open>What \<open>swap_remove\<close> leaves: the last element in the place of the removed one.\<close>

definition swap_remove_at :: "nat \<Rightarrow> 'a list \<Rightarrow> 'a list" where
  "swap_remove_at i xs = butlast (xs[i := last xs])"

lemma kv_swap_remove_rep:
  assumes rep: "kv_rep ty xs v" and i: "i < length xs"
  shows "\<exists>v'. kv_swap_remove i v = (Inr (xs ! i), v') \<and> kv_rep ty (swap_remove_at i xs) v'"
proof -
  from i obtain ys y where xs: "xs = ys @ [y]" by (cases xs rule: rev_cases) auto
  let ?r = "replicate (kv_cap v - Suc (length ys)) (None :: 'a option)"
  have len: "kv_len v = Suc (length ys)" and ptr: "kv_ptr v = map Some ys @ Some y # ?r"
    and cap: "kv_cap v - length ys = Suc (kv_cap v - Suc (length ys))"
    using rep xs by (auto simp: kv_rep_def)
  show ?thesis
  proof (cases "i = length ys")
    case True
    with rep xs len ptr cap show ?thesis
      by (auto simp: kv_swap_remove_def Let_def slot_read_def swap_remove_at_def kv_rep_def
          nth_append list_update_append butlast_append)
  next
    case False
    with i xs have "i < length ys" by simp
    with False rep xs len ptr cap show ?thesis
      by (auto simp: kv_swap_remove_def Let_def slots_swap_def slot_read_def swap_remove_at_def
          kv_rep_def nth_append list_update_append butlast_append map_update)
  qed
qed

lemma mset_swap_remove_at:
  assumes "i < length xs"
  shows "add_mset (xs ! i) (mset (swap_remove_at i xs)) = mset xs"
proof -
  from assms obtain ys y where xs: "xs = ys @ [y]" by (cases xs rule: rev_cases) auto
  show ?thesis
  proof (cases "i = length ys")
    case False
    with assms xs have "i < length ys" by simp
    with xs show ?thesis
      by (simp add: swap_remove_at_def list_update_append nth_append butlast_append mset_update)
  qed (simp add: xs swap_remove_at_def list_update_append)
qed


section \<open>An allocator that does not run out\<close>

text \<open>
  With an allocator that always answers, an operation fails only when the
  layout it asks for is not representable.
\<close>

definition krealloc_total :: "'a krealloc \<Rightarrow> bool" where
  "krealloc_total krealloc \<longleftrightarrow> (\<forall>old sz align. krealloc old sz align \<noteq> None)"

lemma array_layout_fits:
  assumes "size_of ty * n + align_of ty \<le> isize_max"
  shows "\<exists>l. array_layout ty n = Inr l"
proof -
  have "size_of ty * n \<le> usize_max" "size_of ty * n + (align_of ty - 1) \<le> isize_max"
    using assms by (simp_all add: usize_max_def isize_max_def)
  then show ?thesis by (simp add: array_layout_def checked_mul_def from_size_align_def)
qed

lemma layout_len_bound:
  assumes "size_of ty * n + a \<le> isize_max" "0 < size_of ty"
  shows "n \<le> usize_max"
proof -
  have "1 * n \<le> size_of ty * n" using assms(2) by (intro mult_right_mono) simp_all
  then have "n \<le> isize_max" using assms(1) by linarith
  then show ?thesis by (simp add: usize_max_def isize_max_def)
qed

lemma realloc_to_total:
  assumes "krealloc_total krealloc" "kv_rep ty xs v" "size_of ty * n + align_of ty \<le> isize_max"
  shows "\<exists>v'. realloc_to ty krealloc n v = (Inr (), v')"
proof -
  obtain l where l: "array_layout ty n = Inr l" using array_layout_fits [OF assms(3)] ..
  have "\<exists>l. array_layout ty (kv_cap v) = Inr l"
  proof (cases "kv_cap v = 0")
    case True
    then show ?thesis using assms(3) by (intro array_layout_fits) simp
  next
    case False
    then show ?thesis using assms(2) by (cases "array_layout ty (kv_cap v)") (auto simp: kv_rep_def)
  qed
  moreover have "\<exists>raw. kmalloc_realloc krealloc ptr l = Inr raw" for ptr
    using assms(1) by (auto simp: kmalloc_realloc_def krealloc_total_def Let_def)
  ultimately obtain l' raw where "array_layout ty (kv_cap v) = Inr l'"
    "kmalloc_realloc krealloc (if kv_cap v = 0 then [] else kv_ptr v) l = Inr raw" by blast
  then show ?thesis using l by (simp add: realloc_to_def)
qed

lemma reserve_total:
  assumes "krealloc_total krealloc" "kv_rep ty xs v" "size_of ty * (length xs + n) + align_of ty \<le> isize_max"
    "0 < size_of ty"
  shows "\<exists>v'. reserve ty krealloc n v = (Inr (), v')"
proof -
  have "length xs + n \<le> usize_max" by (rule layout_len_bound [OF assms(3,4)])
  moreover have "kv_len v = length xs" using assms(2) by (simp add: kv_rep_def)
  ultimately show ?thesis using realloc_to_total [OF assms(1-3)] by (simp add: reserve_def checked_add_def)
qed

lemma with_capacity_total:
  assumes "krealloc_total krealloc" "size_of ty * n + align_of ty \<le> isize_max" "0 < size_of ty"
  shows "\<exists>v. with_capacity ty krealloc n = Inr v"
  using reserve_total [OF assms(1) kv_rep_new [of ty], of n] assms(2,3) by (auto simp: with_capacity_def)

lemma extend_total:
  assumes "krealloc_ok ty krealloc" "krealloc_total krealloc" "kv_rep ty xs v"
    "size_of ty * (length xs + length ys) + align_of ty \<le> isize_max"
  shows "\<exists>v'. extend_from_slice ty krealloc ys v = (Inr (), v')"
proof -
  obtain v1 where v1: "reserve ty krealloc (length ys) v = (Inr (), v1)"
    using reserve_total [OF assms(2-4)] assms(1) by (auto simp: krealloc_ok_def)
  then have "kv_rep ty xs v1" "length xs + length ys \<le> kv_cap v1"
    using reserve_rep [OF assms(1,3) v1] by auto
  then show ?thesis using v1 kv_push_each_room [of ty xs v1 ys krealloc]
    by (auto simp: extend_from_slice_def sthen_def sbind_def)
qed

lemma from_slice_total:
  assumes "krealloc_ok ty krealloc" "krealloc_total krealloc"
    "size_of ty * length xs + align_of ty \<le> isize_max"
  shows "\<exists>v. from_slice ty krealloc xs = Inr v"
proof -
  have pos: "0 < size_of ty" using assms(1) by (simp add: krealloc_ok_def)
  obtain v where v: "with_capacity ty krealloc (length xs) = Inr v"
    using with_capacity_total [OF assms(2,3) pos] ..
  then have "kv_rep ty [] v" using with_capacity_rep [OF assms(1), of "length xs"] by auto
  from extend_total [OF assms(1,2) this, of xs] assms(3) v show ?thesis by (auto simp: from_slice_def)
qed

lemma resize_total:
  assumes "krealloc_ok ty krealloc" "krealloc_total krealloc" "kv_rep ty xs v"
    "size_of ty * n + align_of ty \<le> isize_max"
  shows "\<exists>v'. kv_resize ty krealloc n x v = (Inr (), v')"
proof (cases "n \<le> length xs")
  case True
  then show ?thesis using kv_truncate_rep [OF assms(3), of n] assms(3)
    by (auto simp: kv_resize_def kv_rep_def sbind_def)
next
  case False
  have len: "kv_len v = length xs" using assms(3) by (simp add: kv_rep_def)
  obtain v1 where v1: "reserve ty krealloc (n - length xs) v = (Inr (), v1)"
    using reserve_total [OF assms(2,3), of "n - length xs"] assms(1,4) False by (auto simp: krealloc_ok_def)
  then have "kv_rep ty xs v1" "length xs + (n - length xs) \<le> kv_cap v1"
    using reserve_rep [OF assms(1,3) v1] by auto
  then show ?thesis using v1 False len fill_loop_rep [of ty xs v1 "n - length xs" x]
    by (auto simp: kv_resize_def sthen_def sbind_def)
qed

lemma push_total:
  assumes "krealloc_ok ty krealloc" "krealloc_total krealloc" "kv_rep ty xs v" "kv_cap v \<le> 2 * length xs"
    "size_of ty * (2 * length xs + 1) + align_of ty \<le> isize_max"
  shows "\<exists>v'. kv_push ty krealloc x v = (Inr (), v') \<and> kv_cap v' \<le> 2 * length (xs @ [x])"
proof (cases "kv_len v = kv_cap v")
  case False
  then have "length xs < kv_cap v" using assms(3) by (simp add: kv_rep_def)
  then show ?thesis using kv_push_room [OF assms(3), of krealloc x] assms(4) by auto
next
  case True
  define n where "n = (if kv_cap v = 0 then 1 else kv_cap v * 2)"
  have len: "kv_cap v = length xs" "n \<le> 2 * length xs + 1" "length xs < n" "n \<le> 2 * Suc (length xs)"
    using True assms(3) by (auto simp: kv_rep_def n_def)
  have "size_of ty * n \<le> size_of ty * (2 * length xs + 1)" using len(2) by (rule mult_le_mono2)
  then have room: "size_of ty * n + align_of ty \<le> isize_max" using assms(5) by simp
  have "0 < size_of ty" using assms(1) by (simp add: krealloc_ok_def)
  then have "n \<le> usize_max" by (rule layout_len_bound [OF room])
  then have "grow ty krealloc v = realloc_to ty krealloc n v"
    by (auto simp: grow_def n_def checked_mul_def)
  moreover obtain v1 where v1: "realloc_to ty krealloc n v = (Inr (), v1)"
    using realloc_to_total [OF assms(2,3) room] ..
  moreover have "kv_rep ty xs v1" "kv_cap v1 = n"
    using realloc_to_rep [OF assms(1,3) _ _ v1] len by auto
  ultimately show ?thesis
    using True kv_write_end_rep [of ty xs v1 x] len by (auto simp: kv_push_def sthen_def sbind_def)
qed


section \<open>The contract of a vector\<close>

text \<open>
  What the clients of a vector rely on: appending either fails with an
  allocation error and changes nothing or appends, and removing a valid index
  never fails.  Writers that only append are composed with \<open>appends\<close>,
  and taking index 0 repeatedly drains the vector in first-in-first-out order.
\<close>

definition appends ::
  "('v \<Rightarrow> bool) \<Rightarrow> ('v \<Rightarrow> 'a list) \<Rightarrow> 'e \<Rightarrow> ('v, 'e, unit) op \<Rightarrow> 'a list \<Rightarrow> bool" where
  "appends invar elems err m ys \<longleftrightarrow>
     (\<forall>v. invar v \<longrightarrow>
        (\<exists>v' zs. invar v' \<and> elems v' = elems v @ zs \<and>
           (m v = (Inr (), v') \<and> zs = ys \<or> m v = (Inl err, v') \<and> prefix zs ys)))"

primrec drain :: "(nat \<Rightarrow> ('v, 'e, 'a) op) \<Rightarrow> nat \<Rightarrow> ('v, 'e, 'a list) op" where
  "drain take_at 0 = sret []"
| "drain take_at (Suc n) =
     sbind (take_at 0) (\<lambda>x. sbind (drain take_at n) (\<lambda>xs. sret (x # xs)))"

locale vector =
  fixes invar :: "'v \<Rightarrow> bool"
    and elems :: "'v \<Rightarrow> 'a list"
    and granted :: "'al \<Rightarrow> bool"
    and push :: "'al \<Rightarrow> 'a \<Rightarrow> ('v, alloc_error, unit) op"
    and extend :: "'al \<Rightarrow> 'a list \<Rightarrow> ('v, alloc_error, unit) op"
    and take_at :: "nat \<Rightarrow> ('v, alloc_error, 'a) op"
  assumes push_spec:
      "granted al \<Longrightarrow> invar v \<Longrightarrow> push al x v = (r, v') \<Longrightarrow>
       r = Inl AllocError \<and> v' = v \<or> r = Inr () \<and> invar v' \<and> elems v' = elems v @ [x]"
    and extend_spec:
      "granted al \<Longrightarrow> invar v \<Longrightarrow> extend al ys v = (r, v') \<Longrightarrow>
       r = Inl AllocError \<and> v' = v \<or> r = Inr () \<and> invar v' \<and> elems v' = elems v @ ys"
    and take_at_spec:
      "invar v \<Longrightarrow> i < length (elems v) \<Longrightarrow>
       \<exists>v'. take_at i v = (Inr (elems v ! i), v') \<and> invar v' \<and> elems v' = remove_at i (elems v)"
begin

lemma appends_nothing: "appends invar elems err (sret ()) []"
  by (simp add: appends_def)

lemma appends_push: "granted al \<Longrightarrow> appends invar elems AllocError (push al x) [x]"
  unfolding appends_def
proof (intro allI impI)
  fix v
  assume "granted al" "invar v"
  moreover obtain r v' where run: "push al x v = (r, v')" by fastforce
  ultimately consider "r = Inl AllocError" "v' = v" | "r = Inr ()" "invar v'" "elems v' = elems v @ [x]"
    using push_spec by blast
  then show "\<exists>v' zs. invar v' \<and> elems v' = elems v @ zs \<and>
      (push al x v = (Inr (), v') \<and> zs = [x] \<or> push al x v = (Inl AllocError, v') \<and> prefix zs [x])"
    using run \<open>invar v\<close> by cases auto
qed

lemma appends_extend: "granted al \<Longrightarrow> appends invar elems AllocError (extend al ys) ys"
  unfolding appends_def
proof (intro allI impI)
  fix v
  assume "granted al" "invar v"
  moreover obtain r v' where run: "extend al ys v = (r, v')" by fastforce
  ultimately consider "r = Inl AllocError" "v' = v" | "r = Inr ()" "invar v'" "elems v' = elems v @ ys"
    using extend_spec by blast
  then show "\<exists>v' zs. invar v' \<and> elems v' = elems v @ zs \<and>
      (extend al ys v = (Inr (), v') \<and> zs = ys \<or> extend al ys v = (Inl AllocError, v') \<and> prefix zs ys)"
    using run \<open>invar v\<close> by cases auto
qed

lemma appends_sthen:
  assumes m: "appends invar elems err m xs" and n: "appends invar elems err n ys"
  shows "appends invar elems err (sthen m n) (xs @ ys)"
  unfolding appends_def
proof (intro allI impI)
  fix v
  assume "invar v"
  with m obtain v1 zs where v1: "invar v1" "elems v1 = elems v @ zs"
    and "m v = (Inr (), v1) \<and> zs = xs \<or> m v = (Inl err, v1) \<and> prefix zs xs"
    unfolding appends_def by blast
  then consider (ok) "m v = (Inr (), v1)" "zs = xs" | (bad) "m v = (Inl err, v1)" "prefix zs xs"
    by blast
  then show "\<exists>v' zs. invar v' \<and> elems v' = elems v @ zs \<and>
      (sthen m n v = (Inr (), v') \<and> zs = xs @ ys
       \<or> sthen m n v = (Inl err, v') \<and> prefix zs (xs @ ys))"
  proof cases
    case ok
    obtain v2 us where "invar v2" "elems v2 = elems v1 @ us"
      "n v1 = (Inr (), v2) \<and> us = ys \<or> n v1 = (Inl err, v2) \<and> prefix us ys"
      using n v1(1) unfolding appends_def by blast
    with ok v1 show ?thesis
      by (intro exI [of _ v2] exI [of _ "xs @ us"]) (auto simp: sthen_def sbind_def)
  next
    case bad
    with v1 show ?thesis
      by (intro exI [of _ v1] exI [of _ zs]) (auto simp: sthen_def sbind_def)
  qed
qed

lemma appends_map_err:
  assumes "appends invar elems err m ys"
  shows "appends invar elems (f err) (smap_err f m) ys"
  unfolding appends_def
proof (intro allI impI)
  fix v
  assume "invar v"
  with assms obtain v' zs where "invar v'" "elems v' = elems v @ zs"
    "m v = (Inr (), v') \<and> zs = ys \<or> m v = (Inl err, v') \<and> prefix zs ys"
    unfolding appends_def by blast
  then show "\<exists>v' zs. invar v' \<and> elems v' = elems v @ zs \<and>
      (smap_err f m v = (Inr (), v') \<and> zs = ys \<or> smap_err f m v = (Inl (f err), v') \<and> prefix zs ys)"
    by (intro exI [of _ v'] exI [of _ zs]) (auto simp: smap_err_def)
qed

lemma appends_sseq:
  "list_all2 (appends invar elems err) ms yss \<Longrightarrow> appends invar elems err (sseq ms) (concat yss)"
  by (induction rule: list_all2_induct) (simp_all add: appends_nothing appends_sthen del: sret_apply)

lemma drain_fifo:
  "invar v \<Longrightarrow> n \<le> length (elems v) \<Longrightarrow>
   \<exists>v'. drain take_at n v = (Inr (take n (elems v)), v') \<and> invar v' \<and> elems v' = drop n (elems v)"
proof (induction n arbitrary: v)
  case (Suc n)
  then obtain x xs where xs: "elems v = x # xs" by (cases "elems v") auto
  then obtain v1 where v1: "take_at 0 v = (Inr x, v1)" "invar v1" "elems v1 = xs"
    using take_at_spec [OF Suc.prems(1), of 0] by auto
  then obtain v2 where "drain take_at n v1 = (Inr (take n xs), v2)" "invar v2" "elems v2 = drop n xs"
    using Suc.IH [of v1] Suc.prems xs by auto
  with v1 xs show ?case by (simp add: sbind_def)
qed simp

end

interpretation kv: vector "kv_inv ty" kv_list "krealloc_ok ty" "kv_push ty" "extend_from_slice ty"
  kv_remove for ty
proof unfold_locales
  fix al :: "'a krealloc" and v x r v' ys i
  show "krealloc_ok ty al \<Longrightarrow> kv_inv ty v \<Longrightarrow> kv_push ty al x v = (r, v') \<Longrightarrow>
      r = Inl AllocError \<and> v' = v \<or> r = Inr () \<and> kv_inv ty v' \<and> kv_list v' = kv_list v @ [x]"
    using kv_push_rep [of ty al "kv_list v" v x r v'] by (auto simp: kv_rep_inv)
  show "krealloc_ok ty al \<Longrightarrow> kv_inv ty v \<Longrightarrow> extend_from_slice ty al ys v = (r, v') \<Longrightarrow>
      r = Inl AllocError \<and> v' = v \<or> r = Inr () \<and> kv_inv ty v' \<and> kv_list v' = kv_list v @ ys"
    using extend_rep [of ty al "kv_list v" v ys r v'] by (auto simp: kv_rep_inv)
  show "kv_inv ty v \<Longrightarrow> i < length (kv_list v) \<Longrightarrow>
      \<exists>v'. kv_remove i v = (Inr (kv_list v ! i), v') \<and> kv_inv ty v'
        \<and> kv_list v' = remove_at i (kv_list v)"
    using kv_remove_rep [of ty "kv_list v" v i] by (auto simp: kv_rep_inv)
qed


section \<open>A vector is a list\<close>

datatype 'a vec_cmd =
    Push 'a | Pop | Remove nat | SwapRemove nat | Truncate nat | Clear
  | Reserve nat | Extend "'a list" | Resize nat 'a

datatype 'a vec_out = Done | Popped "'a option" | Removed 'a | Dropped "'a list"

text \<open>A call of one of the methods, and the same call on the abstract list.\<close>

definition op_out :: "('r \<Rightarrow> 'o) \<Rightarrow> ('s, 'e, 'r) op \<Rightarrow> ('s, 'e, 'o) op" where
  "op_out f m = sbind m (\<lambda>r. sret (f r))"

fun kv_do ::
  "elem_ty \<Rightarrow> 'a krealloc \<Rightarrow> 'a vec_cmd \<Rightarrow> ('a kvec, alloc_error, 'a vec_out) op" where
  "kv_do ty kr (Push x) = op_out (\<lambda>_. Done) (kv_push ty kr x)"
| "kv_do ty kr Pop = op_out Popped kv_pop"
| "kv_do ty kr (Remove i) = op_out Removed (kv_remove i)"
| "kv_do ty kr (SwapRemove i) = op_out Removed (kv_swap_remove i)"
| "kv_do ty kr (Truncate n) = op_out Dropped (kv_truncate n)"
| "kv_do ty kr Clear = op_out Dropped kv_clear"
| "kv_do ty kr (Reserve n) = op_out (\<lambda>_. Done) (reserve ty kr n)"
| "kv_do ty kr (Extend xs) = op_out (\<lambda>_. Done) (extend_from_slice ty kr xs)"
| "kv_do ty kr (Resize n x) = op_out (\<lambda>_. Done) (kv_resize ty kr n x)"

fun list_do :: "'a vec_cmd \<Rightarrow> ('a list, alloc_error, 'a vec_out) op" where
  "list_do (Push x) xs = (Inr Done, xs @ [x])"
| "list_do Pop xs = (Inr (Popped (if xs = [] then None else Some (last xs))), butlast xs)"
| "list_do (Remove i) xs =
     (if i < length xs then (Inr (Removed (xs ! i)), remove_at i xs) else (Inl IndexPanic, xs))"
| "list_do (SwapRemove i) xs =
     (if i < length xs then (Inr (Removed (xs ! i)), swap_remove_at i xs) else (Inl IndexPanic, xs))"
| "list_do (Truncate n) xs = (Inr (Dropped (drop n xs)), take n xs)"
| "list_do Clear xs = (Inr (Dropped xs), [])"
| "list_do (Reserve n) xs = (Inr Done, xs)"
| "list_do (Extend ys) xs = (Inr Done, xs @ ys)"
| "list_do (Resize n x) xs =
     (Inr Done, if n \<le> length xs then take n xs else xs @ replicate (n - length xs) x)"

fun may_allocate :: "'a vec_cmd \<Rightarrow> bool" where
  "may_allocate (Push x) = True"
| "may_allocate (Reserve n) = True"
| "may_allocate (Extend xs) = True"
| "may_allocate (Resize n x) = True"
| "may_allocate _ = False"

lemma op_out_Inr: "m s = (Inr r, s') \<Longrightarrow> op_out f m s = (Inr (f r), s')"
  by (simp add: op_out_def sbind_def)

lemma op_out_Inl: "m s = (Inl e, s') \<Longrightarrow> op_out f m s = (Inl e, s')"
  by (simp add: op_out_def sbind_def)

lemma kv_resize_rep:
  assumes "krealloc_ok ty kr" "kv_rep ty xs v" "kv_resize ty kr n x v = (r, v')"
  shows "r = Inl AllocError \<and> v' = v \<or>
    r = Inr () \<and> kv_rep ty (if n \<le> length xs then take n xs
                           else xs @ replicate (n - length xs) x) v'"
proof (cases "n \<le> length xs")
  case True
  then have "n \<le> kv_len v" using assms(2) by (simp add: kv_rep_def)
  with True assms show ?thesis
    using kv_truncate_rep [OF assms(2), of n] by (auto simp: kv_resize_def sbind_def)
next
  case False
  then have len: "\<not> n \<le> kv_len v" "kv_len v = length xs" using assms(2) by (auto simp: kv_rep_def)
  obtain r1 v1 where res: "reserve ty kr (n - length xs) v = (r1, v1)" by fastforce
  from reserve_rep [OF assms(1,2) res]
  consider "r1 = Inl AllocError" "v1 = v"
    | "r1 = Inr ()" "kv_rep ty xs v1" "length xs + (n - length xs) \<le> kv_cap v1"
    by blast
  then show ?thesis
  proof cases
    case 1
    with False len res assms(3) show ?thesis by (simp add: kv_resize_def sthen_def sbind_def)
  next
    case 2
    with False len res assms(3) show ?thesis
      using fill_loop_rep [OF 2(2,3), of x] by (auto simp: kv_resize_def sthen_def sbind_def)
  qed
qed

lemma kv_do_rep:
  assumes ok: "krealloc_ok ty kr" and rep: "kv_rep ty xs v" and run: "kv_do ty kr c v = (r, v')"
  shows "r = Inl AllocError \<and> v' = v \<and> may_allocate c
       \<or> r = fst (list_do c xs) \<and> kv_rep ty (snd (list_do c xs)) v'"
proof (cases c)
  case (Push x)
  obtain r1 v1 where "kv_push ty kr x v = (r1, v1)" by fastforce
  with kv_push_rep [OF ok rep this] Push run show ?thesis by (auto simp: op_out_def sbind_def)
next
  case (Reserve n)
  obtain r1 v1 where "reserve ty kr n v = (r1, v1)" by fastforce
  with reserve_rep [OF ok rep this] Reserve run show ?thesis by (auto simp: op_out_def sbind_def)
next
  case (Extend ys)
  obtain r1 v1 where "extend_from_slice ty kr ys v = (r1, v1)" by fastforce
  with extend_rep [OF ok rep this] Extend run show ?thesis by (auto simp: op_out_def sbind_def)
next
  case (Resize n x)
  obtain r1 v1 where "kv_resize ty kr n x v = (r1, v1)" by fastforce
  with kv_resize_rep [OF ok rep this] Resize run show ?thesis
    by (auto simp: op_out_def sbind_def split: if_splits)
next
  case Pop
  with kv_pop_rep [OF rep] run show ?thesis by (auto simp: op_out_Inr)
next
  case (Remove i)
  have "kv_len v = length xs" using rep by (simp add: kv_rep_def)
  with Remove kv_remove_rep [OF rep, of i] run rep show ?thesis
    by (cases "i < length xs") (auto simp: op_out_Inr op_out_Inl kv_remove_def)
next
  case (SwapRemove i)
  have "kv_len v = length xs" using rep by (simp add: kv_rep_def)
  with SwapRemove kv_swap_remove_rep [OF rep, of i] run rep show ?thesis
    by (cases "i < length xs") (auto simp: op_out_Inr op_out_Inl kv_swap_remove_def)
next
  case (Truncate n)
  with kv_truncate_rep [OF rep, of n] run show ?thesis by (auto simp: op_out_Inr)
next
  case Clear
  with kv_truncate_rep [OF rep, of 0] run show ?thesis by (auto simp: op_out_Inr kv_clear_def)
qed

text \<open>A concrete allocator that always succeeds, and the element type of bytes.\<close>

definition generous :: "nat \<Rightarrow> 'a krealloc" where
  "generous w old sz align = Some (take (sz div w) old @ replicate (sz div w - length old) None)"

definition u8_ty :: elem_ty where
  "u8_ty = \<lparr>size_of = 1, align_of = 1\<rparr>"

definition u64_ty :: elem_ty where
  "u64_ty = \<lparr>size_of = 8, align_of = 8\<rparr>"

lemmas kv_eval =
  op_out_def sthen_def sbind_def extend_from_slice_def reserve_def realloc_to_def kv_new_def
  checked_add_def checked_mul_def usize_max_def isize_max_def array_layout_def
  from_size_align_def kmalloc_realloc_def generous_def u8_ty_def u64_ty_def kv_push_def
  kv_write_end_def slot_write_def kv_remove_def slot_read_def slots_move_def grow_def

lemma generous_ok: "0 < size_of ty \<Longrightarrow> krealloc_ok ty (generous (size_of ty))"
  by (simp add: krealloc_ok_def generous_def)

text \<open>
  C1. Every method of the vector refines the operation on lists of the same
  name: starting from the empty vector and under the documented behaviour of
  \<open>krealloc\<close>, a call keeps the invariant and never touches a dead or
  foreign slot; it either fails with an allocation error and leaves the vector
  as it was, which only the growing methods can do, or returns what the list
  operation returns, an index panic exactly when the index is out of range
  included, and leaves the vector holding that list.
\<close>

theorem kv_refines_list:
  fixes v :: "'a kvec"
  assumes "krealloc_ok ty kr"
  shows "kv_inv ty (kv_new :: 'a kvec) \<and> kv_list (kv_new :: 'a kvec) = [] \<and>
    (kv_inv ty v \<longrightarrow> kv_do ty kr c v = (r, v') \<longrightarrow>
       kv_inv ty v' \<and>
       (r = Inl AllocError \<and> v' = v \<and> may_allocate c
        \<or> (r, kv_list v') = list_do c (kv_list v)))"
proof -
  have "kv_inv ty (kv_new :: 'a kvec) \<and> kv_list (kv_new :: 'a kvec) = []"
    using kv_rep_new [of ty] by (simp add: kv_rep_inv)
  moreover have "kv_inv ty v' \<and> (r = Inl AllocError \<and> v' = v \<and> may_allocate c
        \<or> (r, kv_list v') = list_do c (kv_list v))"
    if "kv_inv ty v" "kv_do ty kr c v = (r, v')"
    using kv_do_rep [OF assms that(1) [unfolded kv_inv_def] that(2)] that(1)
    by (auto simp: kv_rep_inv prod_eq_iff)
  ultimately show ?thesis by blast
qed

theorem kv_refines_list_witness:
  "kv_list (snd (kv_do u64_ty (generous 8) (Remove 1)
     (snd (kv_do u64_ty (generous 8) (Extend [5, 6, 7::nat]) kv_new)))) = [5, 7]"
proof -
  have ok: "krealloc_ok u64_ty (generous 8 :: nat krealloc)"
    using generous_ok [of u64_ty] by (simp add: u64_ty_def)
  let ?v = "snd (kv_do u64_ty (generous 8) (Extend [5, 6, 7::nat]) kv_new)"
  have ext: "kv_do u64_ty (generous 8) (Extend [5, 6, 7::nat]) kv_new = (Inr Done, ?v)"
    by (simp add: kv_eval)
  have rem: "kv_do u64_ty (generous 8) (Remove 1) ?v
      = (Inr (Removed 6), snd (kv_do u64_ty (generous 8) (Remove 1) ?v))"
    by (simp add: kv_eval)
  have "kv_inv u64_ty ?v" "kv_list ?v = [5, 6, 7]"
    using kv_refines_list [OF ok, of kv_new "Extend [5, 6, 7]" "Inr Done" ?v] ext by auto
  then show ?thesis
    using kv_refines_list [OF ok, of ?v "Remove 1"] rem by (auto simp: remove_at_def)
qed


section \<open>Every element is dropped or moved out once\<close>

primrec iter_take :: "nat \<Rightarrow> ('a into_iter, alloc_error, 'a list) op" where
  "iter_take 0 = sret []"
| "iter_take (Suc n) = sbind iter_next (\<lambda>y. case y of None \<Rightarrow> sret []
     | Some x \<Rightarrow> sbind (iter_take n) (\<lambda>xs. sret (x # xs)))"

definition it_rep :: "elem_ty \<Rightarrow> nat \<Rightarrow> 'a list \<Rightarrow> nat \<Rightarrow> 'a into_iter \<Rightarrow> bool" where
  "it_rep ty k xs cap it \<longleftrightarrow>
     kv_ptr (it_vec it) = replicate k None @ map Some (drop k xs) @ replicate (cap - length xs) None \<and>
     it_pos it = k \<and> k \<le> length xs \<and> kv_len (it_vec it) = length xs \<and> length xs \<le> cap \<and>
     kv_cap (it_vec it) = cap \<and> (0 < cap \<longrightarrow> \<not> isl (array_layout ty cap))"

lemma it_rep_start: "kv_rep ty xs v \<Longrightarrow> it_rep ty 0 xs (kv_cap v) (kv_into_iter v)"
  by (auto simp: it_rep_def kv_rep_def kv_into_iter_def)

lemma iter_next_rep:
  assumes "it_rep ty k xs cap it"
  shows "k < length xs \<Longrightarrow> \<exists>it'. iter_next it = (Inr (Some (xs ! k)), it') \<and> it_rep ty (Suc k) xs cap it'"
    and "\<not> k < length xs \<Longrightarrow> iter_next it = (Inr None, it)"
proof -
  assume k: "k < length xs"
  then have "kv_ptr (it_vec it) = replicate k None @ Some (xs ! k) # map Some (drop (Suc k) xs)
      @ replicate (cap - length xs) None"
    using assms by (simp add: it_rep_def drop_nth_Cons)
  with k assms show "\<exists>it'. iter_next it = (Inr (Some (xs ! k)), it') \<and> it_rep ty (Suc k) xs cap it'"
    by (auto simp: iter_next_def slot_read_def it_rep_def nth_append list_update_append
        replicate_app_Cons_same)
qed (use assms in \<open>auto simp: iter_next_def it_rep_def\<close>)

lemma iter_take_rep:
  "it_rep ty k xs cap it \<Longrightarrow>
   \<exists>it'. iter_take n it = (Inr (take n (drop k xs)), it') \<and> it_rep ty (min (k + n) (length xs)) xs cap it'"
proof (induction n arbitrary: k it)
  case 0
  then have "k \<le> length xs" by (simp add: it_rep_def)
  with 0 show ?case by (simp add: min_def)
next
  case (Suc n)
  show ?case
  proof (cases "k < length xs")
    case True
    then obtain it1 where it1: "iter_next it = (Inr (Some (xs ! k)), it1)" "it_rep ty (Suc k) xs cap it1"
      using iter_next_rep(1) [OF Suc.prems] by blast
    with Suc.IH [OF it1(2)] True show ?thesis by (auto simp: sbind_def drop_nth_Cons)
  next
    case False
    then have "k = length xs" using Suc.prems by (simp add: it_rep_def)
    with Suc.prems False show ?thesis
      using iter_next_rep(2) [OF Suc.prems] by (simp add: sbind_def)
  qed
qed

lemma kv_drop_rep:
  assumes "kv_rep ty xs v"
  shows "kv_drop ty v = Inr (xs, if 0 < kv_cap v then Some (replicate (kv_cap v) None) else None)"
proof -
  obtain v' where "kv_truncate 0 v = (Inr xs, v')" "kv_rep ty [] v'"
    using kv_truncate_rep [OF assms, of 0] by auto
  moreover from this have "kv_cap v' = kv_cap v"
    by (auto simp: kv_truncate_def split: if_splits sum.splits)
  ultimately show ?thesis by (auto simp: kv_drop_def kv_clear_def kv_rep_def)
qed

lemma iter_drop_rep:
  assumes "it_rep ty k xs cap it"
  shows "iter_drop ty it = Inr (drop k xs, if 0 < cap then Some (replicate cap None) else None)"
proof -
  let ?v = "(it_vec it)\<lparr>kv_ptr := replicate cap None, kv_len := 0\<rparr>"
  have "kv_rep ty [] ?v" using assms by (auto simp: kv_rep_def it_rep_def)
  then have "kv_drop ty ?v = Inr ([], if 0 < cap then Some (replicate cap None) else None)"
    using kv_drop_rep [of ty "[]" ?v] assms by (simp add: it_rep_def)
  moreover have "drop_slots (length xs - k) k (kv_ptr (it_vec it)) = Inr (drop k xs, replicate cap None)"
    using drop_slots_live [of "replicate k None" k "drop k xs" "replicate (cap - length xs) None"]
      assms by (simp add: it_rep_def replicate_add [symmetric])
  ultimately show ?thesis using assms by (simp add: iter_drop_def it_rep_def)
qed

text \<open>
  No element is leaked or dropped twice.  Dropping a vector drops exactly
  its elements in order and then frees its block, in which no slot is live any
  more.  Turning it into an iterator, consuming any number of elements and
  dropping the iterator moves out the first ones, drops exactly the others and
  frees the same emptied block.
\<close>

theorem kv_drop_once:
  assumes "kv_inv ty v"
  shows "kv_drop ty v = Inr (kv_list v, if 0 < kv_cap v then Some (replicate (kv_cap v) None) else None)
    \<and> (\<exists>it. iter_take n (kv_into_iter v) = (Inr (take n (kv_list v)), it)
         \<and> iter_drop ty it = Inr (drop n (kv_list v),
               if 0 < kv_cap v then Some (replicate (kv_cap v) None) else None))"
proof -
  have rep: "kv_rep ty (kv_list v) v" using assms by (simp add: kv_inv_def)
  obtain it where it: "iter_take n (kv_into_iter v) = (Inr (take n (kv_list v)), it)"
    "it_rep ty (min n (length (kv_list v))) (kv_list v) (kv_cap v) it"
    using iter_take_rep [OF it_rep_start [OF rep], of n] by auto
  have "drop (min n (length (kv_list v))) (kv_list v) = drop n (kv_list v)"
    by (simp add: min_def)
  with it iter_drop_rep [OF it(2)] kv_drop_rep [OF rep] show ?thesis by auto
qed

theorem kv_drop_once_witness:
  "\<exists>it. iter_take 1 (kv_into_iter \<lparr>kv_ptr = [Some 4, Some (9::nat), None], kv_len = 2, kv_cap = 3\<rparr>)
          = (Inr [4], it)
        \<and> iter_drop u64_ty it = Inr ([9], Some [None, None, None])"
proof -
  let ?v = "\<lparr>kv_ptr = [Some 4, Some (9::nat), None], kv_len = 2, kv_cap = 3\<rparr>"
  have "\<not> isl (array_layout u64_ty 3)" by (simp add: kv_eval)
  then have "kv_inv u64_ty ?v"
    by (simp add: kv_inv_def kv_rep_def kv_list_def numeral_2_eq_2 numeral_3_eq_3)
  from kv_drop_once [OF this, of 1] show ?thesis
    by (simp add: kv_list_def numeral_2_eq_2 numeral_3_eq_3)
qed

end
