(* ===== verification/On_Disk.thy ===== *)
theory On_Disk
  imports Rko_Error
begin

text \<open>
  Little-endian integers and zero-copy parsing of on-disk structures,
  \<open>rko-core/src/types/le.rs\<close>.  A Rust byte slice is its address, which
  the alignment checks read, and its bytes.  The fields of a structure are
  read at their offsets in its bytes; the target is little-endian, so
  \<open>from_le\<close> and \<open>to_le\<close> are the identity on the loaded integer.
\<close>

record slice =
  sl_addr :: nat
  sl_bytes :: "byte list"

definition le_new :: "nat \<Rightarrow> nat \<Rightarrow> byte list" where
  "le_new n x = map of_nat (le_digits n x)"

definition le_value :: "byte list \<Rightarrow> nat" where
  "le_value bs = le_val (map unat bs)"

text \<open>The integer field of \<open>n\<close> bytes at an offset of a structure.\<close>

definition field :: "nat \<Rightarrow> nat \<Rightarrow> byte list \<Rightarrow> nat" where
  "field off n bs = le_value (take n (drop off bs))"

definition from_bytes :: "nat \<Rightarrow> nat \<Rightarrow> slice \<Rightarrow> nat \<Rightarrow> byte list option" where
  "from_bytes sz align data offset =
     (case checked_add offset sz of
        None \<Rightarrow> None
      | Some end_ \<Rightarrow>
          if end_ > length (sl_bytes data) then None
          else if (sl_addr data + offset) mod 2 ^ 64 mod align \<noteq> 0 then None
          else Some (take sz (drop offset (sl_bytes data))))"

definition records :: "nat \<Rightarrow> nat \<Rightarrow> byte list \<Rightarrow> byte list list" where
  "records sz cnt bs = map (\<lambda>i. take sz (drop (i * sz) bs)) [0..<cnt]"

definition from_bytes_to_slice :: "nat \<Rightarrow> nat \<Rightarrow> slice \<Rightarrow> byte list list option" where
  "from_bytes_to_slice sz align data =
     (if sz = 0 \<or> length (sl_bytes data) mod sz \<noteq> 0 then None
      else if sl_addr data mod align \<noteq> 0 then None
      else Some (records sz (length (sl_bytes data) div sz) (sl_bytes data)))"


section \<open>Integers\<close>

lemma length_le_new [simp]: "length (le_new n x) = n"
  by (simp add: le_new_def)

lemma unat_of_nat_byte: "d < 256 \<Longrightarrow> unat (of_nat d :: byte) = d"
  by (simp add: unat_of_nat take_bit_eq_mod)

lemma le_value_new [simp]: "le_value (le_new n x) = x mod 256 ^ n"
proof -
  have "map (unat \<circ> (of_nat :: nat \<Rightarrow> byte)) (le_digits n x) = le_digits n x"
    by (rule map_idI) (simp add: unat_of_nat_byte le_digits_byte)
  then show ?thesis by (simp add: le_value_def le_new_def)
qed

lemma unat_byte_less: "unat (b :: byte) < 256"
proof -
  have "unat b < 2 ^ LENGTH(8)" by (rule unsigned_less)
  then show ?thesis by simp
qed

lemma le_value_bound: "le_value bs < 256 ^ length bs"
  using le_val_bound [of "map unat bs"] by (auto simp: le_value_def unat_byte_less)

lemma le_value_Cons [simp]: "le_value (b # bs) = unat b + 256 * le_value bs"
  by (simp add: le_value_def)

lemma le_value_Nil [simp]: "le_value [] = 0"
  by (simp add: le_value_def)

lemma le_new_value [simp]: "le_new (length bs) (le_value bs) = bs"
proof (induction bs)
  case (Cons b bs)
  have "(unat b + 256 * le_value bs) mod 256 = unat b"
    "(unat b + 256 * le_value bs) div 256 = le_value bs"
    using unat_byte_less [of b] by simp_all
  with Cons show ?case by (simp add: le_new_def)
qed (simp add: le_new_def)

lemma field_bound: "field off n bs < 256 ^ n"
proof -
  have "256 ^ length (take n (drop off bs)) \<le> (256 :: nat) ^ n"
    by (rule power_increasing) simp_all
  with le_value_bound [of "take n (drop off bs)"] show ?thesis
    unfolding field_def by (rule less_le_trans)
qed

lemma field_append_right:
  "off = length xs \<Longrightarrow> n = length ys \<Longrightarrow> field off n (xs @ ys @ zs) = le_value ys"
  by (simp add: field_def)


section \<open>Structures\<close>

lemma from_bytes_Some:
  "from_bytes sz align data offset = Some r \<Longrightarrow>
   length r = sz \<and> offset + sz \<le> length (sl_bytes data) \<and> r = take sz (drop offset (sl_bytes data))"
  by (auto simp: from_bytes_def split: option.splits if_splits)

lemma length_records [simp]: "length (records sz cnt bs) = cnt"
  by (simp add: records_def)

lemma nth_records [simp]: "i < cnt \<Longrightarrow> records sz cnt bs ! i = take sz (drop (i * sz) bs)"
  by (simp add: records_def)

lemma records_Suc: "records sz (Suc n) bs = take sz bs # records sz n (drop sz bs)"
  unfolding records_def by (simp add: upt_conv_Cons map_Suc_upt [symmetric] comp_def add.commute
      del: upt_Suc)

lemma concat_records: "length bs = n * sz \<Longrightarrow> concat (records sz n bs) = bs"
proof (induction n arbitrary: bs)
  case (Suc n)
  then show ?case by (simp add: records_Suc)
qed (simp add: records_def)

lemma records_length: "length bs = n * sz \<Longrightarrow> r \<in> set (records sz n bs) \<Longrightarrow> length r = sz"
proof (induction n arbitrary: bs)
  case (Suc n)
  then show ?case using Suc.IH [of "drop sz bs"] by (auto simp: records_Suc)
qed (simp add: records_def)

lemma records_concat:
  "\<forall>r \<in> set rs. length r = sz \<Longrightarrow> records sz (length rs) (concat rs) = rs"
proof (induction rs)
  case (Cons r rs)
  then show ?case by (simp add: records_Suc)
qed (simp add: records_def)

lemma from_bytes_to_slice_Some:
  assumes "from_bytes_to_slice sz align data = Some rs"
  shows "concat rs = sl_bytes data" "\<forall>r \<in> set rs. length r = sz" "0 < sz"
    "length rs * sz = length (sl_bytes data)"
proof -
  from assms have "0 < sz" and dvd: "length (sl_bytes data) mod sz = 0"
    and rs: "rs = records sz (length (sl_bytes data) div sz) (sl_bytes data)"
    by (auto simp: from_bytes_to_slice_def split: if_splits)
  from dvd obtain n where n: "length (sl_bytes data) = n * sz"
    by (metis dvd_def mod_eq_0_iff_dvd mult.commute)
  with rs \<open>0 < sz\<close> have rs: "rs = records sz n (sl_bytes data)" by simp
  show "concat rs = sl_bytes data" using concat_records [OF n] rs by simp
  show "\<forall>r \<in> set rs. length r = sz" using records_length [OF n] rs by simp
  show "0 < sz" by fact
  show "length rs * sz = length (sl_bytes data)" using n rs by simp
qed

text \<open>
  C26. Little-endian values survive the round trip through their bytes at every
  width, and the structures parsed from a slice are exactly its bytes cut into
  pieces: their concatenation is the slice, each has the size of the structure,
  and the structure that \<open>from_bytes\<close> reads at the offset of the i-th one
  is the i-th one.
\<close>

theorem on_disk_roundtrip:
  assumes "from_bytes_to_slice sz align data = Some rs" "i < length rs" "sz mod align = 0"
    "sl_addr data + length (sl_bytes data) < 2 ^ 64"
  shows "le_value (le_new n x) = x mod 256 ^ n \<and> le_new (length bs) (le_value bs) = bs
    \<and> concat rs = sl_bytes data \<and> (\<forall>r \<in> set rs. length r = sz)
    \<and> from_bytes sz align data (i * sz) = Some (rs ! i)"
proof -
  note rs = from_bytes_to_slice_Some [OF assms(1)]
  have "i * sz + sz = Suc i * sz" by simp
  also have "\<dots> \<le> length rs * sz" using assms(2) by (intro mult_le_mono1) simp
  finally have fits: "i * sz + sz \<le> length (sl_bytes data)" using rs(4) by simp
  then have "(sl_addr data + i * sz) mod 2 ^ 64 = sl_addr data + i * sz"
    using assms(4) by simp
  moreover have "(sl_addr data + i * sz) mod align = 0"
    using assms(1,3) by (auto simp: from_bytes_to_slice_def mod_eq_0_iff_dvd split: if_splits)
  moreover have "rs ! i = take sz (drop (i * sz) (sl_bytes data))"
    using assms(1,2) by (auto simp: from_bytes_to_slice_def split: if_splits)
  moreover have "checked_add (i * sz) sz = Some (i * sz + sz)"
    using fits assms(4) by (simp add: usize_max_def)
  ultimately have "from_bytes sz align data (i * sz) = Some (rs ! i)"
    using fits by (simp add: from_bytes_def checked_add_def)
  with rs show ?thesis by simp
qed

theorem on_disk_roundtrip_witness:
  "from_bytes 2 2 \<lparr>sl_addr = 16, sl_bytes = [1, 2, 3, 4]\<rparr> (1 * 2) = Some [3, 4]
   \<and> le_value (le_new 2 1027) = 1027"
proof -
  let ?d = "\<lparr>sl_addr = 16, sl_bytes = [1, 2, 3, 4 :: byte]\<rparr>"
  have "from_bytes_to_slice 2 2 ?d = Some [[1, 2], [3, 4]]"
    by code_simp
  from on_disk_roundtrip [OF this, of 1 2 1027 "[]"] show ?thesis by simp
qed

end
