(* ===== verification/Block_Mapper.thy ===== *)
theory Block_Mapper
  imports On_Disk
begin

text \<open>
  Reading a block device through its page cache,
  \<open>rko-core/src/fs/mapper.rs\<close>: mapped folios, the unbounded
  \<open>Mapper\<close> and the \<open>BoundedMapper\<close> view of a byte range.  The
  page cache (\<open>read_cache_folio\<close> and the mapping of the folio's page)
  is a parameter: it gives for a page index an error pointer, the null
  pointer, or the page, of which the bytes at the positions below
  \<open>PAGE_SIZE\<close> matter.  Offsets are \<open>i64\<close>.
\<close>

definition PAGE_SIZE :: nat where
  "PAGE_SIZE = 4096"

type_synonym page = "nat \<Rightarrow> byte"
type_synonym page_cache = "nat \<Rightarrow> page kptr"

record mapped_folio =
  mf_page :: page
  mf_off :: nat
  mf_len :: nat

text \<open>Pages are mapped at page-aligned addresses.\<close>

definition mf_data :: "mapped_folio \<Rightarrow> slice" where
  "mf_data m = \<lparr>sl_addr = mf_off m, sl_bytes = map (mf_page m) [mf_off m ..< mf_off m + mf_len m]\<rparr>"

definition mf_cap :: "nat \<Rightarrow> mapped_folio \<Rightarrow> mapped_folio" where
  "mf_cap max_len m = (if max_len < mf_len m then m\<lparr>mf_len := max_len\<rparr> else m)"

definition mapped_folio :: "page_cache \<Rightarrow> int \<Rightarrow> error + mapped_folio" where
  "mapped_folio cache offset =
     (if offset < 0 then Inl EINVAL
      else let page_index = nat offset div PAGE_SIZE;
               offset_in_page = nat offset mod PAGE_SIZE
           in case cache page_index of
                ErrPtr n \<Rightarrow> Inl (error_new (wrap_i32 n))
              | NullPtr \<Rightarrow> Inl EIO
              | Ptr page \<Rightarrow>
                  Inr \<lparr>mf_page = page, mf_off = offset_in_page,
                       mf_len = PAGE_SIZE - offset_in_page\<rparr>)"

text \<open>
  A callback over the pages is a closure with captured mutable state; it may
  stop the iteration with a value, fail, or panic.
\<close>

type_synonym ('s, 'u) page_cb = "slice \<Rightarrow> ('s, error fault, 'u option) op"

definition slice_to :: "nat \<Rightarrow> slice \<Rightarrow> slice" where
  "slice_to n sl = sl\<lparr>sl_bytes := take n (sl_bytes sl)\<rparr>"

function pages_loop ::
  "page_cache \<Rightarrow> ('s, 'u) page_cb \<Rightarrow> int \<Rightarrow> int \<Rightarrow> ('s, error fault, 'u option) op" where
  "pages_loop cache cb next remain s =
     (if remain > 0
      then case mapped_folio cache next of
             Inl e \<Rightarrow> (Inl (Fail e), s)
           | Inr mapped \<Rightarrow>
               (let avail = min (mf_len mapped) (nat remain)
                in case cb (slice_to avail (mf_data mapped)) s of
                     (Inl e, s') \<Rightarrow> (Inl e, s')
                   | (Inr (Some u), s') \<Rightarrow> (Inr (Some u), s')
                   | (Inr None, s') \<Rightarrow>
                       pages_loop cache cb (wrap_i64 (next + int avail)) (remain - int avail) s')
      else (Inr None, s))"
  by pat_completeness auto

lemma mapped_folio_len: "mapped_folio cache off = Inr m \<Longrightarrow> 0 < mf_len m \<and> mf_len m \<le> PAGE_SIZE"
  by (auto simp: mapped_folio_def Let_def PAGE_SIZE_def split: if_splits kptr.splits)

termination pages_loop
  by (relation "measure (\<lambda>(cache, cb, next, remain, s). nat remain)")
    (auto dest: mapped_folio_len simp: min_def nat_less_iff)

declare pages_loop.simps [simp del]

definition for_each_page ::
  "page_cache \<Rightarrow> int \<Rightarrow> int \<Rightarrow> ('s, 'u) page_cb \<Rightarrow> ('s, error fault, 'u option) op" where
  "for_each_page cache offset len cb =
     (if len \<le> 0 then sret None else pages_loop cache cb offset len)"

record bounded_mapper =
  bm_cache :: page_cache
  bm_offset :: int
  bm_len :: int

definition bounded :: "page_cache \<Rightarrow> int \<Rightarrow> int \<Rightarrow> bounded_mapper" where
  "bounded cache offset len = \<lparr>bm_cache = cache, bm_offset = offset, bm_len = len\<rparr>"

definition bm_is_empty :: "bounded_mapper \<Rightarrow> bool" where
  "bm_is_empty b \<longleftrightarrow> bm_len b \<le> 0"

text \<open>Returns the prefix and leaves the rest in the mapper it was called on.\<close>

definition split_at :: "int \<Rightarrow> bounded_mapper \<Rightarrow> bounded_mapper \<times> bounded_mapper" where
  "split_at mid0 b =
     (let mid = max (min mid0 (bm_len b)) 0
      in (b\<lparr>bm_len := mid\<rparr>,
          b\<lparr>bm_offset := wrap_i64 (bm_offset b + mid), bm_len := wrap_i64 (bm_len b - mid)\<rparr>))"

definition cap_len :: "int \<Rightarrow> bounded_mapper \<Rightarrow> bounded_mapper" where
  "cap_len max_len b = (if max_len < bm_len b then b\<lparr>bm_len := max max_len 0\<rparr> else b)"

definition bm_mapped_folio :: "bounded_mapper \<Rightarrow> int \<Rightarrow> error + mapped_folio" where
  "bm_mapped_folio b rel_offset =
     (if rel_offset < 0 \<or> rel_offset \<ge> bm_len b then Inl EINVAL
      else rbind (mapped_folio (bm_cache b) (wrap_i64 (bm_offset b + rel_offset)))
             (\<lambda>mapped. Inr (mf_cap (nat (bm_len b - rel_offset)) mapped)))"

definition bm_for_each_page ::
  "bounded_mapper \<Rightarrow> ('s, 'u) page_cb \<Rightarrow> ('s, error fault, 'u option) op" where
  "bm_for_each_page b cb = for_each_page (bm_cache b) (bm_offset b) (bm_len b) cb"


lemma mapped_folio_window:
  "mapped_folio cache (int a) = Inr f \<Longrightarrow>
   mf_len f = PAGE_SIZE - a mod PAGE_SIZE \<and> mf_off f = a mod PAGE_SIZE"
  by (auto simp: mapped_folio_def Let_def split: kptr.splits)

lemma mf_data_length [simp]: "length (sl_bytes (mf_data m)) = mf_len m"
  by (simp add: mf_data_def)


section \<open>The device behind the page cache\<close>

text \<open>
  The page cache serves the contents \<open>dev\<close> of a device of \<open>limit\<close>
  bytes, whole pages, when reading any page of it succeeds and gives its
  contents.
\<close>

definition page_of :: "(nat \<Rightarrow> byte) \<Rightarrow> nat \<Rightarrow> page" where
  "page_of dev i = (\<lambda>j. dev (i * PAGE_SIZE + j))"

definition serves :: "(nat \<Rightarrow> byte) \<Rightarrow> nat \<Rightarrow> page_cache \<Rightarrow> bool" where
  "serves dev limit cache \<longleftrightarrow> limit mod PAGE_SIZE = 0 \<and> limit < 2 ^ 63 \<and>
     (\<forall>i. i * PAGE_SIZE < limit \<longrightarrow>
        (\<exists>p. cache i = Ptr p \<and> (\<forall>j < PAGE_SIZE. p j = page_of dev i j)))"

definition region :: "(nat \<Rightarrow> byte) \<Rightarrow> nat \<Rightarrow> nat \<Rightarrow> slice" where
  "region dev a n = \<lparr>sl_addr = a mod PAGE_SIZE, sl_bytes = map dev [a ..< a + n]\<rparr>"

lemma page_of_window:
  assumes "a mod PAGE_SIZE + n \<le> PAGE_SIZE" "\<forall>j < PAGE_SIZE. p j = page_of dev (a div PAGE_SIZE) j"
  shows "map p [a mod PAGE_SIZE ..< a mod PAGE_SIZE + n] = map dev [a ..< a + n]"
proof (rule nth_equalityI)
  fix i
  assume "i < length (map p [a mod PAGE_SIZE ..< a mod PAGE_SIZE + n])"
  then have i: "i < n" "a mod PAGE_SIZE + i < PAGE_SIZE" using assms(1) by auto
  have "a div PAGE_SIZE * PAGE_SIZE + (a mod PAGE_SIZE + i) = a + i" by simp
  with i assms(2) show "map p [a mod PAGE_SIZE ..< a mod PAGE_SIZE + n] ! i = map dev [a ..< a + n] ! i"
    by (simp add: page_of_def)
qed simp

lemma page_below_limit:
  assumes "a < limit"
  shows "a div PAGE_SIZE * PAGE_SIZE < limit"
  using assms by (meson div_times_less_eq_dividend le_less_trans)

lemma limit_covers_page:
  assumes "limit mod PAGE_SIZE = 0" "a < limit"
  shows "a + (PAGE_SIZE - a mod PAGE_SIZE) \<le> limit"
proof -
  obtain k where k: "limit = k * PAGE_SIZE" using assms(1) by (metis dvd_def mod_eq_0_iff_dvd mult.commute)
  have "a div PAGE_SIZE < k" using assms(2) k by (simp add: less_mult_imp_div_less)
  then have "Suc (a div PAGE_SIZE) * PAGE_SIZE \<le> limit" unfolding k by (intro mult_le_mono1) simp
  moreover have "a = a div PAGE_SIZE * PAGE_SIZE + a mod PAGE_SIZE" by simp
  moreover have "a mod PAGE_SIZE < PAGE_SIZE" by (simp add: PAGE_SIZE_def)
  ultimately show ?thesis unfolding mult_Suc by linarith
qed

lemma mapped_folio_serves:
  assumes "serves dev limit cache" "a < limit"
  shows "\<exists>m. mapped_folio cache (int a) = Inr m \<and> mf_len m = PAGE_SIZE - a mod PAGE_SIZE
           \<and> mf_off m = a mod PAGE_SIZE
           \<and> (\<forall>j < PAGE_SIZE. mf_page m j = page_of dev (a div PAGE_SIZE) j)"
proof -
  obtain p where "cache (a div PAGE_SIZE) = Ptr p" "\<forall>j < PAGE_SIZE. p j = page_of dev (a div PAGE_SIZE) j"
    using assms page_below_limit [of a limit] unfolding serves_def by blast
  then show ?thesis by (simp add: mapped_folio_def Let_def)
qed

lemma mf_data_window:
  assumes "mf_off m = a mod PAGE_SIZE" "\<forall>j < PAGE_SIZE. mf_page m j = page_of dev (a div PAGE_SIZE) j"
    "mf_len m \<le> PAGE_SIZE - a mod PAGE_SIZE"
  shows "mf_data m = region dev a (mf_len m)"
proof -
  have "a mod PAGE_SIZE + mf_len m \<le> PAGE_SIZE"
    using assms(3) mod_less_divisor [of PAGE_SIZE a] by (simp add: PAGE_SIZE_def)
  with assms page_of_window [of a "mf_len m" "mf_page m" dev] show ?thesis
    by (simp add: mf_data_def region_def)
qed

lemma slice_to_region: "n \<le> k \<Longrightarrow> slice_to n (region dev a k) = region dev a n"
  by (simp add: slice_to_def region_def take_map)


section \<open>The contract of a reader of pages\<close>

text \<open>
  Both mappers read a window of the device: at an offset within it they give
  the bytes up to the end of the page or of the window, whichever is first,
  and outside of it they fail.
\<close>

locale page_reader =
  fixes good :: "'m \<Rightarrow> bool"
    and dev :: "nat \<Rightarrow> byte"
    and base :: "'m \<Rightarrow> nat"
    and extent :: "'m \<Rightarrow> nat"
    and folio :: "'m \<Rightarrow> int \<Rightarrow> error + mapped_folio"
  assumes folio_inside:
      "good m \<Longrightarrow> off < extent m \<Longrightarrow>
       \<exists>f. folio m (int off) = Inr f
         \<and> mf_len f = min (PAGE_SIZE - (base m + off) mod PAGE_SIZE) (extent m - off)
         \<and> mf_data f = region dev (base m + off) (mf_len f)"
    and folio_negative: "neg < 0 \<Longrightarrow> folio m neg = Inl EINVAL"
begin

text \<open>A structure that does not straddle a page is read as its bytes on the device.\<close>

lemma read_struct:
  assumes "good m" "off + sz \<le> extent m" "0 < sz"
    and "(base m + off) mod PAGE_SIZE + sz \<le> PAGE_SIZE" "(base m + off) mod PAGE_SIZE mod align = 0"
  shows "\<exists>f. folio m (int off) = Inr f
           \<and> from_bytes sz align (mf_data f) 0 = Some (map dev [base m + off ..< base m + off + sz])"
proof -
  obtain f where f: "folio m (int off) = Inr f"
    "mf_len f = min (PAGE_SIZE - (base m + off) mod PAGE_SIZE) (extent m - off)"
    "mf_data f = region dev (base m + off) (mf_len f)"
    using folio_inside [of m off] assms by auto
  have len: "sz \<le> mf_len f" "sz \<le> PAGE_SIZE" using f(2) assms by auto
  have "(base m + off) mod PAGE_SIZE < 2 ^ 64" by (simp add: PAGE_SIZE_def)
  moreover have "sz \<le> usize_max" using len(2) by (simp add: PAGE_SIZE_def usize_max_def)
  ultimately have "from_bytes sz align (mf_data f) 0
      = Some (map dev [base m + off ..< base m + off + sz])"
    using f(3) len assms(5) by (simp add: from_bytes_def checked_add_def region_def take_map)
  with f(1) show ?thesis by blast
qed

lemma folio_bytes_inside:
  assumes "good m" "folio m (int off) = Inr f" "off < extent m"
  shows "off + length (sl_bytes (mf_data f)) \<le> extent m"
    and "sl_bytes (mf_data f) = map dev [base m + off ..< base m + off + length (sl_bytes (mf_data f))]"
  using folio_inside [OF assms(1,3)] assms by (auto simp: region_def)

end

interpretation mp: page_reader "serves dev limit" dev "\<lambda>_. 0" "\<lambda>_. limit" mapped_folio
  for dev limit
proof unfold_locales
  fix m off
  assume good: "serves dev limit m" and off: "off < limit"
  obtain f where f: "mapped_folio m (int off) = Inr f" "mf_len f = PAGE_SIZE - off mod PAGE_SIZE"
    "mf_off f = off mod PAGE_SIZE" "\<forall>j < PAGE_SIZE. mf_page f j = page_of dev (off div PAGE_SIZE) j"
    using mapped_folio_serves [OF good off] by blast
  have "off + (PAGE_SIZE - off mod PAGE_SIZE) \<le> limit"
    using good off limit_covers_page by (simp add: serves_def)
  with f show "\<exists>f. mapped_folio m (int off) = Inr f
         \<and> mf_len f = min (PAGE_SIZE - (0 + off) mod PAGE_SIZE) (limit - off)
         \<and> mf_data f = region dev (0 + off) (mf_len f)"
    using mf_data_window [of f off dev] by auto
qed (simp add: mapped_folio_def)

text \<open>A bounded view whose range lies on the device.\<close>

definition bm_good :: "(nat \<Rightarrow> byte) \<Rightarrow> nat \<Rightarrow> bounded_mapper \<Rightarrow> bool" where
  "bm_good dev limit b \<longleftrightarrow> serves dev limit (bm_cache b) \<and> 0 \<le> bm_offset b \<and> 0 \<le> bm_len b
     \<and> bm_offset b + bm_len b \<le> int limit"

interpretation bm: page_reader "bm_good dev limit" dev "\<lambda>b. nat (bm_offset b)" "\<lambda>b. nat (bm_len b)"
  bm_mapped_folio
  for dev limit
proof unfold_locales
  fix b off
  assume good: "bm_good dev limit b" and off: "off < nat (bm_len b)"
  let ?a = "nat (bm_offset b) + off"
  have a: "?a < limit" "wrap_i64 (bm_offset b + int off) = int ?a"
    using good off by (auto simp: bm_good_def serves_def in_i64_def)
  obtain f where f: "mapped_folio (bm_cache b) (int ?a) = Inr f"
    "mf_len f = PAGE_SIZE - ?a mod PAGE_SIZE" "mf_off f = ?a mod PAGE_SIZE"
    "\<forall>j < PAGE_SIZE. mf_page f j = page_of dev (?a div PAGE_SIZE) j"
    using mapped_folio_serves [of dev limit "bm_cache b" ?a] good a by (auto simp: bm_good_def)
  let ?f = "mf_cap (nat (bm_len b - int off)) f"
  have "nat (bm_len b - int off) = nat (bm_len b) - off" by simp
  then have "mf_len ?f = min (PAGE_SIZE - ?a mod PAGE_SIZE) (nat (bm_len b) - off)"
    using f(2) by (simp add: mf_cap_def)
  moreover have "mf_data ?f = region dev ?a (mf_len ?f)"
    using f by (intro mf_data_window) (auto simp: mf_cap_def)
  moreover have "bm_mapped_folio b (int off) = Inr ?f"
    using off a f by (simp add: bm_mapped_folio_def)
  ultimately show "\<exists>f. bm_mapped_folio b (int off) = Inr f
         \<and> mf_len f = min (PAGE_SIZE - ?a mod PAGE_SIZE) (nat (bm_len b) - off)
         \<and> mf_data f = region dev ?a (mf_len f)"
    by blast
qed (simp add: bm_mapped_folio_def)


section \<open>Iterating over the pages of a range\<close>

text \<open>
  The reference: the range cut at page boundaries, as pairs of a start and a
  length, and a left-to-right visit of the pieces.
\<close>

function page_chunks :: "nat \<Rightarrow> nat \<Rightarrow> (nat \<times> nat) list" where
  "page_chunks off len =
     (if len = 0 then []
      else let n = min (PAGE_SIZE - off mod PAGE_SIZE) len
           in (off, n) # page_chunks (off + n) (len - n))"
  by pat_completeness auto
termination
  by (relation "measure snd") (auto simp: PAGE_SIZE_def)

declare page_chunks.simps [simp del]

primrec visit :: "('s, 'u) page_cb \<Rightarrow> slice list \<Rightarrow> ('s, error fault, 'u option) op" where
  "visit cb [] = sret None"
| "visit cb (c # cs) = sbind (cb c) (\<lambda>r. case r of Some u \<Rightarrow> sret (Some u) | None \<Rightarrow> visit cb cs)"

definition chunk_slices :: "(nat \<Rightarrow> byte) \<Rightarrow> nat \<Rightarrow> nat \<Rightarrow> slice list" where
  "chunk_slices dev off len = map (\<lambda>(a, n). region dev a n) (page_chunks off len)"

lemma page_room: "0 < PAGE_SIZE - a mod PAGE_SIZE"
  by (simp add: PAGE_SIZE_def)

lemma chunk_slices_0 [simp]: "chunk_slices dev off 0 = []"
  by (simp add: chunk_slices_def page_chunks.simps)

lemma chunk_slices_step:
  "0 < len \<Longrightarrow> chunk_slices dev off len =
     region dev off (min (PAGE_SIZE - off mod PAGE_SIZE) len)
     # chunk_slices dev (off + min (PAGE_SIZE - off mod PAGE_SIZE) len)
         (len - min (PAGE_SIZE - off mod PAGE_SIZE) len)"
  unfolding chunk_slices_def by (subst page_chunks.simps) (simp add: Let_def)

lemma chunk_slices_bytes: "concat (map sl_bytes (chunk_slices dev off len)) = map dev [off ..< off + len]"
proof (induction off len rule: page_chunks.induct)
  case (1 off len)
  show ?case
  proof (cases "len = 0")
    case False
    let ?n = "min (PAGE_SIZE - off mod PAGE_SIZE) len"
    note step = chunk_slices_step [of len dev off]
    have "off + ?n \<le> off + len" by simp
    then have "[off ..< off + len] = [off ..< off + ?n] @ [off + ?n ..< off + len]"
      by (metis le_add1 upt_add_eq_append le_add_diff_inverse)
    with 1 [of ?n] False step show ?thesis by (simp add: region_def)
  qed simp
qed

lemma chunk_slices_one_page:
  "sl \<in> set (chunk_slices dev off len) \<Longrightarrow>
   0 < length (sl_bytes sl) \<and> sl_addr sl + length (sl_bytes sl) \<le> PAGE_SIZE"
proof (induction off len rule: page_chunks.induct)
  case (1 off len)
  then have "len \<noteq> 0" by (intro notI) simp
  with 1 show ?case using chunk_slices_step [of len dev off] page_room [of off]
    by (auto simp: region_def)
qed

lemma pages_loop_visits:
  assumes "serves dev limit cache" "off + len \<le> limit"
  shows "pages_loop cache cb (int off) (int len) s = visit cb (chunk_slices dev off len) s"
  using assms(2)
proof (induction off len arbitrary: s rule: page_chunks.induct)
  case (1 off len)
  show ?case
  proof (cases "len = 0")
    case True
    then show ?thesis by (simp add: pages_loop.simps)
  next
    case False
    define n where "n = min (PAGE_SIZE - off mod PAGE_SIZE) len"
    have n: "n \<le> len" "n \<le> PAGE_SIZE - off mod PAGE_SIZE" by (simp_all add: n_def)
    have step: "chunk_slices dev off len = region dev off n # chunk_slices dev (off + n) (len - n)"
      using chunk_slices_step [of len dev off] False by (simp add: n_def)
    have off: "off < limit" using False 1 by simp
    obtain f where f: "mapped_folio cache (int off) = Inr f"
      "mf_len f = PAGE_SIZE - off mod PAGE_SIZE" "mf_data f = region dev off (mf_len f)"
      using mapped_folio_serves [OF assms(1) off] mf_data_window [of _ off dev] by fastforce
    have "wrap_i64 (int off + int n) = int (off + n)" "int len - int n = int (len - n)"
      using 1 assms(1) n(1) by (auto simp: in_i64_def serves_def)
    moreover have "pages_loop cache cb (int (off + n)) (int (len - n)) s'
        = visit cb (chunk_slices dev (off + n) (len - n)) s'" for s'
      using 1 False n_def by (intro "1.IH") auto
    moreover have "slice_to n (mf_data f) = region dev off n"
      using f n(2) by (simp add: slice_to_region)
    moreover have "min (mf_len f) (nat (int len)) = n" by (simp add: f n_def)
    ultimately show ?thesis using f(1) False step
      by (subst pages_loop.simps)
        (auto simp: sbind_def split: prod.splits sum.splits option.splits)
  qed
qed

lemma for_each_page_visit:
  assumes "serves dev limit cache" "off + len \<le> limit"
  shows "for_each_page cache (int off) (int len) cb s = visit cb (chunk_slices dev off len) s"
  using pages_loop_visits [OF assms, of cb s] by (auto simp: for_each_page_def)

text \<open>
  C12. On a device the page cache serves, iterating over a byte range calls the
  callback on the range cut at page boundaries, in order, and stops at the
  first value, error or panic: it never reads outside the range, every slice
  it passes is non-empty and lies in one page, and together they are exactly
  the bytes of the range.
\<close>

theorem for_each_page_visits:
  assumes "serves dev limit cache" "off + len \<le> limit"
  shows "for_each_page cache (int off) (int len) cb s = visit cb (chunk_slices dev off len) s
    \<and> concat (map sl_bytes (chunk_slices dev off len)) = map dev [off ..< off + len]
    \<and> (\<forall>sl \<in> set (chunk_slices dev off len).
         0 < length (sl_bytes sl) \<and> sl_addr sl + length (sl_bytes sl) \<le> PAGE_SIZE)"
  using for_each_page_visit [OF assms, of cb s] chunk_slices_bytes [of dev off len]
    chunk_slices_one_page [of _ dev off len]
  by auto

text \<open>A two-page device whose byte at position \<open>i\<close> is \<open>i mod 256\<close>.\<close>

definition demo_dev :: "nat \<Rightarrow> byte" where
  "demo_dev i = of_nat i"

definition demo_cache :: page_cache where
  "demo_cache i = (if i < 2 then Ptr (page_of demo_dev i) else ErrPtr (- 5))"

lemma demo_serves: "serves demo_dev 8192 demo_cache"
  by (simp add: serves_def demo_cache_def PAGE_SIZE_def)

theorem for_each_page_visits_witness:
  "for_each_page demo_cache (int 4095) (int 2) (\<lambda>sl. \<lambda>n. (Inr (None :: unit option), n + length (sl_bytes sl))) 0
     = (Inr None, 2)"
  using for_each_page_visits [OF demo_serves, of 4095 2
      "\<lambda>sl. \<lambda>n. (Inr (None :: unit option), n + length (sl_bytes sl))" 0]
  by (simp add: chunk_slices_step PAGE_SIZE_def region_def sbind_def)

lemma split_at_good:
  assumes "bm_good dev limit b" "split_at mid b = (pre, rest)"
  shows "bm_good dev limit pre \<and> bm_good dev limit rest \<and> bm_offset pre = bm_offset b
         \<and> bm_offset rest = bm_offset pre + bm_len pre \<and> bm_len pre + bm_len rest = bm_len b"
proof -
  define m where "m = max (min mid (bm_len b)) 0"
  have m: "0 \<le> m" "m \<le> bm_len b" using assms(1) by (auto simp: m_def bm_good_def)
  with assms(1) have "in_i64 (bm_offset b + m)" "in_i64 (bm_len b - m)"
    by (auto simp: bm_good_def serves_def in_i64_def)
  then have "pre = b\<lparr>bm_len := m\<rparr>" "rest = b\<lparr>bm_offset := bm_offset b + m, bm_len := bm_len b - m\<rparr>"
    using assms(2) by (simp_all add: split_at_def m_def [symmetric])
  with assms(1) m show ?thesis by (simp add: bm_good_def)
qed

lemma bm_folio_confined:
  assumes "bm_good dev limit b" "0 \<le> rel" "rel < bm_len b"
  shows "\<exists>f n. bm_mapped_folio b rel = Inr f \<and> 0 < n \<and> rel + int n \<le> bm_len b
      \<and> sl_bytes (mf_data f) = map dev [nat (bm_offset b + rel) ..< nat (bm_offset b + rel) + n]"
proof -
  define k where "k = nat rel"
  have k: "rel = int k" "k < nat (bm_len b)" using assms(2,3) by (simp_all add: k_def)
  let ?a = "nat (bm_offset b) + k"
  obtain f where f: "bm_mapped_folio b (int k) = Inr f"
    and len: "mf_len f = min (PAGE_SIZE - ?a mod PAGE_SIZE) (nat (bm_len b) - k)"
    and data: "mf_data f = region dev ?a (mf_len f)"
    using bm.folio_inside [OF assms(1) k(2)] by blast
  have "0 < mf_len f" unfolding len using k page_room [of ?a] by simp
  moreover have "mf_len f \<le> nat (bm_len b) - k" by (simp add: len)
  then have "rel + int (mf_len f) \<le> bm_len b" using k by linarith
  moreover have "nat (bm_offset b + rel) = ?a" using assms(1) k by (simp add: bm_good_def nat_add_distrib)
  moreover have "sl_bytes (mf_data f) = map dev [?a ..< ?a + mf_len f]"
    unfolding data by (simp add: region_def)
  ultimately show ?thesis using f k(1) by auto
qed

text \<open>
  A bounded view stays within its bounds: reading at an offset outside
  of it fails, and reading inside gives bytes of the device at that place that
  end no later than the view does.  Splitting it yields two views that cover
  it, the one up to the other, capping never extends it, and both keep the
  view on the device.
\<close>

theorem bounded_mapper_confined:
  assumes "bm_good dev limit b"
  shows "(rel < 0 \<or> bm_len b \<le> rel \<longrightarrow> bm_mapped_folio b rel = Inl EINVAL)
    \<and> (0 \<le> rel \<and> rel < bm_len b \<longrightarrow>
         (\<exists>f n. bm_mapped_folio b rel = Inr f \<and> 0 < n \<and> rel + int n \<le> bm_len b
            \<and> sl_bytes (mf_data f) = map dev [nat (bm_offset b + rel) ..< nat (bm_offset b + rel) + n]))
    \<and> (\<forall>pre rest. split_at mid b = (pre, rest) \<longrightarrow>
         bm_good dev limit pre \<and> bm_good dev limit rest \<and> bm_offset pre = bm_offset b
         \<and> bm_offset rest = bm_offset pre + bm_len pre \<and> bm_len pre + bm_len rest = bm_len b)
    \<and> bm_good dev limit (cap_len mx b) \<and> bm_len (cap_len mx b) \<le> bm_len b"
proof (intro conjI impI)
  assume "0 \<le> rel \<and> rel < bm_len b"
  then show "\<exists>f n. bm_mapped_folio b rel = Inr f \<and> 0 < n \<and> rel + int n \<le> bm_len b
      \<and> sl_bytes (mf_data f) = map dev [nat (bm_offset b + rel) ..< nat (bm_offset b + rel) + n]"
    using bm_folio_confined [OF assms] by blast
next
  show "\<forall>pre rest. split_at mid b = (pre, rest) \<longrightarrow>
         bm_good dev limit pre \<and> bm_good dev limit rest \<and> bm_offset pre = bm_offset b
         \<and> bm_offset rest = bm_offset pre + bm_len pre \<and> bm_len pre + bm_len rest = bm_len b"
    using split_at_good [OF assms] by blast
qed (use assms in \<open>auto simp: bm_mapped_folio_def cap_len_def bm_good_def\<close>)

theorem bounded_mapper_confined_witness:
  "\<exists>f n. bm_mapped_folio (bounded demo_cache 4090 10) 4 = Inr f \<and> 0 < n \<and> 4 + int n \<le> 10
     \<and> sl_bytes (mf_data f) = map demo_dev [4094 ..< 4094 + n]"
proof -
  have "bm_good demo_dev 8192 (bounded demo_cache 4090 10)"
    using demo_serves by (simp add: bm_good_def bounded_def)
  from bounded_mapper_confined [OF this, of 4] show ?thesis by (simp add: bounded_def)
qed

text \<open>
  When the page cache returns an error pointer, the error the mapper
  reports carries the code with its sign flipped: \<open>Error::new\<close> negates a
  code that is already negative, so the caller sees a positive code, which no
  C caller takes for a failure.
\<close>

theorem mapped_folio_error_positive:
  assumes "0 \<le> off" "cache (nat off div PAGE_SIZE) = ErrPtr n" "kernel_errno n"
  shows "\<exists>e. mapped_folio cache off = Inl e \<and> to_errno e = - n \<and> to_errno e > 0
           \<and> from_result (Inl e) > 0"
  using assms error_new_of_negative [of n]
  by (auto simp: mapped_folio_def Let_def from_result_def)

theorem mapped_folio_error_positive_witness:
  "\<exists>e. mapped_folio demo_cache 8192 = Inl e \<and> to_errno e = 5"
  using mapped_folio_error_positive [of 8192 demo_cache "- 5"]
  by (auto simp: demo_cache_def PAGE_SIZE_def kernel_errno_def)

end
