(* ===== verification/Vfs_Model.thy ===== *)
theory Vfs_Model
  imports Block_Mapper
begin

unbundle bit_operations_syntax

text \<open>
  The inode and directory side of the VFS layer, from \<open>rko-core/src/fs\<close>:
  inode types, the parameters of a new inode and its initialisation
  (\<open>inode.rs\<close>), lookup of inodes in the inode cache (\<open>sb.rs\<close>),
  directory entry types and the directory emitter (\<open>dir.rs\<close>), binding a
  dentry (\<open>dentry.rs\<close>), mappings (\<open>iomap.rs\<close>) and writing a
  locked folio (\<open>folio.rs\<close>).  Kernel functions are parameters.
\<close>

section \<open>Inodes\<close>

definition S_IFDIR :: nat where "S_IFDIR = 0x4000"
definition S_IFREG :: nat where "S_IFREG = 0x8000"
definition S_IFLNK :: nat where "S_IFLNK = 0xA000"
definition S_IFCHR :: nat where "S_IFCHR = 0x2000"
definition S_IFBLK :: nat where "S_IFBLK = 0x6000"
definition S_IFIFO :: nat where "S_IFIFO = 0x1000"
definition S_IFSOCK :: nat where "S_IFSOCK = 0xC000"

lemmas S_IF_defs = S_IFDIR_def S_IFREG_def S_IFLNK_def S_IFCHR_def S_IFBLK_def S_IFIFO_def
  S_IFSOCK_def

datatype inode_type =
    IDir | IReg | ILnk "byte list option" | IChr nat nat | IBlk nat nat | IFifo | ISock

record time =
  secs :: nat
  nsecs :: nat

record 'd inode_params =
  ip_mode :: nat
  ip_typ :: inode_type
  ip_size :: int
  ip_blocks :: nat
  ip_nlink :: nat
  ip_uid :: nat
  ip_gid :: nat
  ip_ctime :: time
  ip_mtime :: time
  ip_atime :: time
  ip_value :: 'd

datatype inode_ops = DirInodeOps | RegInodeOps | SimpleSymlinkOps | PageSymlinkOps | SymlinkInodeOps
datatype file_ops = DirFileOps | RegFileOps
datatype aops = RegAops | IomapAops

text \<open>A new inode with the operation tables set on it so far.\<close>

record new_inode =
  custom_iops :: "inode_ops option"
  custom_fops :: "file_ops option"
  custom_aops :: "aops option"

definition new_inode_new :: new_inode where
  "new_inode_new = \<lparr>custom_iops = None, custom_fops = None, custom_aops = None\<rparr>"

definition set_iops :: "inode_ops \<Rightarrow> new_inode \<Rightarrow> new_inode" where
  "set_iops ops n = n\<lparr>custom_iops := Some ops\<rparr>"

definition set_fops :: "file_ops \<Rightarrow> new_inode \<Rightarrow> new_inode" where
  "set_fops ops n = n\<lparr>custom_fops := Some ops\<rparr>"

definition set_aops :: "aops \<Rightarrow> new_inode \<Rightarrow> new_inode" where
  "set_aops ops n = n\<lparr>custom_aops := Some ops\<rparr>"

text \<open>
  The fields of the kernel inode that initialisation writes.  For special
  files \<open>i_special\<close> records the call of \<open>init_special_inode\<close> with
  its mode and device number.
\<close>

record 'd inode =
  i_mode :: nat
  i_size :: int
  i_blocks :: nat
  i_atime :: time
  i_mtime :: time
  i_ctime :: time
  i_nlink :: nat
  i_uid :: nat
  i_gid :: nat
  i_op :: "inode_ops option"
  i_fop :: "file_ops option"
  i_aops :: "aops option"
  i_large_folios :: bool
  i_link :: "byte list option"
  i_special :: "(nat \<times> nat \<times> nat) option"
  i_data :: 'd

definition MINORMASK :: nat where
  "MINORMASK = 2 ^ 20 - 1"

definition type_bits :: "inode_type \<Rightarrow> nat" where
  "type_bits t = (case t of IDir \<Rightarrow> S_IFDIR | IReg \<Rightarrow> S_IFREG | ILnk _ \<Rightarrow> S_IFLNK
     | IChr _ _ \<Rightarrow> S_IFCHR | IBlk _ _ \<Rightarrow> S_IFBLK | IFifo \<Rightarrow> S_IFIFO | ISock \<Rightarrow> S_IFSOCK)"

definition inode_init :: "new_inode \<Rightarrow> 'd inode_params \<Rightarrow> 'd inode" where
  "inode_init n p =
     (let node = \<lparr>i_mode = (ip_mode p AND 0x1FF) OR type_bits (ip_typ p),
                  i_size = ip_size p, i_blocks = ip_blocks p,
                  i_atime = ip_atime p, i_mtime = ip_mtime p, i_ctime = ip_ctime p,
                  i_nlink = ip_nlink p, i_uid = ip_uid p, i_gid = ip_gid p,
                  i_op = None, i_fop = None, i_aops = None, i_large_folios = False,
                  i_link = None, i_special = None, i_data = ip_value p\<rparr>
      in case ip_typ p of
           IDir \<Rightarrow> node\<lparr>i_op := Some (unwrap_or (custom_iops n) DirInodeOps),
                       i_fop := Some (unwrap_or (custom_fops n) DirFileOps)\<rparr>
         | IReg \<Rightarrow> node\<lparr>i_op := Some (unwrap_or (custom_iops n) RegInodeOps),
                       i_fop := Some (unwrap_or (custom_fops n) RegFileOps),
                       i_aops := Some (unwrap_or (custom_aops n) RegAops),
                       i_large_folios := True\<rparr>
         | ILnk target \<Rightarrow>
             node\<lparr>i_op := Some (unwrap_or (custom_iops n)
                            (if target \<noteq> None then SimpleSymlinkOps else PageSymlinkOps)),
                  i_link := target\<rparr>
         | IChr major minor \<Rightarrow> node\<lparr>i_special := Some (S_IFCHR, major, minor AND MINORMASK)\<rparr>
         | IBlk major minor \<Rightarrow> node\<lparr>i_special := Some (S_IFBLK, major, minor AND MINORMASK)\<rparr>
         | IFifo \<Rightarrow> node\<lparr>i_special := Some (S_IFIFO, 0, 0)\<rparr>
         | ISock \<Rightarrow> node\<lparr>i_special := Some (S_IFSOCK, 0, 0)\<rparr>)"

text \<open>
  The outcome of \<open>iget_locked\<close>: no memory, an inode just allocated, or
  one that is already initialised.
\<close>

datatype 'd iget_locked = IgetNull | IgetNew | IgetCached "'d inode"

definition sb_iget :: "'d iget_locked \<Rightarrow> error + (new_inode + 'd inode)" where
  "sb_iget r = (case r of IgetNull \<Rightarrow> Inl ENOMEM
     | IgetNew \<Rightarrow> Inr (Inl new_inode_new)
     | IgetCached node \<Rightarrow> Inr (Inr node))"


section \<open>Directories\<close>

datatype dir_entry_type =
    DtUnknown | DtFifo | DtChr | DtDir | DtBlk | DtReg | DtLnk | DtSock | DtWht

fun dt_code :: "dir_entry_type \<Rightarrow> nat" where
  "dt_code DtUnknown = 0"
| "dt_code DtFifo = 1"
| "dt_code DtChr = 2"
| "dt_code DtDir = 4"
| "dt_code DtBlk = 6"
| "dt_code DtReg = 8"
| "dt_code DtLnk = 10"
| "dt_code DtSock = 12"
| "dt_code DtWht = 14"

definition dt_from_u32 :: "nat \<Rightarrow> dir_entry_type option" where
  "dt_from_u32 v =
     (if v = 0 then Some DtUnknown else if v = 1 then Some DtFifo
      else if v = 2 then Some DtChr else if v = 4 then Some DtDir
      else if v = 6 then Some DtBlk else if v = 8 then Some DtReg
      else if v = 10 then Some DtLnk else if v = 12 then Some DtSock
      else if v = 14 then Some DtWht else None)"

definition dt_try_from :: "nat \<Rightarrow> error + dir_entry_type" where
  "dt_try_from v = of_option EDOM (dt_from_u32 v)"

definition dt_of_inode :: "inode_type \<Rightarrow> dir_entry_type" where
  "dt_of_inode t = (case t of IDir \<Rightarrow> DtDir | IReg \<Rightarrow> DtReg | ILnk _ \<Rightarrow> DtLnk
     | IChr _ _ \<Rightarrow> DtChr | IBlk _ _ \<Rightarrow> DtBlk | IFifo \<Rightarrow> DtFifo | ISock \<Rightarrow> DtSock)"

datatype whence = SeekStart | SeekCurrent | SeekEnd | SeekData | SeekHole

definition whence_from_raw :: "int \<Rightarrow> whence option" where
  "whence_from_raw v =
     (if v = 0 then Some SeekStart else if v = 1 then Some SeekCurrent
      else if v = 2 then Some SeekEnd else if v = 3 then Some SeekData
      else if v = 4 then Some SeekHole else None)"

type_synonym dirent = "byte list \<times> nat \<times> dir_entry_type"

text \<open>
  The directory context: the position, and the entries the reader has
  accepted.  Whether \<open>dir_emit\<close> accepts an entry depends on the room left
  in the reader's buffer, a parameter.
\<close>

record emitter =
  em_pos :: int
  em_out :: "dirent list"

type_synonym dir_emit = "dirent list \<Rightarrow> dirent \<Rightarrow> bool"

definition emit :: "dir_emit \<Rightarrow> int \<Rightarrow> dirent \<Rightarrow> emitter \<Rightarrow> bool \<times> emitter" where
  "emit accepts pos_inc ent em =
     (if accepts (em_out em) ent
      then (True, em\<lparr>em_pos := wrap_i64 (em_pos em + pos_inc), em_out := em_out em @ [ent]\<rparr>)
      else (False, em))"

text \<open>
  Binding a dentry: the super-blocks of the dentry and of the inode, and the
  address that \<open>d_splice_alias\<close> returned.
\<close>

definition splice_alias :: "nat \<Rightarrow> nat option \<Rightarrow> nat \<Rightarrow> error + nat option" where
  "splice_alias dentry_sb inode_sb result =
     (if inode_sb \<noteq> None \<and> inode_sb \<noteq> Some dentry_sb then Inl EINVAL
      else if result = 0 then Inr None
      else if result \<ge> 2 ^ 63 then Inl (error_new (wrap_i32 (int result)))
      else Inr (Some result))"

definition root_try_new :: "nat \<Rightarrow> error + nat" where
  "root_try_new dentry = (if dentry = 0 then Inl ENOMEM else Inr dentry)"


section \<open>Mappings and folios\<close>

datatype map_type = Hole | DelAlloc | Mapped | Unwritten | Inline

record iomap =
  im_offset :: int
  im_length :: nat
  im_flags :: nat
  im_type :: map_type
  im_addr :: nat
  im_bdev :: bool

definition MERGED :: nat where
  "MERGED = 8"

text \<open>The setters a file system fills in a mapping with; they chain.\<close>

definition set_type :: "map_type \<Rightarrow> iomap \<Rightarrow> iomap" where
  "set_type t m = m\<lparr>im_type := t\<rparr>"

definition set_offset :: "int \<Rightarrow> iomap \<Rightarrow> iomap" where
  "set_offset v m = m\<lparr>im_offset := v\<rparr>"

definition set_length :: "nat \<Rightarrow> iomap \<Rightarrow> iomap" where
  "set_length len m = m\<lparr>im_length := len\<rparr>"

definition set_flags :: "nat \<Rightarrow> iomap \<Rightarrow> iomap" where
  "set_flags flags m = m\<lparr>im_flags := flags\<rparr>"

definition set_addr :: "nat \<Rightarrow> iomap \<Rightarrow> iomap" where
  "set_addr addr m = m\<lparr>im_addr := addr\<rparr>"

definition set_bdev :: "iomap \<Rightarrow> iomap" where
  "set_bdev m = m\<lparr>im_bdev := True\<rparr>"

lemmas iomap_setters = set_type_def set_offset_def set_length_def set_flags_def set_addr_def
  set_bdev_def

text \<open>
  Writing a locked folio page by page.  The callback gets the bytes of the
  piece and its own state and returns the new bytes.
\<close>

function folio_loop ::
  "(byte list \<Rightarrow> 'c \<Rightarrow> byte list \<times> 'c) \<Rightarrow> nat \<Rightarrow> nat \<Rightarrow> byte list \<Rightarrow> 'c \<Rightarrow> byte list" where
  "folio_loop cb next_offset remaining folio c =
     (if remaining > 0
      then let page_offset = next_offset mod PAGE_SIZE;
               usable = min remaining (PAGE_SIZE - page_offset);
               (s, c') = cb (take usable (drop next_offset folio)) c
           in folio_loop cb (next_offset + usable) (remaining - usable)
                (take next_offset folio @ s @ drop (next_offset + usable) folio) c'
      else folio)"
  by pat_completeness auto
termination
  by (relation "measure (\<lambda>(cb, off, n, f, c). n)") (auto simp: PAGE_SIZE_def)

declare folio_loop.simps [simp del]

definition folio_for_each_page ::
  "(byte list \<Rightarrow> 'c \<Rightarrow> byte list \<times> 'c) \<Rightarrow> nat \<Rightarrow> nat \<Rightarrow> 'c \<Rightarrow> byte list \<Rightarrow> error + byte list" where
  "folio_for_each_page cb offset len c folio =
     (case checked_add offset len of
        None \<Rightarrow> Inl ERANGE
      | Some end_ \<Rightarrow> if end_ > length folio then Inl EINVAL
                      else Inr (folio_loop cb offset len folio c))"

definition folio_write :: "nat \<Rightarrow> byte list \<Rightarrow> byte list \<Rightarrow> error + byte list" where
  "folio_write offset data folio =
     folio_for_each_page (\<lambda>s remaining. (take (length s) remaining, drop (length s) remaining))
       offset (length data) data folio"

definition zero_out :: "nat \<Rightarrow> nat \<Rightarrow> byte list \<Rightarrow> error + byte list" where
  "zero_out offset len folio =
     folio_for_each_page (\<lambda>s u. (replicate (length s) 0, u)) offset len () folio"


section \<open>Lemmas\<close>

lemma and_or_nat: "((x :: nat) OR y) AND z = (x AND z) OR (y AND z)"
  by (rule bit_eqI) (auto simp: bit_simps)

lemma type_bits_masks: "type_bits t AND 0xF000 = type_bits t" "type_bits t AND 0x1FF = 0"
  by (cases t; simp add: type_bits_def S_IF_defs)+

lemma perm_masks: "(m AND 0x1FF) AND 0xF000 = (0 :: nat)" "(m AND 0x1FF) AND 0x1FF = m AND (0x1FF :: nat)"
  by (simp_all add: and.assoc)

lemma inode_init_i_mode: "i_mode (inode_init n p) = (ip_mode p AND 0x1FF) OR type_bits (ip_typ p)"
  by (simp add: inode_init_def Let_def split: inode_type.splits)

lemma type_bits_inj:
  "type_bits t = type_bits t' \<Longrightarrow> dt_of_inode t = dt_of_inode t'"
  by (cases t; cases t'; simp add: type_bits_def S_IF_defs dt_of_inode_def)

lemma dt_roundtrip: "dt_from_u32 (dt_code t) = Some t"
  by (cases t) (simp_all add: dt_from_u32_def)

lemma dt_from_u32_code: "dt_from_u32 v = Some t \<Longrightarrow> dt_code t = v"
  by (auto simp: dt_from_u32_def split: if_splits)

text \<open>What a piecewise rewrite of a stretch of the folio amounts to.\<close>

lemma folio_loop_write:
  "length data = n \<Longrightarrow> off + n \<le> length folio \<Longrightarrow>
   folio_loop (\<lambda>s remaining. (take (length s) remaining, drop (length s) remaining)) off n folio data
     = take off folio @ data @ drop (off + n) folio"
proof (induction n arbitrary: off folio data rule: less_induct)
  case (less n)
  show ?case
  proof (cases "n = 0")
    case True
    with less show ?thesis by (simp add: folio_loop.simps)
  next
    case False
    define u where "u = min n (PAGE_SIZE - off mod PAGE_SIZE)"
    have u: "0 < u" "u \<le> n" using False page_room [of off] by (auto simp: u_def)
    have len: "min (length folio - off) u = u" using less.prems u by simp
    have cut: "take u data @ drop u data @ xs = data @ xs" for xs
      by (simp flip: append_assoc)
    let ?folio = "take off folio @ take u data @ drop (off + u) folio"
    have "folio_loop (\<lambda>s remaining. (take (length s) remaining, drop (length s) remaining)) off n folio data
        = folio_loop (\<lambda>s remaining. (take (length s) remaining, drop (length s) remaining))
            (off + u) (n - u) ?folio (drop u data)"
      using False len by (subst folio_loop.simps) (simp add: Let_def u_def [symmetric])
    also have "\<dots> = take (off + u) ?folio @ drop u data @ drop (off + u + (n - u)) ?folio"
      using less.prems u by (intro less.IH) auto
    also have "\<dots> = take off folio @ data @ drop (off + n) folio"
      using less.prems u cut by (simp add: add.commute)
    finally show ?thesis .
  qed
qed

lemma folio_loop_zero:
  "off + n \<le> length folio \<Longrightarrow>
   folio_loop (\<lambda>s u. (replicate (length s) 0, u)) off n folio ()
     = take off folio @ replicate n 0 @ drop (off + n) folio"
proof (induction n arbitrary: off folio rule: less_induct)
  case (less n)
  show ?case
  proof (cases "n = 0")
    case True
    with less show ?thesis by (simp add: folio_loop.simps)
  next
    case False
    define u where "u = min n (PAGE_SIZE - off mod PAGE_SIZE)"
    have u: "0 < u" "u \<le> n" using False page_room [of off] by (auto simp: u_def)
    have len: "min (length folio - off) u = u" using less.prems u by simp
    have rep: "replicate u (0 :: byte) @ replicate (n - u) 0 @ xs = replicate n 0 @ xs" for xs
      using u by (simp flip: append_assoc replicate_add)
    let ?folio = "take off folio @ replicate u 0 @ drop (off + u) folio"
    have "folio_loop (\<lambda>s u. (replicate (length s) 0, u)) off n folio ()
        = folio_loop (\<lambda>s u. (replicate (length s) 0, u)) (off + u) (n - u) ?folio ()"
      using False len by (subst folio_loop.simps) (simp add: Let_def u_def [symmetric])
    also have "\<dots> = take (off + u) ?folio @ replicate (n - u) 0 @ drop (off + u + (n - u)) ?folio"
      using less.prems u by (intro less.IH) auto
    also have "\<dots> = take off folio @ replicate n 0 @ drop (off + n) folio"
      using less.prems u rep by (simp add: add.commute)
    finally show ?thesis .
  qed
qed

lemma folio_write_inside:
  "off + length data \<le> length folio \<Longrightarrow> length folio \<le> usize_max \<Longrightarrow>
   folio_write off data folio = Inr (take off folio @ data @ drop (off + length data) folio)"
  by (simp add: folio_write_def folio_for_each_page_def checked_add_def folio_loop_write)

lemma zero_out_inside:
  "off + n \<le> length folio \<Longrightarrow> length folio \<le> usize_max \<Longrightarrow>
   zero_out off n folio = Inr (take off folio @ replicate n 0 @ drop (off + n) folio)"
  by (simp add: zero_out_def folio_for_each_page_def checked_add_def folio_loop_zero)


section \<open>Properties\<close>

text \<open>
  Initialising an inode stores the nine permission bits of the requested
  mode, and nothing else of it, next to the file type: masking the stored mode
  gives back either part, the type bits determine the directory entry type,
  and the entry types survive the round trip through their numeric codes.
  Regular files and directories get the operation tables set on the new inode,
  and the default ones where none were set.
\<close>

theorem inode_init_mode:
  "i_mode (inode_init n p) AND 0xF000 = type_bits (ip_typ p)
   \<and> i_mode (inode_init n p) AND 0x1FF = ip_mode p AND 0x1FF
   \<and> (type_bits t = type_bits (ip_typ p) \<longrightarrow> dt_of_inode t = dt_of_inode (ip_typ p))
   \<and> dt_try_from (dt_code d) = Inr d
   \<and> (ip_typ p = IReg \<longrightarrow> i_aops (inode_init n p) = Some (unwrap_or (custom_aops n) RegAops)
        \<and> i_fop (inode_init n p) = Some (unwrap_or (custom_fops n) RegFileOps))
   \<and> (ip_typ p = IDir \<longrightarrow> i_op (inode_init n p) = Some (unwrap_or (custom_iops n) DirInodeOps)
        \<and> i_fop (inode_init n p) = Some (unwrap_or (custom_fops n) DirFileOps))"
  using type_bits_inj [of t "ip_typ p"]
  by (simp add: inode_init_i_mode and_or_nat type_bits_masks perm_masks dt_try_from_def dt_roundtrip)
    (simp add: inode_init_def Let_def)

definition demo_params :: "unit inode_params" where
  "demo_params = \<lparr>ip_mode = 0x9ED, ip_typ = IReg, ip_size = 3, ip_blocks = 1, ip_nlink = 1,
     ip_uid = 0, ip_gid = 0, ip_ctime = \<lparr>secs = 0, nsecs = 0\<rparr>, ip_mtime = \<lparr>secs = 0, nsecs = 0\<rparr>,
     ip_atime = \<lparr>secs = 0, nsecs = 0\<rparr>, ip_value = ()\<rparr>"

theorem inode_init_mode_witness:
  "i_mode (inode_init (set_aops IomapAops new_inode_new) demo_params) AND 0x1FF = 0x1ED
   \<and> i_aops (inode_init (set_aops IomapAops new_inode_new) demo_params) = Some IomapAops"
  using inode_init_mode [of "set_aops IomapAops new_inode_new" demo_params IReg DtReg]
  by (simp add: demo_params_def set_aops_def unwrap_or_def)

text \<open>
  Writing to a locked folio is all or nothing and local: within the folio
  it replaces exactly the written range and succeeds, past its end it fails,
  and zeroing behaves the same.
\<close>

theorem folio_write_local:
  assumes "length folio \<le> usize_max"
  shows "folio_write off data folio =
           (if off + length data \<le> length folio
            then Inr (take off folio @ data @ drop (off + length data) folio)
            else Inl (if off + length data \<le> usize_max then EINVAL else ERANGE))
    \<and> zero_out off n folio =
           (if off + n \<le> length folio
            then Inr (take off folio @ replicate n 0 @ drop (off + n) folio)
            else Inl (if off + n \<le> usize_max then EINVAL else ERANGE))"
  using folio_write_inside [of off data folio] zero_out_inside [of off n folio] assms
  by (simp add: folio_write_def zero_out_def folio_for_each_page_def checked_add_def)

theorem folio_write_local_witness:
  "folio_write 1 [7, 8] [0, 0, 0, 9] = Inr [0, 7, 8, 9]
   \<and> folio_write 3 [7, 8] [0, 0, 0, 9] = Inl EINVAL"
  using folio_write_local [of "[0, 0, 0, 9]" 1 "[7, 8]" 0]
    folio_write_local [of "[0, 0, 0, 9]" 3 "[7, 8]" 0]
  by (simp add: usize_max_def)

text \<open>
  Binding a dentry mistakes every kernel pointer for an error: the check
  for an error pointer is the sign of the address, and kernel addresses on
  x86_64 have the top bit set, so when \<open>d_splice_alias\<close> returns an
  existing alias the lookup fails although nothing went wrong.
\<close>

theorem splice_alias_rejects_alias:
  assumes "2 ^ 63 \<le> ptr" "ptr < 2 ^ 64 - 4095"
  shows "\<exists>e. splice_alias sb (Some sb) ptr = Inl e"
  using assms by (simp add: splice_alias_def)

theorem splice_alias_rejects_alias_witness:
  "\<exists>e. splice_alias 1 (Some 1) 0xFFFF888004A3C0C0 = Inl e"
  using splice_alias_rejects_alias [where ptr = "0xFFFF888004A3C0C0" and sb = 1] by simp

end
