(* ===== verification/Tar_Fs.thy ===== *)
theory Tar_Fs
  imports Vfs_Model
begin

text \<open>
  The read-only tar file system of \<open>samples/tarfs\<close>: mounting, inodes,
  name lookup, directory listing, file contents, extended attributes and
  statistics.  Allocation, the inode cache and the emission of directory
  entries are parameters; the block device is read through the mapper.
\<close>

section \<open>On-disk structures and state\<close>

record tar_inode =
  ti_mode :: nat
  ti_flags :: nat
  ti_hmtime :: nat
  ti_owner :: nat
  ti_group :: nat
  ti_lmtime :: nat
  ti_size :: nat
  ti_offset :: nat

definition tar_inode_of :: "byte list \<Rightarrow> tar_inode" where
  "tar_inode_of bs = \<lparr>ti_mode = field 0 2 bs, ti_flags = field 2 1 bs, ti_hmtime = field 3 1 bs,
     ti_owner = field 4 4 bs, ti_group = field 8 4 bs, ti_lmtime = field 12 4 bs,
     ti_size = field 16 8 bs, ti_offset = field 24 8 bs\<rparr>"

record tar_dirent =
  td_ino :: nat
  td_name_offset :: nat
  td_name_len :: nat
  td_etype :: nat

definition tar_dirent_of :: "byte list \<Rightarrow> tar_dirent" where
  "tar_dirent_of bs = \<lparr>td_ino = field 0 8 bs, td_name_offset = field 8 8 bs,
     td_name_len = field 16 8 bs, td_etype = field 24 1 bs\<rparr>"

record tar_header =
  th_inode_table_offset :: nat
  th_inode_count :: nat

definition tar_header_of :: "byte list \<Rightarrow> tar_header" where
  "tar_header_of bs = \<lparr>th_inode_table_offset = field 0 8 bs, th_inode_count = field 8 8 bs\<rparr>"

definition SECTOR_SIZE :: nat where "SECTOR_SIZE = 512"
definition TARFS_BSIZE :: nat where "TARFS_BSIZE = 4096"
definition TARFS_MAGIC :: nat where "TARFS_MAGIC = 0x54415246"
definition OPAQUE :: nat where "OPAQUE = 1"
definition INODE_SIZE :: nat where "INODE_SIZE = 32"
definition DIRENT_SIZE :: nat where "DIRENT_SIZE = 32"

lemmas tar_sizes = SECTOR_SIZE_def TARFS_BSIZE_def INODE_SIZE_def DIRENT_SIZE_def PAGE_SIZE_def

record tarfs_data =
  data_size :: nat
  inode_table_offset :: nat
  inode_count :: nat
  tar_cache :: page_cache

record inode_data =
  id_offset :: nat
  id_flags :: nat

text \<open>A conversion of a \<open>u64\<close> to an \<open>i64\<close>.\<close>

definition as_i64 :: "nat \<Rightarrow> int" where
  "as_i64 x = wrap_i64 (int x)"


section \<open>Operations\<close>

definition tar_type :: "tar_inode \<Rightarrow> inode_type option" where
  "tar_type t =
     (let m = ti_mode t AND 0xF000; hi = drop_bit 32 (ti_offset t) mod 2 ^ 32; lo = ti_offset t mod 2 ^ 32
      in if m = S_IFREG then Some IReg else if m = S_IFDIR then Some IDir
         else if m = S_IFLNK then Some (ILnk None) else if m = S_IFSOCK then Some ISock
         else if m = S_IFIFO then Some IFifo else if m = S_IFCHR then Some (IChr hi lo)
         else if m = S_IFBLK then Some (IBlk hi lo) else None)"

definition tar_params :: "tar_inode \<Rightarrow> inode_type \<Rightarrow> inode_data inode_params" where
  "tar_params t typ =
     (let ts = \<lparr>secs = ti_lmtime t OR push_bit 32 (ti_hmtime t AND 0xF), nsecs = 0\<rparr>
      in \<lparr>ip_mode = ti_mode t AND 0x1FF, ip_typ = typ, ip_size = as_i64 (ti_size t),
          ip_blocks = (ti_size t + TARFS_BSIZE - 1) div TARFS_BSIZE, ip_nlink = 1,
          ip_uid = ti_owner t, ip_gid = ti_group t,
          ip_ctime = ts, ip_mtime = ts, ip_atime = ts,
          ip_value = \<lparr>id_offset = ti_offset t, id_flags = ti_flags t\<rparr>\<rparr>)"

definition tar_iget ::
  "tarfs_data \<Rightarrow> (nat \<Rightarrow> inode_data iget_locked) \<Rightarrow> nat \<Rightarrow> error + inode_data inode" where
  "tar_iget d iget_locked ino =
     (if ino = 0 \<or> ino > inode_count d then Inl ENOENT
      else rbind (sb_iget (iget_locked ino)) (\<lambda>r. case r of
             Inr cached \<Rightarrow> Inr cached
           | Inl new_inode \<Rightarrow>
               rbind (mapped_folio (tar_cache d)
                        (as_i64 ((inode_table_offset d + (ino - 1) * INODE_SIZE) mod 2 ^ 64)))
                 (\<lambda>mapped. rbind (of_option EIO (from_bytes INODE_SIZE 8 (mf_data mapped) 0))
                 (\<lambda>bs. rbind (of_option ENOENT (tar_type (tar_inode_of bs)))
                 (\<lambda>typ. Inr (inode_init new_inode (tar_params (tar_inode_of bs) typ)))))))"

text \<open>The closure of \<open>name_eq\<close>, over the part of the name still to compare.\<close>

definition name_eq_cb :: "(byte list, bool) page_cb" where
  "name_eq_cb page_data remaining =
     (let len = min (length (sl_bytes page_data)) (length remaining)
      in if take len (sl_bytes page_data) \<noteq> take len remaining then (Inr (Some False), remaining)
         else (Inr None, drop len remaining))"

definition name_eq :: "tarfs_data \<Rightarrow> byte list \<Rightarrow> nat \<Rightarrow> error fault + bool" where
  "name_eq d name offset =
     rbind (fst (for_each_page (tar_cache d) (as_i64 offset) (int (length name)) name_eq_cb name))
       (\<lambda>ret. Inr (unwrap_or ret True))"

text \<open>The loop over the entries of a slice, stopping at the first value.\<close>

primrec entry_loop ::
  "(tar_dirent \<Rightarrow> ('s, error fault, 'u option) op) \<Rightarrow> tar_dirent list
   \<Rightarrow> ('s, error fault, 'u option) op" where
  "entry_loop f [] = sret None"
| "entry_loop f (e # es) =
     sbind (f e) (\<lambda>r. case r of Some u \<Rightarrow> sret (Some u) | None \<Rightarrow> entry_loop f es)"

definition each_entry ::
  "(tar_dirent \<Rightarrow> ('s, error fault, 'u option) op) \<Rightarrow> ('s, 'u) page_cb" where
  "each_entry f page_data =
     (case from_bytes_to_slice DIRENT_SIZE 8 page_data of
        None \<Rightarrow> sraise (Fail EIO)
      | Some entries \<Rightarrow> entry_loop f (map tar_dirent_of entries))"

definition lookup_entry ::
  "tarfs_data \<Rightarrow> (nat \<Rightarrow> inode_data iget_locked) \<Rightarrow> byte list \<Rightarrow> tar_dirent
   \<Rightarrow> (unit, error fault, inode_data inode option) op" where
  "lookup_entry d iget_locked name e =
     slift (rbind (name_eq d name (td_name_offset e)) (\<lambda>eq.
       if eq then rbind (lift_fault (tar_iget d iget_locked (td_ino e))) (\<lambda>node. Inr (Some node))
       else Inr None))"

text \<open>
  Lookup: the first entry whose name compares equal, and then the binding of
  the dentry to the inode found, if any.
\<close>

definition tar_find ::
  "tarfs_data \<Rightarrow> (nat \<Rightarrow> inode_data iget_locked) \<Rightarrow> inode_data inode \<Rightarrow> byte list
   \<Rightarrow> error fault + inode_data inode option" where
  "tar_find d iget_locked parent name =
     fst (for_each_page (tar_cache d) (as_i64 (id_offset (i_data parent))) (i_size parent)
            (each_entry (lookup_entry d iget_locked name)) ())"

definition tar_lookup ::
  "tarfs_data \<Rightarrow> (nat \<Rightarrow> inode_data iget_locked) \<Rightarrow> nat \<Rightarrow> (inode_data inode option \<Rightarrow> nat)
   \<Rightarrow> inode_data inode \<Rightarrow> byte list \<Rightarrow> error fault + nat option" where
  "tar_lookup d iget_locked sb d_splice_alias parent name =
     rbind (tar_find d iget_locked parent name) (\<lambda>found.
       lift_fault (splice_alias sb (map_option (\<lambda>_. sb) found) (d_splice_alias found)))"

text \<open>Reading a name from disk into the 256-byte buffer, at a cursor.\<close>

definition name_cb :: "nat \<Rightarrow> (byte list \<times> nat, unit) page_cb" where
  "name_cb name_len name_data st =
     (let (name_buf, name_off) = st;
          copy_len = min (length (sl_bytes name_data)) (name_len - name_off)
      in if name_off + copy_len \<le> length name_buf
         then (Inr None, (take name_off name_buf @ take copy_len (sl_bytes name_data)
                            @ drop (name_off + copy_len) name_buf, name_off + copy_len))
         else (Inl Panic, st))"

definition tar_dt :: "nat \<Rightarrow> dir_entry_type" where
  "tar_dt etype = (if etype = 4 then DtDir else if etype = 8 then DtReg
     else if etype = 10 then DtLnk else if etype = 2 then DtChr else if etype = 6 then DtBlk
     else if etype = 1 then DtFifo else if etype = 12 then DtSock else DtUnknown)"

definition read_dir_entry ::
  "tarfs_data \<Rightarrow> dir_emit \<Rightarrow> tar_dirent \<Rightarrow> (emitter, error fault, unit option) op" where
  "read_dir_entry d accepts e em =
     (if td_name_len e > 256 then (Inl (Fail ENAMETOOLONG), em)
      else case for_each_page (tar_cache d) (as_i64 (td_name_offset e)) (int (td_name_len e))
                  (name_cb (td_name_len e)) (replicate 256 0, 0) of
             (Inl err, _) \<Rightarrow> (Inl err, em)
           | (Inr _, (name_buf, _)) \<Rightarrow>
               (case emit accepts (int DIRENT_SIZE)
                       (take (td_name_len e) name_buf, td_ino e, tar_dt (td_etype e)) em of
                  (True, em') \<Rightarrow> (Inr None, em')
                | (False, em') \<Rightarrow> (Inr (Some ()), em')))"

definition tar_read_dir ::
  "tarfs_data \<Rightarrow> dir_emit \<Rightarrow> inode_data inode \<Rightarrow> (emitter, error fault, unit) op" where
  "tar_read_dir d accepts node em =
     (let pos = em_pos em
      in if pos < 0 \<or> pos mod int DIRENT_SIZE \<noteq> 0 then (Inl (Fail ENOENT), em)
         else if pos \<ge> i_size node then (Inr (), em)
         else if (case checked_add (id_offset (i_data node)) (nat (i_size node)) of
                    None \<Rightarrow> True | Some end_ \<Rightarrow> end_ > data_size d) then (Inl (Fail EIO), em)
         else sbind (for_each_page (tar_cache d)
                       (wrap_i64 (as_i64 (id_offset (i_data node)) + pos)) (i_size node - pos)
                       (each_entry (read_dir_entry d accepts))) (\<lambda>_. sret ()) em)"

text \<open>The closure of \<open>read_folio\<close>: the bytes written so far and the folio.\<close>

definition read_folio_cb :: "nat \<Rightarrow> (nat \<times> byte list, unit) page_cb" where
  "read_folio_cb to_read page_data st =
     (let (written, folio) = st;
          copy_len = min (length (sl_bytes page_data)) (to_read - written)
      in case folio_write written (take copy_len (sl_bytes page_data)) folio of
           Inl e \<Rightarrow> (Inl (Fail e), st)
         | Inr folio' \<Rightarrow> (Inr None, (written + copy_len, folio')))"

definition tar_read_folio ::
  "tarfs_data \<Rightarrow> inode_data inode \<Rightarrow> nat \<Rightarrow> byte list \<Rightarrow> (error fault + unit) \<times> byte list" where
  "tar_read_folio d node folio_offset folio =
     (let folio_size = length folio; file_size = nat (i_size node mod 2 ^ 64)
      in case zero_out 0 folio_size folio of
           Inl e \<Rightarrow> (Inl (Fail e), folio)
         | Inr zeroed \<Rightarrow>
             if folio_offset \<ge> file_size then (Inr (), zeroed)
             else let to_read = min folio_size (file_size - folio_offset);
                      disk_offset = (id_offset (i_data node) + folio_offset) mod 2 ^ 64
                  in case for_each_page (tar_cache d) (as_i64 disk_offset) (int to_read)
                            (read_folio_cb to_read) (0, zeroed) of
                       (Inl e, (_, f)) \<Rightarrow> (Inl e, f)
                     | (Inr _, (_, f)) \<Rightarrow> (Inr (), f))"

definition tar_read_xattr :: "inode_data inode \<Rightarrow> string \<Rightarrow> byte list \<Rightarrow> (error + nat) \<times> byte list" where
  "tar_read_xattr node name outbuf =
     (if id_flags (i_data node) AND OPAQUE = 0 then (Inl ENODATA, outbuf)
      else if name \<noteq> ''trusted.overlay.opaque'' then (Inl ENODATA, outbuf)
      else (Inr 1, if outbuf \<noteq> [] then outbuf[0 := of_char (CHR ''y'')] else outbuf))"

record stat =
  st_magic :: nat
  st_namelen :: nat
  st_bsize :: nat
  st_blocks :: nat
  st_files :: nat

definition tar_statfs :: "tarfs_data \<Rightarrow> stat" where
  "tar_statfs d = \<lparr>st_magic = TARFS_MAGIC, st_namelen = 255, st_bsize = TARFS_BSIZE,
     st_blocks = inode_table_offset d div TARFS_BSIZE, st_files = inode_count d\<rparr>"

text \<open>
  Mounting: the sector count of the device, the block size the kernel sets
  when asked for a minimum, whether the allocation succeeds, and the page
  cache of the device.
\<close>

definition tar_fill_super ::
  "nat \<Rightarrow> (int \<Rightarrow> int) \<Rightarrow> bool \<Rightarrow> page_cache \<Rightarrow> error + tarfs_data" where
  "tar_fill_super scount min_blocksize alloc_ok cache =
     (if scount < TARFS_BSIZE div SECTOR_SIZE then Inl ENXIO
      else if min_blocksize (int SECTOR_SIZE) \<noteq> int SECTOR_SIZE then Inl EIO
      else rbind (mapped_folio cache (as_i64 ((scount - 1) * SECTOR_SIZE mod 2 ^ 64))) (\<lambda>mapped.
           rbind (of_option EIO (from_bytes 16 8 (mf_data mapped) 0)) (\<lambda>bs.
             let hdr = tar_header_of bs;
                 ds = scount * SECTOR_SIZE mod 2 ^ 64;
                 d = \<lparr>data_size = ds, inode_table_offset = th_inode_table_offset hdr,
                      inode_count = th_inode_count hdr, tar_cache = cache\<rparr>
             in if \<not> alloc_ok then Inl ENOMEM
                else if inode_table_offset d \<ge> ds then Inl E2BIG
                else case Option.bind (checked_mul (inode_count d) INODE_SIZE)
                            (\<lambda>s. checked_add s (inode_table_offset d)) of
                       None \<Rightarrow> Inl ERANGE
                     | Some table_end \<Rightarrow> if table_end > ds then Inl E2BIG else Inr d)))"

definition tar_init_root ::
  "tarfs_data \<Rightarrow> (nat \<Rightarrow> inode_data iget_locked) \<Rightarrow> (inode_data inode \<Rightarrow> nat) \<Rightarrow> error + nat" where
  "tar_init_root d iget_locked d_make_root =
     rbind (tar_iget d iget_locked 1) (\<lambda>node. root_try_new (d_make_root node))"


section \<open>Iterating over the entries of a directory\<close>

lemma as_i64_small [simp]: "x < 2 ^ 63 \<Longrightarrow> as_i64 x = int x"
  by (simp add: as_i64_def in_i64_def)

definition tar_ents :: "(nat \<Rightarrow> byte) \<Rightarrow> nat \<Rightarrow> nat \<Rightarrow> tar_dirent list" where
  "tar_ents dev off n = map tar_dirent_of (records DIRENT_SIZE n (map dev [off ..< off + n * DIRENT_SIZE]))"

definition disk_name :: "(nat \<Rightarrow> byte) \<Rightarrow> nat \<Rightarrow> nat \<Rightarrow> byte list" where
  "disk_name dev off len = map dev [off ..< off + len]"

lemma entry_loop_append:
  "entry_loop f (xs @ ys) s =
     sbind (entry_loop f xs) (\<lambda>r. case r of Some u \<Rightarrow> sret (Some u) | None \<Rightarrow> entry_loop f ys) s"
  by (induction xs arbitrary: s) (auto simp: sbind_def split: prod.splits sum.splits option.splits)

lemma records_append:
  "length xs = k * sz \<Longrightarrow> records sz (k + m) (xs @ ys) = records sz k xs @ records sz m ys"
proof (induction k arbitrary: xs)
  case (Suc k)
  then show ?case by (simp add: records_Suc)
qed (simp add: records_def)

lemma tar_ents_append:
  "tar_ents dev off (k + m) = tar_ents dev off k @ tar_ents dev (off + k * DIRENT_SIZE) m"
proof -
  have "[off ..< off + (k + m) * DIRENT_SIZE] = [off ..< off + k * DIRENT_SIZE]
      @ [off + k * DIRENT_SIZE ..< off + k * DIRENT_SIZE + m * DIRENT_SIZE]"
    using upt_add_eq_append [of off "off + k * DIRENT_SIZE" "m * DIRENT_SIZE"]
    by (simp add: algebra_simps)
  then show ?thesis unfolding tar_ents_def
    using records_append [of "map dev [off ..< off + k * DIRENT_SIZE]" k DIRENT_SIZE m] by simp
qed

lemma each_entry_region:
  assumes "DIRENT_SIZE dvd off"
  shows "each_entry f (region dev off (k * DIRENT_SIZE)) = entry_loop f (tar_ents dev off k)"
proof -
  have "8 dvd off" using assms dvd_trans [of 8 DIRENT_SIZE off] by (simp add: DIRENT_SIZE_def)
  then have "off mod PAGE_SIZE mod 8 = 0" by (simp add: PAGE_SIZE_def dvd_mod)
  then have "from_bytes_to_slice DIRENT_SIZE 8 (region dev off (k * DIRENT_SIZE))
      = Some (records DIRENT_SIZE k (map dev [off ..< off + k * DIRENT_SIZE]))"
    by (simp add: from_bytes_to_slice_def region_def DIRENT_SIZE_def)
  then show ?thesis by (simp add: each_entry_def tar_ents_def)
qed

lemma page_chunk_whole_entries:
  assumes "DIRENT_SIZE dvd off"
  obtains k where "min (PAGE_SIZE - off mod PAGE_SIZE) (n * DIRENT_SIZE) = k * DIRENT_SIZE" "k \<le> n"
proof
  let ?m = "min (PAGE_SIZE - off mod PAGE_SIZE) (n * DIRENT_SIZE)"
  have "DIRENT_SIZE dvd PAGE_SIZE" by (simp add: tar_sizes)
  then have "DIRENT_SIZE dvd PAGE_SIZE - off mod PAGE_SIZE"
    using assms by (intro dvd_diff_nat dvd_mod)
  then have "DIRENT_SIZE dvd ?m" by (simp add: min_def)
  then show "?m = ?m div DIRENT_SIZE * DIRENT_SIZE" by simp
  have "?m div DIRENT_SIZE \<le> n * DIRENT_SIZE div DIRENT_SIZE" by (intro div_le_mono) simp
  then show "?m div DIRENT_SIZE \<le> n" by (simp add: tar_sizes)
qed

lemma visit_each_entry:
  "DIRENT_SIZE dvd off \<Longrightarrow>
   visit (each_entry f) (chunk_slices dev off (n * DIRENT_SIZE)) s = entry_loop f (tar_ents dev off n) s"
proof (induction n arbitrary: off s rule: less_induct)
  case (less n)
  show ?case
  proof (cases "n = 0")
    case True
    then show ?thesis by (simp add: tar_ents_def records_def)
  next
    case False
    obtain k where k: "min (PAGE_SIZE - off mod PAGE_SIZE) (n * DIRENT_SIZE) = k * DIRENT_SIZE" "k \<le> n"
      using page_chunk_whole_entries [OF less.prems] .
    have "0 < k"
    proof (rule ccontr)
      assume "\<not> 0 < k"
      with k(1) have "min (PAGE_SIZE - off mod PAGE_SIZE) (n * DIRENT_SIZE) = 0" by simp
      with False page_room [of off] show False by (simp add: min_def DIRENT_SIZE_def split: if_splits)
    qed
    have chunks: "chunk_slices dev off (n * DIRENT_SIZE) = region dev off (k * DIRENT_SIZE)
        # chunk_slices dev (off + k * DIRENT_SIZE) ((n - k) * DIRENT_SIZE)"
      using chunk_slices_step [of "n * DIRENT_SIZE" dev off] False k(1)
      by (simp add: DIRENT_SIZE_def diff_mult_distrib)
    have IH: "visit (each_entry f) (chunk_slices dev (off + k * DIRENT_SIZE) ((n - k) * DIRENT_SIZE)) s'
        = entry_loop f (tar_ents dev (off + k * DIRENT_SIZE) (n - k)) s'" for s'
      using \<open>0 < k\<close> False less.prems by (intro less.IH) auto
    have "tar_ents dev off n = tar_ents dev off k @ tar_ents dev (off + k * DIRENT_SIZE) (n - k)"
      using tar_ents_append [of dev off k "n - k"] k(2) by simp
    then show ?thesis unfolding chunks
      by (auto simp: entry_loop_append each_entry_region [OF less.prems] sbind_def IH
          split: prod.splits sum.splits option.splits)
  qed
qed

lemma for_each_entry:
  assumes "serves dev limit cache" "DIRENT_SIZE dvd off" "off + n * DIRENT_SIZE \<le> limit"
  shows "for_each_page cache (int off) (int (n * DIRENT_SIZE)) (each_entry f) s
       = entry_loop f (tar_ents dev off n) s"
  using for_each_page_visit [OF assms(1,3), of "each_entry f" s] visit_each_entry [OF assms(2), of f dev n s]
  by simp


section \<open>Names\<close>

lemma visit_name_eq:
  "length (concat (map sl_bytes sls)) = length rest \<Longrightarrow>
   fst (visit name_eq_cb sls rest) = Inr (if concat (map sl_bytes sls) = rest then None else Some False)"
proof (induction sls arbitrary: rest)
  case (Cons sl sls)
  let ?b = "sl_bytes sl" and ?bs = "concat (map sl_bytes sls)"
  have len: "length ?b \<le> length rest" "length ?bs = length (drop (length ?b) rest)"
    using Cons.prems by simp_all
  have "?b @ ?bs = rest \<longleftrightarrow> ?b = take (length ?b) rest \<and> ?bs = drop (length ?b) rest"
    by (metis append_eq_conv_conj append_take_drop_id)
  with Cons.IH [OF len(2)] len(1) show ?case
    by (auto simp: name_eq_cb_def Let_def sbind_def min_def split: prod.splits)
qed simp

lemma name_eq_disk:
  assumes "serves dev limit (tar_cache d)" "offset + length name \<le> limit"
  shows "name_eq d name offset = Inr (disk_name dev offset (length name) = name)"
proof -
  have "as_i64 offset = int offset" using assms by (simp add: serves_def)
  moreover have "concat (map sl_bytes (chunk_slices dev offset (length name)))
      = disk_name dev offset (length name)"
    by (simp add: chunk_slices_bytes disk_name_def)
  ultimately show ?thesis
    using for_each_page_visit [OF assms, of name_eq_cb name]
      visit_name_eq [of "chunk_slices dev offset (length name)" name]
    by (simp add: name_eq_def unwrap_or_def disk_name_def)
qed

lemma visit_name_cb:
  "o0 + length (concat (map sl_bytes sls)) = n \<Longrightarrow> n \<le> length buf \<Longrightarrow>
   visit (name_cb n) sls (buf, o0)
     = (Inr None, (take o0 buf @ concat (map sl_bytes sls) @ drop n buf, n))"
proof (induction sls arbitrary: buf o0)
  case Nil
  then show ?case by simp
next
  case (Cons sl sls)
  let ?b = "sl_bytes sl"
  let ?buf = "take o0 buf @ ?b @ drop (o0 + length ?b) buf"
  have "name_cb n sl (buf, o0) = (Inr None, (?buf, o0 + length ?b))"
    using Cons.prems by (simp add: name_cb_def Let_def)
  moreover have "visit (name_cb n) sls (?buf, o0 + length ?b)
      = (Inr None, (take (o0 + length ?b) ?buf @ concat (map sl_bytes sls) @ drop n ?buf, n))"
    using Cons.prems by (intro Cons.IH) auto
  moreover have "take (o0 + length ?b) ?buf = take o0 buf @ ?b" "drop n ?buf = drop n buf"
    using Cons.prems by (auto intro!: take_overwrite drop_overwrite)
  ultimately show ?case by (simp add: sbind_def)
qed

text \<open>The entry as the reader of the directory sees it.\<close>

definition shown :: "(nat \<Rightarrow> byte) \<Rightarrow> tar_dirent \<Rightarrow> dirent" where
  "shown dev e = (disk_name dev (td_name_offset e) (td_name_len e), td_ino e, tar_dt (td_etype e))"

text \<open>Names that \<open>read_dir\<close> can show: short enough, and on the device.\<close>

definition name_ok :: "nat \<Rightarrow> tar_dirent \<Rightarrow> bool" where
  "name_ok limit e \<longleftrightarrow> td_name_len e \<le> 256 \<and> td_name_offset e + td_name_len e \<le> limit"

lemma read_dir_entry_shown:
  assumes "serves dev limit (tar_cache d)" "name_ok limit e"
  shows "read_dir_entry d accepts e em =
    (case emit accepts (int DIRENT_SIZE) (shown dev e) em of
       (True, em') \<Rightarrow> (Inr None, em') | (False, em') \<Rightarrow> (Inr (Some ()), em'))"
proof -
  let ?n = "td_name_len e" and ?o = "td_name_offset e"
  have ok: "?n \<le> 256" "?o + ?n \<le> limit" using assms(2) by (simp_all add: name_ok_def)
  have "as_i64 ?o = int ?o" using assms(1) ok(2) by (simp add: serves_def)
  moreover have "visit (name_cb ?n) (chunk_slices dev ?o ?n) (replicate 256 0, 0)
      = (Inr None, (disk_name dev ?o ?n @ replicate (256 - ?n) 0, ?n))"
    using visit_name_cb [of 0 "chunk_slices dev ?o ?n" ?n "replicate 256 0"] ok
    by (simp add: chunk_slices_bytes disk_name_def)
  ultimately show ?thesis
    using for_each_page_visit [OF assms(1) ok(2), of "name_cb ?n" "(replicate 256 0, 0)"] ok(1)
    by (simp add: read_dir_entry_def shown_def disk_name_def)
qed


section \<open>Listing\<close>

text \<open>The reference for a listing: emit the entries one by one until one is refused.\<close>

fun emit_each :: "dir_emit \<Rightarrow> dirent list \<Rightarrow> emitter \<Rightarrow> emitter" where
  "emit_each accepts [] em = em"
| "emit_each accepts (x # xs) em =
     (case emit accepts (int DIRENT_SIZE) x em of
        (True, em') \<Rightarrow> emit_each accepts xs em' | (False, em') \<Rightarrow> em')"

lemma entry_loop_read_dir:
  assumes "serves dev limit (tar_cache d)"
  shows "\<forall>e \<in> set es. name_ok limit e \<Longrightarrow>
    \<exists>r. entry_loop (read_dir_entry d accepts) es em = (Inr r, emit_each accepts (map (shown dev) es) em)"
proof (induction es arbitrary: em)
  case (Cons e es)
  then have "name_ok limit e" by simp
  note entry = read_dir_entry_shown [OF assms this, of accepts em]
  obtain b em' where em': "emit accepts (int DIRENT_SIZE) (shown dev e) em = (b, em')" by fastforce
  show ?case
  proof (cases b)
    case True
    with em' entry Cons.IH [of em'] Cons.prems show ?thesis by (auto simp: sbind_def)
  next
    case False
    with em' entry show ?thesis by (simp add: sbind_def)
  qed
qed simp

lemma emit_each_prefix:
  assumes "0 \<le> em_pos em" "em_pos em + int (length xs * DIRENT_SIZE) < 2 ^ 63"
  shows "\<exists>k \<le> length xs. emit_each accepts xs em
           = em\<lparr>em_pos := em_pos em + int (k * DIRENT_SIZE), em_out := em_out em @ take k xs\<rparr>
         \<and> (k < length xs \<longrightarrow> \<not> accepts (em_out em @ take k xs) (xs ! k))"
  using assms
proof (induction xs arbitrary: em)
  case Nil
  then show ?case by simp
next
  case (Cons x xs)
  show ?case
  proof (cases "accepts (em_out em) x")
    case True
    let ?em = "em\<lparr>em_pos := em_pos em + int DIRENT_SIZE, em_out := em_out em @ [x]\<rparr>"
    have "wrap_i64 (em_pos em + int DIRENT_SIZE) = em_pos em + int DIRENT_SIZE"
      using Cons.prems by (intro wrap_i64_id) (auto simp: in_i64_def DIRENT_SIZE_def)
    then have step: "emit accepts (int DIRENT_SIZE) x em = (True, ?em)"
      using True by (simp add: emit_def)
    obtain k where k: "k \<le> length xs" "emit_each accepts xs ?em
        = ?em\<lparr>em_pos := em_pos ?em + int (k * DIRENT_SIZE), em_out := em_out ?em @ take k xs\<rparr>"
      "k < length xs \<longrightarrow> \<not> accepts (em_out ?em @ take k xs) (xs ! k)"
      using Cons.IH [of ?em] Cons.prems by auto
    with step show ?thesis by (intro exI [of _ "Suc k"]) (simp add: algebra_simps)
  next
    case False
    then show ?thesis by (intro exI [of _ 0]) (simp add: emit_def)
  qed
qed


section \<open>Contents\<close>

lemma visit_read_folio:
  "w + length (concat (map sl_bytes sls)) = n \<Longrightarrow> n \<le> length folio \<Longrightarrow> length folio \<le> usize_max \<Longrightarrow>
   visit (read_folio_cb n) sls (w, folio)
     = (Inr None, (n, take w folio @ concat (map sl_bytes sls) @ drop n folio))"
proof (induction sls arbitrary: w folio)
  case Nil
  then show ?case by simp
next
  case (Cons sl sls)
  let ?b = "sl_bytes sl"
  let ?folio = "take w folio @ ?b @ drop (w + length ?b) folio"
  have "folio_write w ?b folio = Inr ?folio" using Cons.prems by (intro folio_write_inside) auto
  then have "read_folio_cb n sl (w, folio) = (Inr None, (w + length ?b, ?folio))"
    using Cons.prems by (simp add: read_folio_cb_def Let_def)
  moreover have "visit (read_folio_cb n) sls (w + length ?b, ?folio)
      = (Inr None, (n, take (w + length ?b) ?folio @ concat (map sl_bytes sls) @ drop n ?folio))"
    using Cons.prems by (intro Cons.IH) auto
  moreover have "take (w + length ?b) ?folio = take w folio @ ?b" "drop n ?folio = drop n folio"
    using Cons.prems by (auto intro!: take_overwrite drop_overwrite)
  ultimately show ?case by (simp add: sbind_def)
qed

lemma zero_out_all: "length folio \<le> usize_max \<Longrightarrow> zero_out 0 (length folio) folio = Inr (replicate (length folio) 0)"
  by (simp add: zero_out_inside)

text \<open>
  C19. Reading a folio of a file gives the bytes of the file at the folio's
  position, followed by zeroes past the end of the file: the read never fails
  and never shows bytes of another file, when the file lies on the device.
\<close>

theorem tar_read_folio_contents:
  assumes "serves dev limit (tar_cache d)" "0 \<le> i_size node" "length folio \<le> usize_max"
    "id_offset (i_data node) + nat (i_size node) \<le> limit"
  shows "tar_read_folio d node pos folio =
    (let n = min (length folio) (nat (i_size node) - pos); a = id_offset (i_data node) + pos
     in (Inr (), map dev [a ..< a + n] @ replicate (length folio - n) 0))"
proof -
  let ?a = "id_offset (i_data node) + pos"
  have lim: "limit < 2 ^ 63" using assms(1) by (simp add: serves_def)
  have size: "nat (i_size node mod 2 ^ 64) = nat (i_size node)"
    using assms(2,4) lim by simp
  note zero = zero_out_all [OF assms(3)]
  show ?thesis
  proof (cases "nat (i_size node) \<le> pos")
    case True
    then show ?thesis using zero size by (simp add: tar_read_folio_def Let_def)
  next
    case False
    let ?n = "min (length folio) (nat (i_size node) - pos)"
    have a: "?a + ?n \<le> limit" "as_i64 (?a mod 2 ^ 64) = int ?a"
      using False assms(4) lim by (auto simp: min_def)
    have bytes: "concat (map sl_bytes (chunk_slices dev ?a ?n)) = map dev [?a ..< ?a + ?n]"
      by (rule chunk_slices_bytes)
    have "visit (read_folio_cb ?n) (chunk_slices dev ?a ?n) (0, replicate (length folio) 0)
        = (Inr None, (?n, map dev [?a ..< ?a + ?n] @ replicate (length folio - ?n) 0))"
      using visit_read_folio [of 0 "chunk_slices dev ?a ?n" ?n "replicate (length folio) 0"] assms(3)
      unfolding bytes by simp
    then show ?thesis
      using for_each_page_visit [OF assms(1) a(1), of "read_folio_cb ?n" "(0, replicate (length folio) 0)"]
        zero size a(2) False
      by (simp add: tar_read_folio_def Let_def)
  qed
qed

definition demo_file :: "nat \<Rightarrow> nat \<Rightarrow> inode_data inode" where
  "demo_file off n = inode_init new_inode_new
     \<lparr>ip_mode = 0x1ED, ip_typ = IReg, ip_size = int n, ip_blocks = 1, ip_nlink = 1,
      ip_uid = 0, ip_gid = 0, ip_ctime = \<lparr>secs = 0, nsecs = 0\<rparr>, ip_mtime = \<lparr>secs = 0, nsecs = 0\<rparr>,
      ip_atime = \<lparr>secs = 0, nsecs = 0\<rparr>, ip_value = \<lparr>id_offset = off, id_flags = 0\<rparr>\<rparr>"

lemma demo_file_simps [simp]:
  "i_size (demo_file off n) = int n" "i_data (demo_file off n) = \<lparr>id_offset = off, id_flags = 0\<rparr>"
  by (simp_all add: demo_file_def inode_init_def Let_def)

definition demo_tar :: tarfs_data where
  "demo_tar = \<lparr>data_size = 8192, inode_table_offset = 4096, inode_count = 2, tar_cache = demo_cache\<rparr>"

theorem tar_read_folio_contents_witness:
  "tar_read_folio demo_tar (demo_file 4095 2) 0 [1, 1, 1] = (Inr (), [demo_dev 4095, demo_dev 4096, 0])"
  using tar_read_folio_contents [of demo_dev 8192 demo_tar "demo_file 4095 2" "[1, 1, 1]" 0] demo_serves
  by (simp add: demo_tar_def usize_max_def Let_def upt_rec)


section \<open>Properties of lookup and listing\<close>

lemma entry_loop_lookup:
  assumes "serves dev limit (tar_cache d)"
  shows "\<forall>e \<in> set es. td_name_offset e + length name \<le> limit \<Longrightarrow>
    fst (entry_loop (lookup_entry d il name) es ()) =
      (case find (\<lambda>e. disk_name dev (td_name_offset e) (length name) = name) es of
         None \<Rightarrow> Inr None
       | Some e \<Rightarrow> rbind (lift_fault (tar_iget d il (td_ino e))) (\<lambda>node. Inr (Some node)))"
proof (induction es)
  case (Cons e es)
  then have "name_eq d name (td_name_offset e)
      = Inr (disk_name dev (td_name_offset e) (length name) = name)"
    by (intro name_eq_disk [OF assms]) simp
  moreover have "snd (slift r s) = s" for r :: "error fault + inode_data inode option" and s :: unit
    by simp
  ultimately show ?case using Cons
    by (cases "lift_fault (tar_iget d il (td_ino e))") (auto simp: lookup_entry_def sbind_def)
qed simp

text \<open>A directory on the device: its table of entries, aligned and within the device.\<close>

definition dir_ok :: "nat \<Rightarrow> inode_data inode \<Rightarrow> nat \<Rightarrow> bool" where
  "dir_ok limit node n \<longleftrightarrow> DIRENT_SIZE dvd id_offset (i_data node) \<and> i_size node = int (n * DIRENT_SIZE)
     \<and> id_offset (i_data node) + n * DIRENT_SIZE \<le> limit"

abbreviation dir_ents :: "(nat \<Rightarrow> byte) \<Rightarrow> inode_data inode \<Rightarrow> nat \<Rightarrow> tar_dirent list" where
  "dir_ents dev node n \<equiv> tar_ents dev (id_offset (i_data node)) n"

lemma tar_find_first:
  assumes "serves dev limit (tar_cache d)" "dir_ok limit parent n"
    "\<forall>e \<in> set (dir_ents dev parent n). td_name_offset e + length name \<le> limit"
  shows "tar_find d il parent name =
    (case find (\<lambda>e. disk_name dev (td_name_offset e) (length name) = name) (dir_ents dev parent n) of
       None \<Rightarrow> Inr None
     | Some e \<Rightarrow> rbind (lift_fault (tar_iget d il (td_ino e))) (\<lambda>node. Inr (Some node)))"
proof -
  have "as_i64 (id_offset (i_data parent)) = int (id_offset (i_data parent))"
    using assms(1,2) by (simp add: serves_def dir_ok_def)
  then show ?thesis
    using for_each_entry [OF assms(1), of "id_offset (i_data parent)" n "lookup_entry d il name" "()"]
      entry_loop_lookup [OF assms(1,3), of il] assms(2)
    by (simp add: tar_find_def dir_ok_def)
qed


text \<open>An image with one directory of one entry, named \<open>abc\<close>, at offset 0.\<close>

definition img_bytes :: "byte list" where
  "img_bytes = [2, 0, 0, 0, 0, 0, 0, 0, 32, 0, 0, 0, 0, 0, 0, 0, 3, 0, 0, 0, 0, 0, 0, 0,
     8, 0, 0, 0, 0, 0, 0, 0, 97, 98, 99]"

definition img_dev :: "nat \<Rightarrow> byte" where
  "img_dev i = (if i < length img_bytes then img_bytes ! i else 0)"

definition img_cache :: page_cache where
  "img_cache i = (if i < 2 then Ptr (page_of img_dev i) else ErrPtr (- 5))"

definition img_tar :: tarfs_data where
  "img_tar = \<lparr>data_size = 8192, inode_table_offset = 4096, inode_count = 2, tar_cache = img_cache\<rparr>"

definition img_iget :: "nat \<Rightarrow> inode_data iget_locked" where
  "img_iget ino = (if ino = 2 then IgetCached (demo_file 40 3) else IgetNew)"

lemma img_serves: "serves img_dev 8192 (tar_cache img_tar)"
  by (simp add: serves_def img_tar_def img_cache_def PAGE_SIZE_def)

lemma img_ents: "tar_ents img_dev 0 (Suc 0) = [\<lparr>td_ino = 2, td_name_offset = 32, td_name_len = 3, td_etype = 8\<rparr>]"
  by code_simp

lemma img_dir_ok: "dir_ok 8192 (demo_file 0 32) 1"
  by (simp add: dir_ok_def DIRENT_SIZE_def)

text \<open>
  C18. Lookup returns the inode of the first entry of the directory whose
  bytes on disk, read at the offset of its name, start with the name looked
  for, and no inode when there is none; an error is the error of reading the
  inode.
\<close>

theorem tar_lookup_first_match:
  assumes "serves dev limit (tar_cache d)" "dir_ok limit parent n"
    "\<forall>e \<in> set (dir_ents dev parent n). td_name_offset e + length name \<le> limit"
  shows "tar_lookup d il sb d_splice_alias parent name =
    (case find (\<lambda>e. disk_name dev (td_name_offset e) (length name) = name) (dir_ents dev parent n) of
       None \<Rightarrow> lift_fault (splice_alias sb None (d_splice_alias None))
     | Some e \<Rightarrow> (case tar_iget d il (td_ino e) of
           Inl err \<Rightarrow> Inl (Fail err)
         | Inr node \<Rightarrow> lift_fault (splice_alias sb (Some sb) (d_splice_alias (Some node)))))"
  using tar_find_first [OF assms, of il]
  by (auto simp: tar_lookup_def lift_fault_def split: option.splits sum.splits)

theorem tar_lookup_first_match_witness:
  "tar_lookup img_tar img_iget 1 (\<lambda>_. 0) (demo_file 0 32) [97, 98, 99] = Inr None"
proof -
  have name: "disk_name img_dev 32 (Suc (Suc (Suc 0))) = [97, 98, 99]" by code_simp
  have iget: "tar_iget img_tar img_iget 2 = Inr (demo_file 40 3)"
    by (simp add: tar_iget_def img_tar_def img_iget_def sb_iget_def)
  show ?thesis
    using tar_lookup_first_match [OF img_serves img_dir_ok, of "[97, 98, 99]" img_iget 1 "\<lambda>_. 0"]
    by (simp add: img_ents name iget splice_alias_def lift_fault_def)
qed

text \<open>
  The length of an entry's name is never compared: looking up a proper
  prefix of the name of the first entry of a directory, which no entry of that
  directory bears, finds that entry.
\<close>

theorem tar_lookup_accepts_prefix:
  assumes "serves dev limit (tar_cache d)" "dir_ok limit parent n"
    "\<forall>e \<in> set (dir_ents dev parent n). td_name_offset e + k \<le> limit"
    "dir_ents dev parent n = e # es" "k < td_name_len e"
    "name = disk_name dev (td_name_offset e) k" "tar_iget d il (td_ino e) = Inr node"
  shows "name \<noteq> disk_name dev (td_name_offset e) (td_name_len e) \<and> tar_find d il parent name = Inr (Some node)"
proof -
  have len: "length name = k" using assms(6) by (simp add: disk_name_def)
  have "tar_find d il parent name = Inr (Some node)"
    using tar_find_first [OF assms(1,2), of name il] assms(3,4,6,7) len by (simp add: lift_fault_def)
  moreover have "length (disk_name dev (td_name_offset e) (td_name_len e)) = td_name_len e"
    by (simp add: disk_name_def)
  ultimately show ?thesis using len assms(5) by auto
qed

theorem tar_lookup_accepts_prefix_witness:
  "tar_find img_tar img_iget (demo_file 0 32) [97, 98] = Inr (Some (demo_file 40 3))"
proof -
  have name: "[97, 98] = disk_name img_dev 32 2" by code_simp
  have iget: "tar_iget img_tar img_iget 2 = Inr (demo_file 40 3)"
    by (simp add: tar_iget_def img_tar_def img_iget_def sb_iget_def)
  show ?thesis
    using tar_lookup_accepts_prefix [OF img_serves img_dir_ok, of 2
        "\<lparr>td_ino = 2, td_name_offset = 32, td_name_len = 3, td_etype = 8\<rparr>" "[]" "[97, 98]"
        img_iget "demo_file 40 3"]
    by (simp add: img_ents name [symmetric] iget)
qed

lemma read_dir_run:
  assumes "serves dev limit (tar_cache d)" "dir_ok limit node n" "limit \<le> data_size d"
    "\<forall>e \<in> set (dir_ents dev node n). name_ok limit e" "em_pos em = int (k * DIRENT_SIZE)" "k < n"
  shows "tar_read_dir d accepts node em
    = (Inr (), emit_each accepts (map (shown dev) (drop k (dir_ents dev node n))) em)"
proof -
  let ?off = "id_offset (i_data node)" and ?a = "id_offset (i_data node) + k * DIRENT_SIZE"
  have dir: "DIRENT_SIZE dvd ?off" "i_size node = int (n * DIRENT_SIZE)" "?off + n * DIRENT_SIZE \<le> limit"
    and lim: "limit < 2 ^ 63"
    using assms(1,2) by (simp_all add: dir_ok_def serves_def)
  have kn: "k * DIRENT_SIZE < n * DIRENT_SIZE" "?a + (n - k) * DIRENT_SIZE = ?off + n * DIRENT_SIZE"
    using assms(6) by (auto simp: DIRENT_SIZE_def diff_mult_distrib)
  have ents: "tar_ents dev ?a (n - k) = drop k (dir_ents dev node n)"
    using tar_ents_append [of dev ?off k "n - k"] assms(6) by (simp add: tar_ents_def)
  have place: "wrap_i64 (as_i64 ?off + em_pos em) = int ?a"
    "i_size node - em_pos em = int ((n - k) * DIRENT_SIZE)"
    using assms(5,6) dir(2,3) kn(1) lim
    by (simp_all add: in_i64_def DIRENT_SIZE_def of_nat_diff algebra_simps)
  obtain r where "entry_loop (read_dir_entry d accepts) (drop k (dir_ents dev node n)) em
      = (Inr r, emit_each accepts (map (shown dev) (drop k (dir_ents dev node n))) em)"
    using entry_loop_read_dir [OF assms(1), of "drop k (dir_ents dev node n)" accepts em] assms(4)
      set_drop_subset [of k "dir_ents dev node n"] by blast
  then have loop: "for_each_page (tar_cache d) (wrap_i64 (as_i64 ?off + em_pos em)) (i_size node - em_pos em)
      (each_entry (read_dir_entry d accepts)) em
      = (Inr r, emit_each accepts (map (shown dev) (drop k (dir_ents dev node n))) em)"
    unfolding place ents [symmetric] using dir kn
    by (subst for_each_entry [OF assms(1)]) auto
  have "nat (i_size node) = n * DIRENT_SIZE" using dir(2) by (simp only: nat_int)
  then have "\<not> (case checked_add ?off (nat (i_size node)) of
      None \<Rightarrow> True | Some end_ \<Rightarrow> end_ > data_size d)"
    using dir(3) lim assms(3) by (simp add: checked_add_def usize_max_def)
  moreover have "\<not> em_pos em < 0" "em_pos em mod int DIRENT_SIZE = 0" "\<not> i_size node \<le> em_pos em"
    using assms(5,6) dir(2) by (simp_all add: DIRENT_SIZE_def)
  ultimately show ?thesis by (simp add: tar_read_dir_def Let_def loop sbind_def)
qed

text \<open>
  C17. Listing a directory from a position shows exactly the entries from
  there on, in order and with their full names, until the reader refuses one,
  and leaves the position behind the last entry shown: no entry is lost or
  repeated when the listing is resumed.
\<close>

theorem tar_read_dir_resumable:
  assumes "serves dev limit (tar_cache d)" "dir_ok limit node n" "limit \<le> data_size d"
    "\<forall>e \<in> set (dir_ents dev node n). name_ok limit e" "em_pos em = int (k * DIRENT_SIZE)" "k \<le> n"
  shows "\<exists>m \<le> n - k. let ents = map (shown dev) (dir_ents dev node n) in
      tar_read_dir d accepts node em
        = (Inr (), em\<lparr>em_pos := int ((k + m) * DIRENT_SIZE), em_out := em_out em @ take m (drop k ents)\<rparr>)
      \<and> (k + m < n \<longrightarrow> \<not> accepts (em_out em @ take m (drop k ents)) (ents ! (k + m)))"
proof (cases "k = n")
  case True
  then show ?thesis using assms(2,5)
    by (intro exI [of _ 0]) (simp add: tar_read_dir_def Let_def dir_ok_def DIRENT_SIZE_def)
next
  case False
  let ?ents = "map (shown dev) (dir_ents dev node n)"
  have len: "length (drop k ?ents) = n - k" by (simp add: tar_ents_def)
  have "em_pos em + int ((n - k) * DIRENT_SIZE) = int (n * DIRENT_SIZE)"
    using assms(5,6) by (simp add: of_nat_diff algebra_simps)
  then have bound: "0 \<le> em_pos em" "em_pos em + int (length (drop k ?ents) * DIRENT_SIZE) < 2 ^ 63"
    using assms(1,2,5) len by (auto simp: dir_ok_def serves_def DIRENT_SIZE_def)
  from emit_each_prefix [OF bound] obtain m where m: "m \<le> n - k"
    "emit_each accepts (drop k ?ents) em
       = em\<lparr>em_pos := em_pos em + int (m * DIRENT_SIZE), em_out := em_out em @ take m (drop k ?ents)\<rparr>"
    "m < n - k \<longrightarrow> \<not> accepts (em_out em @ take m (drop k ?ents)) (drop k ?ents ! m)"
    unfolding len by blast
  have "k < n" using False assms(6) by simp
  from read_dir_run [OF assms(1-5) this, of accepts] m assms(5,6) show ?thesis
    by (intro exI [of _ m]) (auto simp: Let_def drop_map algebra_simps tar_ents_def)
qed

theorem tar_read_dir_resumable_witness:
  "\<exists>m \<le> 1 - 0. let ents = map (shown img_dev) (dir_ents img_dev (demo_file 0 32) 1) in
     tar_read_dir img_tar (\<lambda>_ _. True) (demo_file 0 32) \<lparr>em_pos = 0, em_out = []\<rparr>
       = (Inr (), \<lparr>em_pos = int ((0 + m) * DIRENT_SIZE), em_out = take m ents\<rparr>) \<and> \<not> 0 + m < 1"
  using tar_read_dir_resumable [OF img_serves img_dir_ok, of "\<lparr>em_pos = 0, em_out = []\<rparr>" 0 "\<lambda>_ _. True"]
  by (simp add: img_ents name_ok_def img_tar_def Let_def)


section \<open>Mounting and reading inodes\<close>

lemma tar_fill_super_bounds:
  assumes "tar_fill_super scount mb ok cache = Inr d" "scount * SECTOR_SIZE < 2 ^ 64"
  shows "tar_cache d = cache" "data_size d = scount * SECTOR_SIZE"
    "inode_table_offset d + inode_count d * INODE_SIZE \<le> data_size d"
proof -
  from assms obtain table_end where "table_end \<le> data_size d"
    "Option.bind (checked_mul (inode_count d) INODE_SIZE) (\<lambda>s. checked_add s (inode_table_offset d)) = Some table_end"
    and "tar_cache d = cache" "data_size d = scount * SECTOR_SIZE mod 2 ^ 64"
    by (auto simp: tar_fill_super_def Let_def split: if_splits option.splits)
  with assms(2) show "tar_cache d = cache" "data_size d = scount * SECTOR_SIZE"
    "inode_table_offset d + inode_count d * INODE_SIZE \<le> data_size d"
    by (auto simp: bind_eq_Some_conv)
qed

lemma inode_in_table:
  assumes "inode_table_offset d + inode_count d * INODE_SIZE \<le> lim" "1 \<le> ino" "ino \<le> inode_count d"
  shows "inode_table_offset d + (ino - 1) * INODE_SIZE + INODE_SIZE \<le> lim"
proof -
  have "(ino - 1) * INODE_SIZE + INODE_SIZE = ino * INODE_SIZE" using assms(2) by (cases ino) auto
  also have "\<dots> \<le> inode_count d * INODE_SIZE" using assms(3) by (rule mult_le_mono1)
  finally show ?thesis using assms(1) by simp
qed

lemma record_in_page:
  assumes "INODE_SIZE dvd a"
  shows "a mod PAGE_SIZE + INODE_SIZE \<le> PAGE_SIZE" "a mod PAGE_SIZE mod 8 = 0"
proof -
  have "INODE_SIZE dvd PAGE_SIZE" by (simp add: tar_sizes)
  then have "INODE_SIZE dvd a mod PAGE_SIZE" using assms by (intro dvd_mod)
  then obtain k where k: "a mod PAGE_SIZE = INODE_SIZE * k" ..
  moreover have "a mod PAGE_SIZE < PAGE_SIZE" by (simp add: PAGE_SIZE_def)
  ultimately show "a mod PAGE_SIZE + INODE_SIZE \<le> PAGE_SIZE" by (simp add: tar_sizes)
  show "a mod PAGE_SIZE mod 8 = 0" unfolding k by (simp add: INODE_SIZE_def mult.commute)
qed


text \<open>A device whose last sector is a header for one inode in its first record.\<close>

definition hdr_dev :: "nat \<Rightarrow> byte" where
  "hdr_dev i = (if i = 1 then 0x81 else if i = 7688 then 1 else 0)"

definition hdr_cache :: page_cache where
  "hdr_cache i = (if i < 2 then Ptr (page_of hdr_dev i) else ErrPtr (- 5))"

lemma hdr_serves: "serves hdr_dev 8192 hdr_cache"
  by (simp add: serves_def hdr_cache_def PAGE_SIZE_def)

lemma hdr_mount: "tar_fill_super 16 id True hdr_cache
    = Inr \<lparr>data_size = 8192, inode_table_offset = 0, inode_count = 1, tar_cache = hdr_cache\<rparr>"
proof -
  obtain f where f: "mapped_folio hdr_cache (int 7680) = Inr f"
    "from_bytes 16 8 (mf_data f) 0 = Some (map hdr_dev [7680 ..< 7680 + 16])"
    using mp.read_struct [OF hdr_serves, of 7680 16 8] by (auto simp: PAGE_SIZE_def)
  have "map hdr_dev [7680 ..< 7680 + 16] = [0, 0, 0, 0, 0, 0, 0, 0, 1, 0, 0, 0, 0, 0, 0, 0]"
    by (simp add: upt_rec hdr_dev_def)
  with f have "tar_header_of (map hdr_dev [7680 ..< 7680 + 16])
      = \<lparr>th_inode_table_offset = 0, th_inode_count = 1\<rparr>"
    by (simp add: tar_header_of_def field_def)
  with f show ?thesis
    by (simp add: tar_fill_super_def SECTOR_SIZE_def TARFS_BSIZE_def INODE_SIZE_def checked_mul_def
        checked_add_def usize_max_def)
qed


end
