(* ===== verification/Ext2_Fs.thy ===== *)
theory Ext2_Fs
  imports Vfs_Model
begin

unbundle bit_operations_syntax

text \<open>
  The read-only ext2 file system of \<open>samples/ext2\<close>: mounting, inodes,
  the tree of block pointers of a file, name lookup, directory listing and the
  mapping of file offsets to the device.  On-disk integers are read at their
  offsets; \<open>u32\<close> arithmetic wraps where the code does not check it, a
  division by zero or an index out of range is a panic.
\<close>

section \<open>On-disk structures\<close>

definition EXT2_SUPER_MAGIC :: nat where "EXT2_SUPER_MAGIC = 0xEF53"
definition EXT2_MAX_BLOCK_LOG_SIZE :: nat where "EXT2_MAX_BLOCK_LOG_SIZE = 16"
definition EXT2_GOOD_OLD_REV :: nat where "EXT2_GOOD_OLD_REV = 0"
definition EXT2_DYNAMIC_REV :: nat where "EXT2_DYNAMIC_REV = 1"
definition EXT2_GOOD_OLD_INODE_SIZE :: nat where "EXT2_GOOD_OLD_INODE_SIZE = 128"
definition EXT2_ROOT_INO :: nat where "EXT2_ROOT_INO = 2"
definition EXT2_GOOD_OLD_FIRST_INO :: nat where "EXT2_GOOD_OLD_FIRST_INO = 11"
definition EXT2_FEATURE_INCOMPAT_FILETYPE :: nat where "EXT2_FEATURE_INCOMPAT_FILETYPE = 2"
definition EXT2_NDIR_BLOCKS :: nat where "EXT2_NDIR_BLOCKS = 12"
definition EXT2_IND_BLOCK :: nat where "EXT2_IND_BLOCK = EXT2_NDIR_BLOCKS"
definition EXT2_DIND_BLOCK :: nat where "EXT2_DIND_BLOCK = EXT2_IND_BLOCK + 1"
definition EXT2_TIND_BLOCK :: nat where "EXT2_TIND_BLOCK = EXT2_DIND_BLOCK + 1"
definition EXT2_N_BLOCKS :: nat where "EXT2_N_BLOCKS = EXT2_TIND_BLOCK + 1"
definition SB_OFFSET :: nat where "SB_OFFSET = 1024"

lemmas ext2_consts = EXT2_SUPER_MAGIC_def EXT2_MAX_BLOCK_LOG_SIZE_def EXT2_GOOD_OLD_REV_def
  EXT2_DYNAMIC_REV_def EXT2_GOOD_OLD_INODE_SIZE_def EXT2_ROOT_INO_def EXT2_GOOD_OLD_FIRST_INO_def
  EXT2_FEATURE_INCOMPAT_FILETYPE_def SB_OFFSET_def

lemmas ext2_blocks = EXT2_NDIR_BLOCKS_def EXT2_IND_BLOCK_def EXT2_DIND_BLOCK_def
  EXT2_TIND_BLOCK_def EXT2_N_BLOCKS_def

text \<open>The fields of the super-block that mounting reads.\<close>

record super =
  s_inodes_count :: nat
  s_blocks_count :: nat
  s_first_data_block :: nat
  s_log_block_size :: nat
  s_blocks_per_group :: nat
  s_inodes_per_group :: nat
  s_magic :: nat
  s_rev_level :: nat
  s_first_ino :: nat
  s_inode_size :: nat
  s_feature_incompat :: nat
  s_feature_ro_compat :: nat

definition super_of :: "byte list \<Rightarrow> super" where
  "super_of bs = \<lparr>s_inodes_count = field 0 4 bs, s_blocks_count = field 4 4 bs,
     s_first_data_block = field 20 4 bs, s_log_block_size = field 24 4 bs,
     s_blocks_per_group = field 32 4 bs, s_inodes_per_group = field 40 4 bs,
     s_magic = field 56 2 bs, s_rev_level = field 76 4 bs, s_first_ino = field 84 4 bs,
     s_inode_size = field 88 2 bs, s_feature_incompat = field 96 4 bs,
     s_feature_ro_compat = field 100 4 bs\<rparr>"

record group_desc =
  g_block_bitmap :: nat
  g_inode_bitmap :: nat
  g_inode_table :: nat

definition group_of :: "byte list \<Rightarrow> group_desc" where
  "group_of bs = \<lparr>g_block_bitmap = field 0 4 bs, g_inode_bitmap = field 4 4 bs,
     g_inode_table = field 8 4 bs\<rparr>"

record ext2_inode =
  n_mode :: nat
  n_uid :: nat
  n_size :: nat
  n_atime :: nat
  n_ctime :: nat
  n_mtime :: nat
  n_dtime :: nat
  n_gid :: nat
  n_links_count :: nat
  n_blocks :: nat
  n_block :: "nat list"
  n_dir_acl :: nat
  n_uid_high :: nat
  n_gid_high :: nat

definition ext2_inode_of :: "byte list \<Rightarrow> ext2_inode" where
  "ext2_inode_of bs = \<lparr>n_mode = field 0 2 bs, n_uid = field 2 2 bs, n_size = field 4 4 bs,
     n_atime = field 8 4 bs, n_ctime = field 12 4 bs, n_mtime = field 16 4 bs,
     n_dtime = field 20 4 bs, n_gid = field 24 2 bs, n_links_count = field 26 2 bs,
     n_blocks = field 28 4 bs, n_block = map (\<lambda>i. field (40 + 4 * i) 4 bs) [0..<15],
     n_dir_acl = field 108 4 bs, n_uid_high = field 120 2 bs, n_gid_high = field 122 2 bs\<rparr>"

record ext2_dirent =
  de_inode :: nat
  de_rec_len :: nat
  de_name_len :: nat
  de_file_type :: nat

definition ext2_dirent_of :: "byte list \<Rightarrow> ext2_dirent" where
  "ext2_dirent_of bs = \<lparr>de_inode = field 0 4 bs, de_rec_len = field 4 2 bs,
     de_name_len = field 6 1 bs, de_file_type = field 7 1 bs\<rparr>"

definition DE_SIZE :: nat where
  "DE_SIZE = 8"


section \<open>State\<close>

record ext2_fs =
  e_cache :: page_cache
  e_block_size :: nat
  e_has_file_type :: bool
  e_inodes_per_block :: nat
  e_inodes_per_group :: nat
  e_inode_count :: nat
  e_inode_size :: nat
  e_first_ino :: nat
  e_groups :: "group_desc list"

text \<open>The per-inode data: the block pointers.\<close>

type_synonym e_inode = "nat list inode"


section \<open>Block pointers\<close>

fun trailing_zeros :: "nat \<Rightarrow> nat" where
  "trailing_zeros n = (if n = 0 then 64 else if even n then Suc (trailing_zeros (n div 2)) else 0)"

declare trailing_zeros.simps [simp del]

definition offsets :: "nat \<Rightarrow> nat \<Rightarrow> nat list option" where
  "offsets block_size block =
     (let ptrs = block_size div 4;
          ptr_mask = ptrs - 1;
          ptr_bits = trailing_zeros ptrs
      in if block < EXT2_NDIR_BLOCKS then Some [block mod 2 ^ 32]
         else let block1 = block - EXT2_NDIR_BLOCKS
         in if block1 < ptrs then Some [EXT2_IND_BLOCK, block1 mod 2 ^ 32]
         else let block2 = block1 - ptrs
         in if block2 < push_bit (2 * ptr_bits) 1
            then Some [EXT2_DIND_BLOCK, drop_bit ptr_bits block2 mod 2 ^ 32,
                       (block2 AND ptr_mask) mod 2 ^ 32]
         else let block3 = block2 - ptrs * ptrs
         in if block3 < ptrs * ptrs * ptrs
            then Some [EXT2_TIND_BLOCK, drop_bit (2 * ptr_bits) block3 mod 2 ^ 32,
                       (drop_bit ptr_bits block3 AND ptr_mask) mod 2 ^ 32,
                       (block3 AND ptr_mask) mod 2 ^ 32]
         else None)"

text \<open>The walk from a block pointer down the remaining indices.\<close>

fun walk :: "ext2_fs \<Rightarrow> nat \<Rightarrow> nat list \<Rightarrow> error fault + nat" where
  "walk s boffset [] = Inr boffset"
| "walk s boffset (i # is) =
     (case mapped_folio (e_cache s) (wrap_i64 (int boffset * int (e_block_size s))) of
        Inl e \<Rightarrow> Inl (Fail e)
      | Inr b \<Rightarrow>
          (case from_bytes_to_slice 4 4 (mf_data b) of
             None \<Rightarrow> Inl (Fail EIO)
           | Some table \<Rightarrow>
               if i < length table then walk s (le_value (table ! i)) is else Inl Panic))"

definition offset_to_block :: "ext2_fs \<Rightarrow> nat list \<Rightarrow> int \<Rightarrow> error fault + nat" where
  "offset_to_block s data_blocks block =
     (case offsets (e_block_size s) (nat (block mod 2 ^ 64)) of
        None \<Rightarrow> Inl (Fail EIO)
      | Some boffsets \<Rightarrow>
          if hd boffsets < length data_blocks
          then walk s (data_blocks ! hd boffsets) (tl boffsets) else Inl Panic)"


section \<open>Mounting\<close>

text \<open>The descriptors must lie in their group; the loop is over the index of the group.\<close>

definition group_range :: "super \<Rightarrow> nat \<Rightarrow> nat \<Rightarrow> nat \<times> nat" where
  "group_range s len i =
     (let first = (i mod 2 ^ 32 * s_blocks_per_group s + s_first_data_block s) mod 2 ^ 32
      in (first, if i = len - 1 then s_blocks_count s
                 else (first + s_blocks_per_group s + (2 ^ 32 - 1)) mod 2 ^ 32))"

definition desc_in_range :: "nat \<times> nat \<Rightarrow> group_desc \<Rightarrow> bool" where
  "desc_in_range r g \<longleftrightarrow>
     \<not> (g_block_bitmap g < fst r \<or> g_block_bitmap g > snd r) \<and>
     \<not> (g_inode_bitmap g < fst r \<or> g_inode_bitmap g > snd r) \<and>
     \<not> (g_inode_table g < fst r \<or> g_inode_table g > snd r)"

definition check_descriptors :: "super \<Rightarrow> group_desc list \<Rightarrow> error + unit" where
  "check_descriptors s groups =
     (if \<forall>i < length groups. desc_in_range (group_range s (length groups) i) (groups ! i)
      then Inr () else Inl EINVAL)"

text \<open>
  The loop that reads the group descriptors.  The vector was reserved for all
  of them, so pushing does not fail.
\<close>

function read_groups :: "page_cache \<Rightarrow> int \<Rightarrow> nat \<Rightarrow> group_desc list \<Rightarrow> error + group_desc list" where
  "read_groups cache gd_offset remain groups =
     (if remain > 0
      then case mapped_folio cache gd_offset of
             Inl e \<Rightarrow> Inl e
           | Inr b \<Rightarrow>
               (case from_bytes_to_slice 32 4 (mf_data b) of
                  None \<Rightarrow> Inl EIO
                | Some descs \<Rightarrow>
                    read_groups cache (wrap_i64 (gd_offset + int (mf_len b)))
                      (remain - min remain (length descs))
                      (groups @ map group_of (take remain descs)))
      else Inr groups)"
  by pat_completeness auto

lemma folio_records_nonempty:
  assumes "mapped_folio cache off = Inr b" "from_bytes_to_slice sz align (mf_data b) = Some rs"
  shows "0 < length rs"
  using from_bytes_to_slice_Some(4) [OF assms(2)] mapped_folio_len [OF assms(1)] by (cases rs) auto

termination read_groups
  by (relation "measure (\<lambda>(cache, off, n, gs). n)") (auto dest: folio_records_nonempty)

declare read_groups.simps [simp del]

fun pow2 :: "nat \<Rightarrow> bool" where
  "pow2 n = (if n = 0 then False else if n = 1 then True else even n \<and> pow2 (n div 2))"

declare pow2.simps [simp del]

text \<open>
  The block size the kernel sets for a requested minimum, whether the mount is
  read-only, and whether the two allocations succeed, are parameters.  The
  steps of mounting: the features, the block size, the layout of inodes, the
  number of groups.
\<close>

definition super_features :: "bool \<Rightarrow> super \<Rightarrow> error + bool" where
  "super_features rdonly s =
     (if s_rev_level s \<ge> EXT2_DYNAMIC_REV
      then if s_feature_incompat s AND (2 ^ 32 - 1 - EXT2_FEATURE_INCOMPAT_FILETYPE) \<noteq> 0 then Inl EINVAL
           else if \<not> rdonly \<and> s_feature_ro_compat s \<noteq> 0 then Inl EINVAL
           else Inr (s_feature_incompat s AND EXT2_FEATURE_INCOMPAT_FILETYPE \<noteq> 0)
      else Inr False)"

definition super_block_size :: "(int \<Rightarrow> int) \<Rightarrow> super \<Rightarrow> error + nat" where
  "super_block_size min_blocksize s =
     (if s_log_block_size s > EXT2_MAX_BLOCK_LOG_SIZE - 10 then Inl EINVAL
      else let block_size = push_bit (s_log_block_size s) 1024
           in if min_blocksize (int block_size) \<noteq> int block_size then Inl ENXIO else Inr block_size)"

definition super_inodes :: "super \<Rightarrow> nat \<Rightarrow> error + (nat \<times> nat \<times> nat)" where
  "super_inodes s block_size =
     rbind (if s_rev_level s = EXT2_GOOD_OLD_REV
            then Inr (EXT2_GOOD_OLD_INODE_SIZE, EXT2_GOOD_OLD_FIRST_INO)
            else if s_inode_size s < EXT2_GOOD_OLD_INODE_SIZE \<or> \<not> pow2 (s_inode_size s)
                    \<or> s_inode_size s > block_size then Inl EINVAL
            else Inr (s_inode_size s, s_first_ino s)) (\<lambda>(inode_size, first_ino).
     let inodes_per_block = block_size div inode_size
     in if s_inodes_per_group s = 0 \<or> inodes_per_block = 0 then Inl EINVAL
        else Inr (inode_size, first_ino, inodes_per_block))"

definition group_count :: "super \<Rightarrow> error fault + nat" where
  "group_count s =
     (if s_blocks_per_group s = 0 then Inl Panic
      else Inr (((s_blocks_count s + (2 ^ 32 - s_first_data_block s) + (2 ^ 32 - 1)) mod 2 ^ 32
                   div s_blocks_per_group s + 1) mod 2 ^ 32))"

definition ext2_fill_super ::
  "(int \<Rightarrow> int) \<Rightarrow> bool \<Rightarrow> (nat \<Rightarrow> bool) \<Rightarrow> bool \<Rightarrow> page_cache \<Rightarrow> error fault + ext2_fs" where
  "ext2_fill_super min_blocksize rdonly reserve_ok box_ok cache =
     (if min_blocksize 4096 = 0 then Inl (Fail EINVAL)
      else rbind (lift_fault (mapped_folio cache (int SB_OFFSET))) (\<lambda>mapped.
      rbind (lift_fault (of_option EIO (from_bytes 1024 4 (mf_data mapped) 0))) (\<lambda>bs.
      let s = super_of bs in
      if s_magic s \<noteq> EXT2_SUPER_MAGIC then Inl (Fail EINVAL)
      else rbind (lift_fault (super_features rdonly s)) (\<lambda>has_file_type.
      rbind (lift_fault (super_block_size min_blocksize s)) (\<lambda>block_size.
      rbind (lift_fault (super_inodes s block_size)) (\<lambda>(inode_size, first_ino, inodes_per_block).
      rbind (group_count s) (\<lambda>n.
      if \<not> reserve_ok n then Inl (Fail ENOMEM)
      else rbind (lift_fault (read_groups cache
                   (int ((SB_OFFSET div block_size + 1) * block_size)) n [])) (\<lambda>groups.
      rbind (lift_fault (check_descriptors s groups)) (\<lambda>_.
      if \<not> box_ok then Inl (Fail ENOMEM)
      else Inr \<lparr>e_cache = cache, e_block_size = block_size, e_has_file_type = has_file_type,
                e_inodes_per_block = inodes_per_block, e_inodes_per_group = s_inodes_per_group s,
                e_inode_count = s_inodes_count s, e_inode_size = inode_size,
                e_first_ino = first_ino, e_groups = groups\<rparr>)))))))))"

section \<open>Inodes\<close>

definition decode_dev :: "nat list \<Rightarrow> nat \<times> nat" where
  "decode_dev block =
     (let v = block ! 0
      in if v \<noteq> 0 then (drop_bit 8 v AND 255, v AND 255)
         else let w = block ! 1
              in (drop_bit 8 (w AND 0xfff00), (w AND 0xff) OR (drop_bit 12 w AND 0xfff00)))"

text \<open>
  The type of an inode, the size of the file, and the operation tables set on
  the new inode; \<open>start\<close> is where the inline symlink target is in the
  mapped data.
\<close>

definition ext2_type ::
  "ext2_inode \<Rightarrow> byte list \<Rightarrow> nat \<Rightarrow> new_inode \<Rightarrow> error + (inode_type \<times> int \<times> new_inode)" where
  "ext2_type t data start n =
     (let fmt = n_mode t AND 0xF000; sz = int (n_size t)
      in if fmt = 0x8000
         then Inr (IReg, sz OR wrap_i64 (push_bit 32 (int (n_dir_acl t))),
                   set_fops RegFileOps (set_aops IomapAops n))
         else if fmt = 0x4000
         then Inr (IDir, sz, set_aops IomapAops (set_fops DirFileOps (set_iops DirInodeOps n)))
         else if fmt = 0xA000
         then (if n_blocks t = 0
               then (if start + n_size t > length data \<or> n_size t = 0 then Inl EIO
                     else Inr (ILnk (Some (take (n_size t) (drop start data))), sz, n))
               else Inr (ILnk None, sz, set_aops IomapAops n))
         else if fmt = 0xC000 then Inr (ISock, sz, n)
         else if fmt = 0x1000 then Inr (IFifo, sz, n)
         else if fmt = 0x2000 then Inr (case decode_dev (n_block t) of (a, b) \<Rightarrow> IChr a b, sz, n)
         else if fmt = 0x6000 then Inr (case decode_dev (n_block t) of (a, b) \<Rightarrow> IBlk a b, sz, n)
         else Inl ENOENT)"

definition ext2_params :: "ext2_inode \<Rightarrow> inode_type \<Rightarrow> int \<Rightarrow> nat list inode_params" where
  "ext2_params t typ sz =
     \<lparr>ip_mode = n_mode t AND 0xFFF, ip_typ = typ, ip_size = sz, ip_blocks = n_blocks t,
      ip_nlink = n_links_count t,
      ip_uid = n_uid t OR push_bit 16 (n_uid_high t), ip_gid = n_gid t OR push_bit 16 (n_gid_high t),
      ip_ctime = \<lparr>secs = n_ctime t, nsecs = 0\<rparr>, ip_mtime = \<lparr>secs = n_mtime t, nsecs = 0\<rparr>,
      ip_atime = \<lparr>secs = n_atime t, nsecs = 0\<rparr>, ip_value = n_block t\<rparr>"

text \<open>Reading an inode that is not cached from its place in the table of its group.\<close>

definition read_inode :: "ext2_fs \<Rightarrow> new_inode \<Rightarrow> nat \<Rightarrow> nat \<Rightarrow> error fault + e_inode" where
  "read_inode s new_inode grp offset =
     (if e_inodes_per_block s = 0 then Inl Panic
      else let inode_block = int (g_inode_table (e_groups s ! grp))
                               + int (offset div e_inodes_per_block s);
               off_in_block = offset mod e_inodes_per_block s
      in case mapped_folio (e_cache s) (wrap_i64 (inode_block * int (e_block_size s))) of
           Inl e \<Rightarrow> Inl (Fail e)
         | Inr b \<Rightarrow>
             (case from_bytes 128 4 (mf_data b) (off_in_block * e_inode_size s) of
                None \<Rightarrow> Inl (Fail EIO)
              | Some bs \<Rightarrow>
                  let t = ext2_inode_of bs
                  in if n_links_count t = 0 \<and> (n_mode t = 0 \<or> n_dtime t \<noteq> 0) then Inl (Fail ESTALE)
                     else case ext2_type t (sl_bytes (mf_data b))
                                 (off_in_block * e_inode_size s + 40) new_inode of
                            Inl e \<Rightarrow> Inl (Fail e)
                          | Inr (typ, sz, n) \<Rightarrow> Inr (inode_init n (ext2_params t typ sz))))"

definition ext2_iget ::
  "ext2_fs \<Rightarrow> (nat \<Rightarrow> nat list iget_locked) \<Rightarrow> nat \<Rightarrow> error fault + e_inode" where
  "ext2_iget s iget_locked ino =
     (if (ino \<noteq> EXT2_ROOT_INO \<and> ino < e_first_ino s) \<or> ino > e_inode_count s then Inl (Fail ENOENT)
      else if e_inodes_per_group s = 0 then Inl Panic
      else let idx = (ino + (2 ^ 32 - 1)) mod 2 ^ 32;
               grp = idx div e_inodes_per_group s;
               offset = idx mod e_inodes_per_group s
      in if grp \<ge> length (e_groups s) then Inl (Fail ENOENT)
         else case sb_iget (iget_locked ino) of
                Inl e \<Rightarrow> Inl (Fail e)
              | Inr (Inr cached) \<Rightarrow> Inr cached
              | Inr (Inl new_inode) \<Rightarrow> read_inode s new_inode grp offset)"

definition ext2_init_root ::
  "ext2_fs \<Rightarrow> (nat \<Rightarrow> nat list iget_locked) \<Rightarrow> (e_inode \<Rightarrow> nat) \<Rightarrow> error fault + nat" where
  "ext2_init_root s iget_locked d_make_root =
     rbind (ext2_iget s iget_locked EXT2_ROOT_INO) (\<lambda>node.
       case root_try_new (d_make_root node) of Inl e \<Rightarrow> Inl (Fail e) | Inr r \<Rightarrow> Inr r)"


section \<open>Directories\<close>

text \<open>
  One pass over the entries of a mapped block, from an offset: the inode
  number of the name looked for.
\<close>

function scan_block :: "slice \<Rightarrow> byte list \<Rightarrow> nat \<Rightarrow> error + nat option" where
  "scan_block data name off =
     (if off < length (sl_bytes data) - DE_SIZE
      then case from_bytes DE_SIZE 4 data off of
             None \<Rightarrow> Inl EIO
           | Some bs \<Rightarrow>
               let de = ext2_dirent_of bs; rec_len = de_rec_len de;
                   name_start = off + DE_SIZE; name_len = de_name_len de
               in if rec_len = 0 \<or> off + rec_len > length (sl_bytes data) then Inr None
                  else if name_start + name_len > length (sl_bytes data) then Inr None
                  else if de_inode de \<noteq> 0 \<and> take name_len (drop name_start (sl_bytes data)) = name
                  then Inr (Some (de_inode de))
                  else scan_block data name (off + rec_len)
      else Inr None)"
  by pat_completeness auto
termination
  by (relation "measure (\<lambda>(data, name, off). length (sl_bytes data) - off)") auto

declare scan_block.simps [simp del]

text \<open>The walk over the blocks of a directory; a block size of zero is a division by zero.\<close>

function find_ino :: "ext2_fs \<Rightarrow> e_inode \<Rightarrow> byte list \<Rightarrow> int \<Rightarrow> error fault + nat option" where
  "find_ino s parent name pos =
     (if pos < i_size parent
      then if e_block_size s = 0 then Inl Panic
           else case offset_to_block s (i_data parent) (tdiv pos (int (e_block_size s))) of
             Inl e \<Rightarrow> Inl e
           | Inr boffset \<Rightarrow>
               if boffset = 0 then find_ino s parent name (pos + int (e_block_size s))
               else case mapped_folio (e_cache s) (wrap_i64 (int boffset * int (e_block_size s))) of
                      Inl e \<Rightarrow> Inl (Fail e)
                    | Inr b \<Rightarrow>
                        (case scan_block (mf_data b) name 0 of
                           Inl e \<Rightarrow> Inl (Fail e)
                         | Inr (Some ino) \<Rightarrow> Inr (Some ino)
                         | Inr None \<Rightarrow> find_ino s parent name (pos + int (e_block_size s)))
      else Inr None)"
  by pat_completeness auto
termination
  by (relation "measure (\<lambda>(s, parent, name, pos). nat (i_size parent - pos))") auto

declare find_ino.simps [simp del]

definition ext2_lookup ::
  "ext2_fs \<Rightarrow> (nat \<Rightarrow> nat list iget_locked) \<Rightarrow> nat \<Rightarrow> (e_inode option \<Rightarrow> nat) \<Rightarrow> e_inode \<Rightarrow> byte list
   \<Rightarrow> error fault + nat option" where
  "ext2_lookup s iget_locked sb d_splice_alias parent name =
     rbind (find_ino s parent name 0) (\<lambda>ino.
     rbind (case ino of None \<Rightarrow> Inr None
            | Some i \<Rightarrow> rbind (ext2_iget s iget_locked i) (\<lambda>node. Inr (Some node))) (\<lambda>found.
       case splice_alias sb (map_option (\<lambda>_. sb) found) (d_splice_alias found) of
         Inl e \<Rightarrow> Inl (Fail e) | Inr r \<Rightarrow> Inr r))"

definition ext2_dt :: "bool \<Rightarrow> nat \<Rightarrow> dir_entry_type" where
  "ext2_dt has_file_type ft =
     (if \<not> has_file_type then DtUnknown
      else if ft = 1 then DtReg else if ft = 2 then DtDir else if ft = 7 then DtLnk
      else if ft = 3 then DtChr else if ft = 4 then DtBlk else if ft = 5 then DtFifo
      else if ft = 6 then DtSock else DtUnknown)"

text \<open>Listing a block from an offset; the result says whether the reader is full.\<close>

function list_block :: "bool \<Rightarrow> dir_emit \<Rightarrow> slice \<Rightarrow> nat \<Rightarrow> (emitter, error, bool) op" where
  "list_block ft accepts data off em =
     (if off < length (sl_bytes data) - DE_SIZE
      then case from_bytes DE_SIZE 4 data off of
             None \<Rightarrow> (Inl EIO, em)
           | Some bs \<Rightarrow>
               let de = ext2_dirent_of bs; rec_len = de_rec_len de;
                   name_start = off + DE_SIZE; name_len = de_name_len de
               in if rec_len = 0 \<or> off + rec_len > length (sl_bytes data) then (Inr False, em)
                  else if de_inode de = 0 \<or> name_start + name_len > length (sl_bytes data)
                  then list_block ft accepts data (off + rec_len) em
                  else (case emit accepts (int rec_len)
                               (take name_len (drop name_start (sl_bytes data)), de_inode de,
                                ext2_dt ft (de_file_type de)) em of
                          (True, em') \<Rightarrow> list_block ft accepts data (off + rec_len) em'
                        | (False, em') \<Rightarrow> (Inr True, em'))
      else (Inr False, em))"
  by pat_completeness auto
termination
  by (relation "measure (\<lambda>(ft, accepts, data, off, em). length (sl_bytes data) - off)") auto

declare list_block.simps [simp del]

function list_dir ::
  "ext2_fs \<Rightarrow> dir_emit \<Rightarrow> e_inode \<Rightarrow> int \<Rightarrow> (emitter, error fault, unit) op" where
  "list_dir s accepts node pos em =
     (if pos < i_size node
      then if e_block_size s = 0 then (Inl Panic, em)
           else let block_idx = tdiv pos (int (e_block_size s));
                    block_start = block_idx * int (e_block_size s)
           in case offset_to_block s (i_data node) block_idx of
             Inl e \<Rightarrow> (Inl e, em)
           | Inr boffset \<Rightarrow>
               if boffset = 0 then list_dir s accepts node (pos + int (e_block_size s)) em
               else case mapped_folio (e_cache s) (wrap_i64 (int boffset * int (e_block_size s))) of
                      Inl e \<Rightarrow> (Inl (Fail e), em)
                    | Inr b \<Rightarrow>
                        (case list_block (e_has_file_type s) accepts (mf_data b)
                                (if pos > block_start then nat (pos - block_start) else 0) em of
                           (Inl e, em') \<Rightarrow> (Inl (Fail e), em')
                         | (Inr True, em') \<Rightarrow> (Inr (), em')
                         | (Inr False, em') \<Rightarrow>
                             list_dir s accepts node (block_start + int (e_block_size s)) em')
      else (Inr (), em))"
  by pat_completeness auto

lemma block_advances:
  assumes "0 < bs"
  shows "pos < tdiv pos (int bs) * int bs + int bs"
proof (cases "pos < 0")
  case True
  have "(- pos) div int bs * int bs \<le> - pos"
    using assms div_mult_mod_eq [of "- pos" "int bs"] pos_mod_sign [of "int bs" "- pos"] by linarith
  then show ?thesis using True assms by (simp add: tdiv_def)
next
  case False
  have "pos = pos div int bs * int bs + pos mod int bs" by simp
  moreover have "pos mod int bs < int bs" using assms by simp
  ultimately have "pos < pos div int bs * int bs + int bs" by linarith
  then show ?thesis using False by simp
qed

termination list_dir
proof (relation "measure (\<lambda>(s, accepts, node, pos, em). nat (i_size node - pos))", goal_cases)
  case 1
  then show ?case by simp
next
  case 2
  then show ?case by auto
next
  case (3 s accepts node pos em)
  then show ?case using block_advances [of "e_block_size s" pos] by auto
qed

declare list_dir.simps [simp del]

definition ext2_read_dir ::
  "ext2_fs \<Rightarrow> dir_emit \<Rightarrow> e_inode \<Rightarrow> (emitter, error fault, unit) op" where
  "ext2_read_dir s accepts node em = list_dir s accepts node (em_pos em) em"


section \<open>Mapping file offsets\<close>

definition iomap_begin :: "ext2_fs \<Rightarrow> e_inode \<Rightarrow> int \<Rightarrow> int \<Rightarrow> iomap \<Rightarrow> (error fault + unit) \<times> iomap" where
  "iomap_begin s node pos len map0 =
     (if pos \<ge> i_size node
      then (Inr (), set_type Hole (set_flags MERGED (set_length (nat (len mod 2 ^ 64)) (set_offset pos map0))))
      else if e_block_size s = 0 then (Inl Panic, map0)
      else let block = tdiv pos (int (e_block_size s))
      in case offset_to_block s (i_data node) block of
           Inl e \<Rightarrow> (Inl e, map0)
         | Inr boffset \<Rightarrow>
             (Inr (), set_addr (boffset * e_block_size s mod 2 ^ 64) (set_bdev (set_type Mapped
                (set_flags MERGED (set_length (e_block_size s)
                   (set_offset (block * int (e_block_size s)) map0)))))))"


section \<open>Properties of the tree of block pointers\<close>

lemma trailing_zeros_pow2 [simp]: "trailing_zeros (2 ^ b) = b"
proof (induction b)
  case 0
  show ?case by (simp add: trailing_zeros.simps)
next
  case (Suc b)
  then show ?case by (subst trailing_zeros.simps) simp
qed

lemma and_low_bits: "(x :: nat) AND (2 ^ b - 1) = x mod 2 ^ b"
  by (metis mask_eq_exp_minus_1 take_bit_eq_mask take_bit_eq_mod)

text \<open>
  The block a path of indices stands for: the direct blocks first, then those
  below the single, double and triple indirect block.
\<close>

fun path_block :: "nat \<Rightarrow> nat list \<Rightarrow> nat" where
  "path_block p [i] = i"
| "path_block p [_, i] = 12 + i"
| "path_block p [_, i, j] = 12 + p + (i * p + j)"
| "path_block p [_, i, j, k] = 12 + p + p * p + ((i * p + j) * p + k)"
| "path_block p _ = 0"

definition path_ok :: "nat \<Rightarrow> nat list \<Rightarrow> bool" where
  "path_ok p path \<longleftrightarrow> path \<noteq> [] \<and> length path \<le> 4 \<and> (\<forall>i \<in> set (tl path). i < p)
     \<and> (if length path = 1 then hd path < 12 else hd path = 10 + length path)"

definition block_limit :: "nat \<Rightarrow> nat" where
  "block_limit p = 12 + p + p * p + p * p * p"

lemma offsets_eq:
  fixes b block :: nat
  assumes "b \<le> 14"
  defines "p \<equiv> 2 ^ b"
  shows "offsets (4 * p) block =
    (if block < 12 then Some [block]
     else if block - 12 < p then Some [12, block - 12]
     else if block - 12 - p < p * p
     then Some [13, (block - 12 - p) div p, (block - 12 - p) mod p]
     else if block - 12 - p - p * p < p * p * p
     then let x = block - 12 - p - p * p in Some [14, x div (p * p), x div p mod p, x mod p]
     else None)"
proof -
  have small: "p \<le> 2 ^ 14" unfolding p_def using assms(1) by (intro power_increasing) auto
  then have u32: "x < p \<Longrightarrow> x mod 2 ^ 32 = x" for x by simp
  have pp: "push_bit (2 * b) 1 = p * p" "drop_bit (2 * b) x = x div (p * p)"
    "drop_bit b x = x div p" "x AND (p - 1) = x mod p" for x :: nat
    by (simp_all add: p_def push_bit_eq_mult drop_bit_eq_div and_low_bits
        and_low_bits [unfolded One_nat_def] power_add [symmetric] mult_2)
  have p0: "0 < p" by (simp add: p_def)
  have d2: "x < p * p \<Longrightarrow> x div p < p" for x using less_mult_imp_div_less [of x p p] by simp
  have d3: "x < p * p * p \<Longrightarrow> x div (p * p) < p" for x
    using less_mult_imp_div_less [of x p "p * p"] by (simp add: mult.assoc)
  have tz: "trailing_zeros p = b" by (simp add: p_def)
  have m: "x mod p < p" for x using p0 by simp
  have e: "(4 * p) div 4 = p" by simp
  show ?thesis
    unfolding offsets_def Let_def e tz pp ext2_blocks
    using u32 [OF d2] u32 [OF d3] u32 [OF m] u32 by (auto simp: Let_def)
qed

lemma offsets_path:
  fixes b block :: nat
  assumes "b \<le> 14" "offsets (4 * 2 ^ b) block = Some path"
  shows "path_ok (2 ^ b) path \<and> path_block (2 ^ b) path = block"
proof -
  let ?p = "2 ^ b :: nat"
  have d2: "x < ?p * ?p \<Longrightarrow> x div ?p < ?p" for x
    using less_mult_imp_div_less [of x ?p ?p] by simp
  have d3: "x < ?p * ?p * ?p \<Longrightarrow> x div (?p * ?p) < ?p" for x
    using less_mult_imp_div_less [of x ?p "?p * ?p"] by (simp add: mult.assoc)
  have join: "(x div (?p * ?p) * ?p + x div ?p mod ?p) * ?p + x mod ?p = x" for x
  proof -
    have "x div (?p * ?p) * ?p + x div ?p mod ?p = x div ?p"
      by (simp only: div_mult2_eq div_mult_mod_eq)
    then show ?thesis by (simp only: div_mult_mod_eq)
  qed
  show ?thesis
    using assms(2) unfolding offsets_eq [OF assms(1)]
    by (auto simp: path_ok_def Let_def join d2 d3 div_mult_mod_eq split: if_splits)
qed

text \<open>
  C15. The path of indices computed for a block of a file leads to exactly that
  block: it has the depth its first index says, every further index is a valid
  index of a pointer block, and reading it back gives the block, so no two
  blocks share a path.  Precisely the blocks past the triple indirect ones
  have none.
\<close>

theorem offsets_faithful:
  fixes b block :: nat
  assumes "b \<le> 14"
  shows "(\<forall>path. offsets (4 * 2 ^ b) block = Some path \<longrightarrow>
            path_ok (2 ^ b) path \<and> path_block (2 ^ b) path = block)
    \<and> (offsets (4 * 2 ^ b) block = None \<longleftrightarrow> block_limit (2 ^ b) \<le> block)"
proof -
  have "offsets (4 * 2 ^ b) block = None \<longleftrightarrow> block_limit (2 ^ b) \<le> block"
    unfolding offsets_eq [OF assms] block_limit_def by (auto simp: Let_def)
  then show ?thesis using offsets_path [OF assms] by blast
qed

theorem offsets_faithful_witness:
  "path_ok 256 [14, 0, 16, 100] \<and> path_block 256 [14, 0, 16, 100] = 70000"
proof -
  have "offsets (4 * 2 ^ 8) 70000 = Some [14, 0, 16, 100]"
    using offsets_eq [of 8 70000] by simp
  then show ?thesis using offsets_faithful [of 8 70000] by simp
qed


section \<open>No image panics the kernel once it is mounted\<close>

text \<open>What a successful mount establishes of the parameters of the file system.\<close>

definition ext2_ok :: "ext2_fs \<Rightarrow> bool" where
  "ext2_ok s \<longleftrightarrow> (\<exists>k \<le> 6. e_block_size s = 1024 * 2 ^ k) \<and> 0 < e_inodes_per_block s
     \<and> 0 < e_inodes_per_group s \<and> 128 \<le> e_inode_size s
     \<and> e_inodes_per_block s * e_inode_size s \<le> e_block_size s"

text \<open>The block pointers of an inode: fifteen, of 32 bits.\<close>

definition blocks_ok :: "nat list \<Rightarrow> bool" where
  "blocks_ok bs \<longleftrightarrow> length bs = 15 \<and> (\<forall>x \<in> set bs. x < 2 ^ 32)"

lemma super_block_size_ok:
  assumes "super_block_size mb s = Inr bs"
  shows "\<exists>k \<le> 6. bs = 1024 * 2 ^ k"
  using assms
  by (auto simp: super_block_size_def Let_def ext2_consts push_bit_eq_mult split: if_splits)

lemma super_inodes_ok:
  assumes "super_inodes s bs = Inr (inode_size, first_ino, ipb)"
  shows "0 < ipb" "128 \<le> inode_size" "ipb * inode_size \<le> bs" "0 < s_inodes_per_group s"
  using assms by (auto simp: super_inodes_def Let_def ext2_consts split: if_splits)

lemma ext2_fill_super_ok:
  assumes "ext2_fill_super mb rd reserve_ok box_ok cache = Inr s"
  shows "ext2_ok s"
proof -
  from assms obtain sup bs isz fi ipb where
    "super_block_size mb sup = Inr bs" "super_inodes sup bs = Inr (isz, fi, ipb)"
    "e_block_size s = bs" "e_inodes_per_block s = ipb" "e_inode_size s = isz"
    "e_inodes_per_group s = s_inodes_per_group sup"
    by (auto simp: ext2_fill_super_def Let_def split: if_splits)
  then show ?thesis
    using super_block_size_ok [of mb sup bs] super_inodes_ok [of sup bs isz fi ipb]
    by (simp add: ext2_ok_def)
qed

lemma block_in_page:
  fixes a bs :: nat
  assumes "bs dvd a" "bs dvd PAGE_SIZE"
  shows "bs \<le> PAGE_SIZE - a mod PAGE_SIZE"
proof -
  have "bs dvd PAGE_SIZE - a mod PAGE_SIZE" using assms by (intro dvd_diff_nat dvd_mod)
  then show ?thesis using page_room [of a] by (rule dvd_imp_le)
qed

lemma walk_no_panic:
  assumes "e_block_size s = 4 * 2 ^ b" "b \<le> 10"
  shows "boff < 2 ^ 32 \<Longrightarrow> \<forall>i \<in> set is. i < 2 ^ b \<Longrightarrow> walk s boff is \<noteq> Inl Panic"
proof (induction "is" arbitrary: boff)
  case (Cons i "is")
  let ?bs = "e_block_size s"
  have bs: "?bs \<le> 4096" "?bs dvd PAGE_SIZE"
  proof -
    have "(2 :: nat) ^ b \<le> 2 ^ 10" using assms(2) by (intro power_increasing) auto
    then show "?bs \<le> 4096" unfolding assms(1) by simp
    have "(2 :: nat) ^ b dvd 2 ^ 10" using assms(2) by (rule le_imp_power_dvd)
    then show "?bs dvd PAGE_SIZE" unfolding assms(1) PAGE_SIZE_def using mult_dvd_mono [of 4 4] by fastforce
  qed
  have small: "boff * ?bs < 2 ^ 63"
  proof -
    have "boff * ?bs \<le> 2 ^ 32 * 4096" using Cons.prems(1) bs(1) by (intro mult_mono) auto
    then show ?thesis by simp
  qed
  then have a: "wrap_i64 (int boff * int ?bs) = int (boff * ?bs)"
    by (simp add: in_i64_def del: of_nat_mult flip: of_nat_mult)
  show ?case
  proof (cases "mapped_folio (e_cache s) (int (boff * ?bs))")
    case (Inl e)
    then show ?thesis using a by simp
  next
    case (Inr f)
    have len: "mf_len f = PAGE_SIZE - boff * ?bs mod PAGE_SIZE"
      using mapped_folio_window [OF Inr] by simp
    show ?thesis
    proof (cases "from_bytes_to_slice 4 4 (mf_data f)")
      case None
      then show ?thesis using Inr a by simp
    next
      case (Some table)
      have "length table * 4 = mf_len f" using from_bytes_to_slice_Some(4) [OF Some] by simp
      moreover have "?bs \<le> mf_len f" unfolding len using bs(2) by (intro block_in_page) simp_all
      ultimately have "2 ^ b \<le> length table" using assms(1) by simp
      then have i: "i < length table" using Cons.prems(2) by auto
      have "length (table ! i) = 4" using from_bytes_to_slice_Some(2) [OF Some] i by simp
      then have "le_value (table ! i) < 2 ^ 32" using le_value_bound [of "table ! i"] by simp
      with Cons Some Inr a i show ?thesis by simp
    qed
  qed
qed simp


lemma ext2_ok_block_size:
  assumes "ext2_ok s" "e_block_size s \<le> 4096"
  obtains b where "e_block_size s = 4 * 2 ^ b" "b \<le> 10"
proof -
  obtain k where k: "e_block_size s = 1024 * 2 ^ k" using assms(1) by (auto simp: ext2_ok_def)
  then have "(2 :: nat) ^ k \<le> 2 ^ 2" using assms(2) by simp
  then have "k \<le> 2" by (rule power_le_imp_le_exp [rotated]) simp
  moreover have "e_block_size s = 4 * 2 ^ (8 + k)" using k by (simp add: power_add)
  ultimately show ?thesis by (intro that [of "8 + k"]) auto
qed

lemma offset_to_block_no_panic:
  assumes "ext2_ok s" "e_block_size s \<le> 4096" "blocks_ok blocks"
  shows "offset_to_block s blocks blk \<noteq> Inl Panic"
proof -
  obtain b where b: "e_block_size s = 4 * 2 ^ b" "b \<le> 10"
    using ext2_ok_block_size [OF assms(1,2)] .
  show ?thesis
  proof (cases "offsets (e_block_size s) (nat (blk mod 2 ^ 64))")
    case None
    then show ?thesis by (simp add: offset_to_block_def)
  next
    case (Some path)
    then have path: "path_ok (2 ^ b) path" using offsets_path [of b _ path] b by simp
    then have hd: "hd path < length blocks"
      using assms(3) by (auto simp: path_ok_def blocks_ok_def split: if_splits)
    then have "blocks ! hd path < 2 ^ 32" using assms(3) nth_mem by (simp add: blocks_ok_def)
    moreover have "\<forall>i \<in> set (tl path). i < 2 ^ b" using path by (simp add: path_ok_def)
    ultimately show ?thesis using Some hd walk_no_panic [OF b] by (simp add: offset_to_block_def)
  qed
qed

lemma block_size_pos: "ext2_ok s \<Longrightarrow> e_block_size s \<noteq> 0"
  by (auto simp: ext2_ok_def)

lemma find_ino_no_panic:
  assumes "ext2_ok s" "e_block_size s \<le> 4096" "blocks_ok (i_data node)"
  shows "find_ino s node name pos \<noteq> Inl Panic"
  using assms
proof (induction s node name pos rule: find_ino.induct)
  case (1 s node name pos)
  note step = "1.prems" block_size_pos [OF "1.prems"(1)] offset_to_block_no_panic [OF "1.prems"]
  show ?case
    by (subst find_ino.simps)
      (use step "1.IH" in \<open>auto split: sum.splits option.splits\<close>)
qed

lemma list_dir_no_panic:
  assumes "ext2_ok s" "e_block_size s \<le> 4096" "blocks_ok (i_data node)"
  shows "fst (list_dir s accepts node pos em) \<noteq> Inl Panic"
  using assms
proof (induction s accepts node pos em rule: list_dir.induct)
  case (1 s accepts node pos em)
  note step = "1.prems" block_size_pos [OF "1.prems"(1)] offset_to_block_no_panic [OF "1.prems"]
  show ?case
    by (subst list_dir.simps)
      (use step "1.IH" in \<open>auto simp: Let_def split: sum.splits prod.splits bool.splits\<close>)
qed

lemma read_inode_no_panic: "ext2_ok s \<Longrightarrow> read_inode s n grp off \<noteq> Inl Panic"
  by (auto simp: read_inode_def ext2_ok_def Let_def split: sum.splits option.splits)

lemma ext2_iget_no_panic: "ext2_ok s \<Longrightarrow> ext2_iget s il ino \<noteq> Inl Panic"
  using read_inode_no_panic [of s]
  by (auto simp: ext2_iget_def ext2_ok_def Let_def split: sum.splits)

lemma inode_init_data [simp]: "i_data (inode_init n p) = ip_value p"
  by (simp add: inode_init_def Let_def split: inode_type.splits)

lemma ext2_iget_blocks_ok:
  assumes "il ino = IgetNew" "ext2_iget s il ino = Inr node"
  shows "blocks_ok (i_data node)"
proof -
  from assms obtain bs ty sz n where "node = inode_init n (ext2_params (ext2_inode_of bs) ty sz)"
    by (auto simp: ext2_iget_def sb_iget_def read_inode_def Let_def split: if_splits sum.splits option.splits)
  moreover have "field off 4 bs < 2 ^ 32" for off using field_bound [of off 4 bs] by simp
  ultimately show ?thesis by (auto simp: blocks_ok_def ext2_params_def ext2_inode_of_def)
qed



text \<open>A small image: one group of 64 blocks of 1024 bytes with 16 inodes.\<close>

definition e2_dev :: "nat \<Rightarrow> byte" where
  "e2_dev i = (if i = 1024 then 16 else if i = 1028 then 64 else if i = 1044 then 1
     else if i = 1056 then 64 else if i = 1064 then 16 else if i = 1080 then 0x53
     else if i = 1081 then 0xEF else if i = 2048 then 3 else if i = 2052 then 4
     else if i = 2056 then 5 else 0)"

definition e2_cache :: page_cache where
  "e2_cache i = (if i < 16 then Ptr (page_of e2_dev i) else ErrPtr (- 5))"

lemma e2_serves: "serves e2_dev 65536 e2_cache"
  by (simp add: serves_def e2_cache_def PAGE_SIZE_def)

lemma field_map_upt: "off + n \<le> k \<Longrightarrow> field off n (map dev [a ..< a + k]) = le_value (map dev [a + off ..< a + off + n])"
  by (simp add: field_def take_map drop_map)

lemma e2_super: "super_of (map e2_dev [1024 ..< 1024 + 1024]) =
   \<lparr>s_inodes_count = 16, s_blocks_count = 64, s_first_data_block = 1, s_log_block_size = 0,
    s_blocks_per_group = 64, s_inodes_per_group = 16, s_magic = 0xEF53, s_rev_level = 0,
    s_first_ino = 0, s_inode_size = 0, s_feature_incompat = 0, s_feature_ro_compat = 0\<rparr>"
  unfolding super_of_def by (subst field_map_upt, simp)+ (simp add: upt_rec e2_dev_def)

lemma e2_groups: "read_groups e2_cache 2048 1 [] =
    Inr [\<lparr>g_block_bitmap = 3, g_inode_bitmap = 4, g_inode_table = 5\<rparr>]"
proof -
  note upt_rec_numeral [simp del]
  obtain f where f: "mapped_folio e2_cache (int 2048) = Inr f" "mf_len f = 2048"
    "mf_data f = region e2_dev 2048 2048"
    using mp.folio_inside [OF e2_serves, of 2048] by (auto simp: PAGE_SIZE_def)
  have recs: "from_bytes_to_slice 32 4 (mf_data f) = Some (records 32 64 (map e2_dev [2048 ..< 4096]))"
    by (simp add: f(3) region_def from_bytes_to_slice_def PAGE_SIZE_def)
  have "take (Suc 0) (records 32 64 (map e2_dev [2048 ..< 4096])) = [map e2_dev [2048 ..< 2048 + 32]]"
    by (simp add: records_def take_map upt_rec [of 0 64])
  moreover have "group_of (map e2_dev [2048 ..< 2048 + 32])
      = \<lparr>g_block_bitmap = 3, g_inode_bitmap = 4, g_inode_table = 5\<rparr>"
    unfolding group_of_def by (subst field_map_upt, simp)+ (simp add: upt_rec e2_dev_def)
  moreover have "read_groups e2_cache off 0 gs = Inr gs" for off gs by (subst read_groups.simps) simp
  ultimately show ?thesis using f recs by (subst read_groups.simps) simp
qed

lemma e2_mount:
  "\<exists>s. ext2_fill_super id True (\<lambda>_. True) True e2_cache = Inr s \<and> e_block_size s = 1024"
proof -
  obtain f bs where f: "mapped_folio e2_cache 1024 = Inr f" "from_bytes 1024 4 (mf_data f) 0 = Some bs"
    "bs = map e2_dev [1024 ..< 1024 + 1024]"
    using mp.read_struct [OF e2_serves, of 1024 1024 4]
    by (auto simp: PAGE_SIZE_def simp del: upt_rec_numeral)
  note sup = e2_super [folded f(3)]
  have "super_features True (super_of bs) = Inr False" "super_block_size id (super_of bs) = Inr 1024"
    "super_inodes (super_of bs) 1024 = Inr (128, 11, 8)" "group_count (super_of bs) = Inr 1"
    by (simp_all add: sup super_features_def super_block_size_def super_inodes_def group_count_def
        ext2_consts Let_def)
  moreover have "check_descriptors (super_of bs) [\<lparr>g_block_bitmap = 3, g_inode_bitmap = 4, g_inode_table = 5\<rparr>] = Inr ()"
    by (simp add: sup check_descriptors_def desc_in_range_def group_range_def)
  moreover have "s_magic (super_of bs) = EXT2_SUPER_MAGIC" by (simp add: sup EXT2_SUPER_MAGIC_def)
  ultimately show ?thesis using f(1,2) e2_groups
    by (simp add: ext2_fill_super_def SB_OFFSET_def Let_def)
qed



section \<open>The blocks of a file on the device\<close>

lemma from_bytes_region:
  assumes "off + sz \<le> n" "n \<le> PAGE_SIZE" "(a mod PAGE_SIZE + off) mod align = 0"
  shows "from_bytes sz align (region dev a n) off = Some (map dev [a + off ..< a + off + sz])"
proof -
  have "off + sz \<le> usize_max" using assms by (simp add: PAGE_SIZE_def usize_max_def)
  moreover have "(a mod PAGE_SIZE + off) mod 2 ^ 64 = a mod PAGE_SIZE + off"
    using assms mod_less_divisor [of PAGE_SIZE a] by (simp add: PAGE_SIZE_def)
  ultimately show ?thesis
    using assms by (simp add: from_bytes_def checked_add_def region_def take_map drop_map)
qed

text \<open>The pointer with index \<open>i\<close> in a pointer block, and the end of a path below it.\<close>

definition ptr_at :: "(nat \<Rightarrow> byte) \<Rightarrow> nat \<Rightarrow> nat \<Rightarrow> nat \<Rightarrow> nat" where
  "ptr_at dev bs blk i = le_value (map dev [blk * bs + 4 * i ..< blk * bs + 4 * i + 4])"

primrec tree_walk :: "(nat \<Rightarrow> byte) \<Rightarrow> nat \<Rightarrow> nat \<Rightarrow> nat list \<Rightarrow> nat" where
  "tree_walk dev bs blk [] = blk"
| "tree_walk dev bs blk (i # is) = tree_walk dev bs (ptr_at dev bs blk i) is"

primrec tree_on_dev :: "(nat \<Rightarrow> byte) \<Rightarrow> nat \<Rightarrow> nat \<Rightarrow> nat \<Rightarrow> nat list \<Rightarrow> bool" where
  "tree_on_dev dev bs limit blk [] \<longleftrightarrow> True"
| "tree_on_dev dev bs limit blk (i # is) \<longleftrightarrow>
     blk * bs + bs \<le> limit \<and> tree_on_dev dev bs limit (ptr_at dev bs blk i) is"

lemma table_entry:
  assumes "4 dvd a" "4 dvd n" "4 * i + 4 \<le> n"
  shows "from_bytes_to_slice 4 4 (region dev a n) = Some (records 4 (n div 4) (map dev [a ..< a + n]))"
    and "records 4 (n div 4) (map dev [a ..< a + n]) ! i = map dev [a + 4 * i ..< a + 4 * i + 4]"
    and "i < n div 4"
proof -
  have "4 dvd a mod PAGE_SIZE" using assms(1) by (simp add: PAGE_SIZE_def dvd_mod)
  then show "from_bytes_to_slice 4 4 (region dev a n) = Some (records 4 (n div 4) (map dev [a ..< a + n]))"
    using assms(2) by (simp add: from_bytes_to_slice_def region_def mod_eq_0_iff_dvd)
  show i: "i < n div 4" using assms(3) by linarith
  show "records 4 (n div 4) (map dev [a ..< a + n]) ! i = map dev [a + 4 * i ..< a + 4 * i + 4]"
    using i assms(3) by (simp add: take_map drop_map mult.commute)
qed

lemma walk_tree:
  assumes "serves dev limit (e_cache s)" "e_block_size s = 4 * 2 ^ b" "b \<le> 10"
  shows "\<forall>i \<in> set is. i < 2 ^ b \<Longrightarrow> tree_on_dev dev (e_block_size s) limit blk is \<Longrightarrow>
    walk s blk is = Inr (tree_walk dev (e_block_size s) blk is)"
proof (induction "is" arbitrary: blk)
  case (Cons i "is")
  let ?bs = "e_block_size s" and ?a = "blk * e_block_size s"
  have lim: "?a + ?bs \<le> limit" "limit < 2 ^ 63" and pos: "0 < ?bs"
    using Cons.prems assms(1,2) by (simp_all add: serves_def)
  have a: "wrap_i64 (int blk * int ?bs) = int ?a" using lim
    by (simp add: in_i64_def flip: of_nat_mult)
  obtain f where f: "mapped_folio (e_cache s) (int ?a) = Inr f"
    "mf_len f = PAGE_SIZE - ?a mod PAGE_SIZE" "mf_data f = region dev ?a (mf_len f)"
    using mapped_folio_serves [OF assms(1), of ?a] mf_data_window [of _ ?a dev] lim pos by fastforce
  have dvd: "?bs dvd PAGE_SIZE"
  proof -
    have "(2 :: nat) ^ b dvd 2 ^ 10" using assms(3) by (rule le_imp_power_dvd)
    then show ?thesis unfolding assms(2) PAGE_SIZE_def using mult_dvd_mono [of 4 4] by fastforce
  qed
  have "4 * i + 4 \<le> ?bs" using Cons.prems(1) assms(2) by auto
  also have "?bs \<le> mf_len f" unfolding f(2) using dvd by (intro block_in_page) simp_all
  finally have i: "4 * i + 4 \<le> mf_len f" .
  have four: "4 dvd ?a" "4 dvd mf_len f"
    unfolding f(2) using assms(2) by (auto simp: PAGE_SIZE_def intro!: dvd_diff_nat dvd_mod)
  note entry = table_entry [OF four i]
  show ?case using Cons entry f a by (simp add: ptr_at_def)
qed simp

text \<open>
  C14. On a device that can be read, the block found for a block number of a
  file is the one at the end of its path in the tree of pointers on the
  device, where the path is the one that stands for that number.
\<close>

theorem offset_to_block_tree:
  assumes "serves dev limit (e_cache s)" "ext2_ok s" "e_block_size s \<le> 4096" "blocks_ok blocks"
    "block < 2 ^ 64" "offsets (e_block_size s) block = Some path"
    "tree_on_dev dev (e_block_size s) limit (blocks ! hd path) (tl path)"
  shows "offset_to_block s blocks (int block)
      = Inr (tree_walk dev (e_block_size s) (blocks ! hd path) (tl path))
    \<and> path_block (e_block_size s div 4) path = block"
proof -
  obtain b where b: "e_block_size s = 4 * 2 ^ b" "b \<le> 10" using ext2_ok_block_size [OF assms(2,3)] .
  have path: "path_ok (2 ^ b) path" "path_block (2 ^ b) path = block"
    using offsets_path [of b block path] assms(6) b by simp_all
  then have "hd path < length blocks" using assms(4)
    by (auto simp: path_ok_def blocks_ok_def split: if_splits)
  moreover have "\<forall>i \<in> set (tl path). i < 2 ^ b" using path by (simp add: path_ok_def)
  moreover have "nat (int block mod 2 ^ 64) = block" using assms(5) by simp
  ultimately show ?thesis using walk_tree [OF assms(1) b] assms(6,7) b path
    by (simp add: offset_to_block_def)
qed

definition e2_fs :: ext2_fs where
  "e2_fs = \<lparr>e_cache = e2_cache, e_block_size = 1024, e_has_file_type = False, e_inodes_per_block = 8,
     e_inodes_per_group = 16, e_inode_count = 16, e_inode_size = 128, e_first_ino = 11,
     e_groups = [\<lparr>g_block_bitmap = 3, g_inode_bitmap = 4, g_inode_table = 5\<rparr>]\<rparr>"

lemma e2_fs_ok: "ext2_ok e2_fs" "serves e2_dev 65536 (e_cache e2_fs)" "e_block_size e2_fs \<le> 4096"
  using e2_serves by (auto simp: ext2_ok_def e2_fs_def intro!: exI [of _ 0])

theorem offset_to_block_tree_witness:
  "offset_to_block e2_fs [0, 0, 0, 0, 0, 0, 0, 0, 0, 0, 0, 0, 2, 0, 0] (int 12) = Inr 3"
proof -
  let ?blocks = "[0, 0, 0, 0, 0, 0, 0, 0, 0, 0, 0, 0, 2, 0, 0] :: nat list"
  have path: "offsets (e_block_size e2_fs) 12 = Some [12, 0]"
    by (simp add: e2_fs_def offsets_def ext2_blocks)
  have "blocks_ok ?blocks" by (simp add: blocks_ok_def)
  moreover have "ptr_at e2_dev 1024 2 0 = 3" by (simp add: ptr_at_def upt_rec e2_dev_def)
  ultimately show ?thesis
    using offset_to_block_tree [OF e2_fs_ok(2,1,3), of ?blocks 12 "[12, 0]"] path
    by (simp add: e2_fs_def)
qed


section \<open>Deviations\<close>

text \<open>
  A block that is a hole (a zero pointer) is not reported as a hole: the
  mapping says it is mapped, at the address of block zero of the device, so
  reading a sparse file shows the boot block instead of zeroes.
\<close>

theorem iomap_begin_hole_mapped:
  assumes "0 \<le> pos" "pos < i_size node" "e_block_size s \<noteq> 0"
    "offset_to_block s (i_data node) (pos div int (e_block_size s)) = Inr 0"
  shows "fst (iomap_begin s node pos len m) = Inr ()
    \<and> im_type (snd (iomap_begin s node pos len m)) = Mapped
    \<and> im_addr (snd (iomap_begin s node pos len m)) = 0"
  using assms by (simp add: iomap_begin_def Let_def iomap_setters)

definition e2_node :: "int \<Rightarrow> nat list \<Rightarrow> e_inode" where
  "e2_node sz blocks = inode_init new_inode_new
     ((ext2_params (ext2_inode_of []) IReg sz)\<lparr>ip_value := blocks\<rparr>)"

lemma e2_node_simps [simp]: "i_size (e2_node sz blocks) = sz" "i_data (e2_node sz blocks) = blocks"
  by (simp_all add: e2_node_def ext2_params_def inode_init_def Let_def)

theorem iomap_begin_hole_mapped_witness:
  "im_type (snd (iomap_begin e2_fs (e2_node 5000 (replicate 15 0)) 1024 100
      \<lparr>im_offset = 0, im_length = 0, im_flags = 0, im_type = Hole, im_addr = 1, im_bdev = False\<rparr>)) = Mapped"
proof -
  have "offset_to_block e2_fs (replicate 15 0) 1 = Inr 0"
    by (simp add: offset_to_block_def offsets_def e2_fs_def ext2_blocks)
  then show ?thesis
    using iomap_begin_hole_mapped [of 1024 "e2_node 5000 (replicate 15 0)" e2_fs]
    by (simp add: e2_fs_def)
qed

text \<open>
  Listing loses its place at unused entries: they are skipped without
  counting their length, so when the reader is full after the entry that
  follows one, the saved position falls short of the next entry by the length
  of the skipped one, and the listing resumes inside an entry already shown.
\<close>

theorem list_block_loses_place:
  assumes "from_bytes DE_SIZE 4 data off = Some b0" "from_bytes DE_SIZE 4 data (off + r0) = Some b1"
    "from_bytes DE_SIZE 4 data (off + r0 + r1) = Some b2"
    and "r0 = de_rec_len (ext2_dirent_of b0)" "r1 = de_rec_len (ext2_dirent_of b1)" "0 < r0" "0 < r1"
    and "de_inode (ext2_dirent_of b0) = 0" "de_inode (ext2_dirent_of b1) \<noteq> 0"
    "de_inode (ext2_dirent_of b2) \<noteq> 0" "de_rec_len (ext2_dirent_of b2) \<noteq> 0"
    and "off + r0 + r1 < length (sl_bytes data) - DE_SIZE"
    "off + r0 + r1 + de_rec_len (ext2_dirent_of b2) \<le> length (sl_bytes data)"
    "off + r0 + DE_SIZE + de_name_len (ext2_dirent_of b1) \<le> length (sl_bytes data)"
    "off + r0 + r1 + DE_SIZE + de_name_len (ext2_dirent_of b2) \<le> length (sl_bytes data)"
    and "em_pos em = int off" "em_out em = []" "\<forall>e. accepts [] e" "\<forall>x e. \<not> accepts [x] e"
    and "int off + int r1 < 2 ^ 63"
  shows "\<exists>em'. list_block ft accepts data off em = (Inr True, em') \<and> length (em_out em') = 1
    \<and> em_pos em' = int (off + r1) \<and> em_pos em' < int (off + r0 + r1)"
proof -
  have fit: "off < length (sl_bytes data) - DE_SIZE" "off + r0 < length (sl_bytes data) - DE_SIZE"
    "off + r0 \<le> length (sl_bytes data)" "off + r0 + r1 \<le> length (sl_bytes data)"
    using assms(12) by linarith+
  have wrap: "wrap_i64 (int off + int r1) = int off + int r1"
    using assms(20) by (simp add: in_i64_def)
  have "list_block ft accepts data off em = list_block ft accepts data (off + r0) em"
    using fit assms by (subst list_block.simps) (simp add: Let_def)
  also have "\<exists>x. list_block ft accepts data (off + r0) em
      = list_block ft accepts data (off + r0 + r1) (em\<lparr>em_pos := int (off + r1), em_out := [x]\<rparr>)"
    using fit wrap assms by (subst list_block.simps) (auto simp: Let_def emit_def)
  finally obtain x where
    "list_block ft accepts data off em
      = list_block ft accepts data (off + r0 + r1) (em\<lparr>em_pos := int (off + r1), em_out := [x]\<rparr>)" ..
  also have "\<dots> = (Inr True, em\<lparr>em_pos := int (off + r1), em_out := [x]\<rparr>)"
    using fit assms by (cases x) (subst list_block.simps, simp add: Let_def emit_def)
  finally show ?thesis using assms(6) by simp
qed

definition e2_block :: slice where
  "e2_block = \<lparr>sl_addr = 0, sl_bytes =
     [0, 0, 0, 0, 12, 0, 1, 0, 0x78, 0, 0, 0,
      5, 0, 0, 0, 12, 0, 1, 1, 0x61, 0, 0, 0,
      6, 0, 0, 0, 12, 0, 1, 1, 0x62, 0, 0, 0]\<rparr>"

theorem list_block_loses_place_witness:
  "\<exists>em'. list_block True (\<lambda>out _. out = []) e2_block 0 \<lparr>em_pos = 0, em_out = []\<rparr> = (Inr True, em')
     \<and> length (em_out em') = 1 \<and> em_pos em' = int (0 + 12) \<and> em_pos em' < int (0 + 12 + 12)"
proof -
  have b: "from_bytes DE_SIZE 4 e2_block 0 = Some [0, 0, 0, 0, 12, 0, 1, 0]"
    "from_bytes DE_SIZE 4 e2_block (0 + 12) = Some [5, 0, 0, 0, 12, 0, 1, 1]"
    "from_bytes DE_SIZE 4 e2_block (0 + 12 + 12) = Some [6, 0, 0, 0, 12, 0, 1, 1]"
    by (simp_all add: from_bytes_def e2_block_def DE_SIZE_def checked_add_def usize_max_def)
  have d: "ext2_dirent_of [x, 0, 0, 0, 12, 0, 1, y] =
      \<lparr>de_inode = unat x, de_rec_len = 12, de_name_len = 1, de_file_type = unat y\<rparr>" for x y
    by (simp add: ext2_dirent_of_def field_def)
  have "length (sl_bytes e2_block) = 36" by (simp add: e2_block_def)
  then show ?thesis
    by (intro list_block_loses_place [OF b]) (simp_all add: d DE_SIZE_def)
qed

text \<open>
  With blocks smaller than a page a directory does not end with its block:
  the mapped data runs to the end of the page, so a name that only occurs in
  the block that happens to follow on the device is found in a directory that
  does not contain it.
\<close>

theorem lookup_leaves_block:
  assumes "serves dev limit (e_cache s)" "e_block_size s = 1024" "i_size dir = 1024"
    "i_data dir = blk # rest" "0 < blk" "blk * 1024 mod PAGE_SIZE = 0" "blk * 1024 < limit"
    and "ext2_dirent_of (map dev [blk * 1024 ..< blk * 1024 + DE_SIZE])
      = \<lparr>de_inode = 0, de_rec_len = 1024, de_name_len = 0, de_file_type = 0\<rparr>"
    and "ext2_dirent_of (map dev [blk * 1024 + 1024 ..< blk * 1024 + 1024 + DE_SIZE])
      = \<lparr>de_inode = ino, de_rec_len = rec_len, de_name_len = length nm, de_file_type = ty\<rparr>"
    "ino \<noteq> 0" "0 < rec_len" "rec_len \<le> 1024" "length nm \<le> 255"
    "map dev [blk * 1024 + 1032 ..< blk * 1024 + 1032 + length nm] = nm"
  shows "find_ino s dir nm 0 = Inr (Some ino)"
proof -
  let ?a = "blk * 1024"
  have lim: "limit < 2 ^ 63" using assms(1) by (simp add: serves_def)
  obtain f where f: "mapped_folio (e_cache s) (int ?a) = Inr f" "mf_len f = PAGE_SIZE"
    "mf_data f = region dev ?a PAGE_SIZE"
    using mapped_folio_serves [OF assms(1,7)] mf_data_window [of _ ?a dev] assms(6) by fastforce
  have data: "length (sl_bytes (mf_data f)) = PAGE_SIZE" using f(2) by simp
  have e0: "from_bytes DE_SIZE 4 (mf_data f) 0 = Some (map dev [?a ..< ?a + DE_SIZE])"
    unfolding f(3) using assms(6) from_bytes_region [of 0 DE_SIZE PAGE_SIZE ?a 4 dev]
    by (simp add: DE_SIZE_def PAGE_SIZE_def)
  have e1: "from_bytes DE_SIZE 4 (mf_data f) 1024 = Some (map dev [?a + 1024 ..< ?a + 1024 + DE_SIZE])"
    unfolding f(3) using assms(6) from_bytes_region [of 1024 DE_SIZE PAGE_SIZE ?a 4 dev]
    by (simp add: DE_SIZE_def PAGE_SIZE_def)
  have nm: "take (length nm) (drop 1032 (sl_bytes (mf_data f))) = nm"
    unfolding f(3) using assms(13,14) by (simp add: region_def take_map drop_map PAGE_SIZE_def)
  obtain b0 b1 where b: "from_bytes DE_SIZE 4 (mf_data f) 0 = Some b0"
    "ext2_dirent_of b0 = \<lparr>de_inode = 0, de_rec_len = 1024, de_name_len = 0, de_file_type = 0\<rparr>"
    "from_bytes DE_SIZE 4 (mf_data f) 1024 = Some b1"
    "ext2_dirent_of b1 = \<lparr>de_inode = ino, de_rec_len = rec_len, de_name_len = length nm, de_file_type = ty\<rparr>"
    using e0 e1 assms(8,9) by blast
  have "scan_block (mf_data f) nm 0 = scan_block (mf_data f) nm 1024"
    using b(1,2) data by (subst scan_block.simps) (simp add: DE_SIZE_def PAGE_SIZE_def)
  also have "\<dots> = Inr (Some ino)"
    using b(3,4) data nm assms(10-13) by (subst scan_block.simps) (simp add: DE_SIZE_def PAGE_SIZE_def)
  finally have scan: "scan_block (mf_data f) nm 0 = Inr (Some ino)" .
  have "offset_to_block s (i_data dir) 0 = Inr blk"
    using assms(2,4) by (simp add: offset_to_block_def offsets_def ext2_blocks)
  moreover have "wrap_i64 (int blk * 1024) = int ?a" using assms(7) lim by (simp add: in_i64_def)
  ultimately show ?thesis
    using assms(2,3,5) f(1) scan by (subst find_ino.simps) simp
qed

definition two_blocks :: "nat \<Rightarrow> byte" where
  "two_blocks i = (if i = 4101 then 4 else if i = 5120 then 9 else if i = 5124 then 12
     else if i = 5126 then 1 else if i = 5128 then 0x78 else 0)"

definition two_blocks_fs :: ext2_fs where
  "two_blocks_fs = e2_fs\<lparr>e_cache := \<lambda>i. Ptr (page_of two_blocks i)\<rparr>"

theorem lookup_leaves_block_witness:
  "find_ino two_blocks_fs (e2_node 1024 [4, 0, 0, 0, 0, 0, 0, 0, 0, 0, 0, 0, 0, 0, 0]) [0x78] 0 = Inr (Some 9)"
proof -
  have s: "serves two_blocks 8192 (e_cache two_blocks_fs)"
    by (simp add: serves_def two_blocks_fs_def PAGE_SIZE_def)
  have "ext2_dirent_of (map two_blocks [4096 ..< 4104])
      = \<lparr>de_inode = 0, de_rec_len = 1024, de_name_len = 0, de_file_type = 0\<rparr>"
    "ext2_dirent_of (map two_blocks [5120 ..< 5128])
      = \<lparr>de_inode = 9, de_rec_len = 12, de_name_len = 1, de_file_type = 0\<rparr>"
    "map two_blocks [5128 ..< 5129] = [0x78]"
    by (simp_all add: ext2_dirent_of_def field_def two_blocks_def)
  then show ?thesis
    using lookup_leaves_block [OF s, of "e2_node 1024 [4, 0, 0, 0, 0, 0, 0, 0, 0, 0, 0, 0, 0, 0, 0]" 4
        "[0, 0, 0, 0, 0, 0, 0, 0, 0, 0, 0, 0, 0, 0]" 9 12 "[0x78]" 0]
    by (simp add: two_blocks_fs_def e2_fs_def PAGE_SIZE_def DE_SIZE_def del: upt_rec_numeral)
qed


text \<open>
  A super-block that passes every check but declares zero blocks per group
  panics the kernel at mount time: the number of groups is computed by a
  division that nothing guards.
\<close>

theorem mount_divides_by_zero:
  assumes "min_blocksize 4096 \<noteq> 0" "mapped_folio cache (int SB_OFFSET) = Inr f"
    "from_bytes 1024 4 (mf_data f) 0 = Some bs" "s_magic (super_of bs) = EXT2_SUPER_MAGIC"
    "super_features rdonly (super_of bs) = Inr has_file_type"
    "super_block_size min_blocksize (super_of bs) = Inr block_size"
    "super_inodes (super_of bs) block_size = Inr layout"
    "s_blocks_per_group (super_of bs) = 0"
  shows "ext2_fill_super min_blocksize rdonly reserve_ok box_ok cache = Inl Panic"
  using assms by (cases layout) (simp add: ext2_fill_super_def group_count_def)

definition e2_dev_bad :: "nat \<Rightarrow> byte" where
  "e2_dev_bad i = (if i = 1056 then 0 else e2_dev i)"

lemma e2_super_bad: "super_of (map e2_dev_bad [1024 ..< 1024 + 1024]) =
   \<lparr>s_inodes_count = 16, s_blocks_count = 64, s_first_data_block = 1, s_log_block_size = 0,
    s_blocks_per_group = 0, s_inodes_per_group = 16, s_magic = 0xEF53, s_rev_level = 0,
    s_first_ino = 0, s_inode_size = 0, s_feature_incompat = 0, s_feature_ro_compat = 0\<rparr>"
  unfolding super_of_def by (subst field_map_upt, simp)+ (simp add: upt_rec e2_dev_bad_def e2_dev_def)

theorem mount_divides_by_zero_witness:
  "ext2_fill_super id True (\<lambda>_. True) True (\<lambda>i. Ptr (page_of e2_dev_bad i)) = Inl Panic"
proof -
  have serves: "serves e2_dev_bad 65536 (\<lambda>i. Ptr (page_of e2_dev_bad i))"
    by (simp add: serves_def PAGE_SIZE_def)
  obtain f bs where f: "mapped_folio (\<lambda>i. Ptr (page_of e2_dev_bad i)) (int SB_OFFSET) = Inr f"
    "from_bytes 1024 4 (mf_data f) 0 = Some bs" "bs = map e2_dev_bad [1024 ..< 1024 + 1024]"
    using mp.read_struct [OF serves, of 1024 1024 4]
    by (auto simp: PAGE_SIZE_def SB_OFFSET_def simp del: upt_rec_numeral)
  note sup = e2_super_bad [folded f(3)]
  show ?thesis
    by (rule mount_divides_by_zero [OF _ f(1,2), where has_file_type = False and block_size = 1024
          and layout = "(128, 11, 8)"])
      (simp_all add: sup super_features_def super_block_size_def super_inodes_def ext2_consts Let_def)
qed

end
