(* ===== verification/Interleaving.thy ===== *)
theory Interleaving
  imports Rko_Prelude
begin

text \<open>
  Concurrent code as a machine that runs one atomic access at a time: a step
  function takes the label of the thread and access that the schedule picks
  next, and is undefined where that thread cannot do it.  Memory is
  sequentially consistent.  The states a machine reaches are an inductive
  predicate, and an invariant is a locale, interpreted for every machine.
\<close>

inductive reachable :: "('s \<Rightarrow> 'l \<Rightarrow> 's option) \<Rightarrow> 's \<Rightarrow> 's \<Rightarrow> bool" for step s0 where
  start: "reachable step s0 s0"
| after: "reachable step s0 s \<Longrightarrow> step s l = Some s' \<Longrightarrow> reachable step s0 s'"

fun run :: "('s \<Rightarrow> 'l \<Rightarrow> 's option) \<Rightarrow> 's \<Rightarrow> 'l list \<Rightarrow> 's option" where
  "run step s [] = Some s"
| "run step s (l # ls) = Option.bind (step s l) (\<lambda>s'. run step s' ls)"

lemma run_append: "run step s (ls @ ms) = Option.bind (run step s ls) (\<lambda>s'. run step s' ms)"
  by (induction ls arbitrary: s) (auto split: Option.bind_splits)

lemma reachable_run: "reachable step s0 s \<Longrightarrow> run step s ls = Some s' \<Longrightarrow> reachable step s0 s'"
  by (induction ls arbitrary: s) (auto split: Option.bind_splits intro: reachable.after)

lemma run_reachable: "run step s0 ls = Some s \<Longrightarrow> reachable step s0 s"
  using reachable_run [OF reachable.start] .

lemma reachable_iff_run: "reachable step s0 s \<longleftrightarrow> (\<exists>ls. run step s0 ls = Some s)"
proof
  show "reachable step s0 s \<Longrightarrow> \<exists>ls. run step s0 ls = Some s"
  proof (induction rule: reachable.induct)
    case start
    then show ?case by (metis run.simps(1))
  next
    case (after s l s')
    then obtain ls where "run step s0 ls = Some s" by blast
    then have "run step s0 (ls @ [l]) = Some s'" using after.hyps by (simp add: run_append)
    then show ?case ..
  qed
qed (blast intro: run_reachable)

text \<open>What a machine keeps at every step holds in every state it reaches.\<close>

locale kept =
  fixes step :: "'s \<Rightarrow> 'l \<Rightarrow> 's option" and s0 :: 's and ok :: "'s \<Rightarrow> bool"
  assumes initially: "ok s0"
    and kept: "ok s \<Longrightarrow> step s l = Some s' \<Longrightarrow> ok s'"
begin

lemma reached: "reachable step s0 s \<Longrightarrow> ok s"
  by (induction rule: reachable.induct) (auto intro: initially kept)

lemma run_kept: "ok s \<Longrightarrow> run step s ls = Some s' \<Longrightarrow> ok s'"
  by (induction ls arbitrary: s) (auto split: Option.bind_splits intro: kept)

end

text \<open>
  A machine that contains another: every step of the outer machine is a step
  of the inner one on its part of the state, or leaves that part alone.
\<close>

locale contains =
  fixes step :: "'s \<Rightarrow> 'l \<Rightarrow> 's option" and s0 :: 's
    and inner :: "'t \<Rightarrow> 'm \<Rightarrow> 't option" and t0 :: 't and part :: "'s \<Rightarrow> 't"
  assumes starts: "part s0 = t0"
    and steps: "step s l = Some s' \<Longrightarrow> part s' = part s \<or> (\<exists>m. inner (part s) m = Some (part s'))"
begin

lemma part_reachable: "reachable step s0 s \<Longrightarrow> reachable inner t0 (part s)"
proof (induction rule: reachable.induct)
  case start
  then show ?case using starts by (simp add: reachable.start)
next
  case (after s l s')
  then show ?case using steps [OF after.hyps(2)] by (auto intro: reachable.after)
qed

end

text \<open>Threads are a list of program counters; how many of them are at a given one.\<close>

abbreviation at :: "'p list \<Rightarrow> 'p \<Rightarrow> nat" where
  "at \<equiv> count_list"

lemma at_update:
  assumes "t < length ps"
  shows "at (ps[t := p]) q + (if ps ! t = q then 1 else 0) = at ps q + (if p = q then 1 else 0)"
  using assms
proof (induction ps arbitrary: t)
  case (Cons a ps)
  then show ?case
  proof (cases t)
    case (Suc n)
    then have "at (ps[n := p]) q + (if ps ! n = q then 1 else 0) = at ps q + (if p = q then 1 else 0)"
      using Cons by simp
    then show ?thesis using Suc by (cases "p = q"; cases "ps ! n = q") auto
  qed simp
qed simp

lemma at_pos: "t < length ps \<Longrightarrow> ps ! t = q \<Longrightarrow> 0 < at ps q"
  by (metis count_list_0_iff gr0I nth_mem)

lemma at_le_length: "at ps q \<le> length ps"
  by (rule count_le_length)

lemma at_two: "at ps q \<le> 1 \<Longrightarrow> t < length ps \<Longrightarrow> u < length ps \<Longrightarrow> ps ! t = q \<Longrightarrow> ps ! u = q \<Longrightarrow> t = u"
proof -
  assume *: "at ps q \<le> 1" "t < length ps" "u < length ps" "ps ! t = q" "ps ! u = q"
  let ?S = "{i. i < length ps \<and> ps ! i = q}"
  have "card ?S \<le> Suc 0" "finite ?S"
    using *(1) by (simp_all add: count_list_eq_length_filter length_filter_conv_card eq_commute)
  then have "\<forall>a \<in> ?S. \<forall>b \<in> ?S. a = b" using card_le_Suc0_iff_eq by blast
  then show "t = u" using *(2-5) by simp
qed

lemma at_moved:
  assumes "t < length ps" "ps ! t = a"
  shows "at (ps[t := b]) q =
    (if b = a then at ps q else if q = b then at ps q + 1 else if q = a then at ps q - 1 else at ps q)"
  using at_update [OF assms(1), of b q] assms(2) by (auto split: if_splits)

end
