(* ===== verification/Vfs_Vtable.thy ===== *)
theory Vfs_Vtable
  imports Vfs_Model Interleaving
begin

text \<open>
  The callbacks through which the kernel enters a file system, from
  \<open>rko-core/src/fs/vtable.rs\<close>: the operation tables, the trampolines that
  translate results, and the life of a mount with its super-block data and its
  inodes.  A file system is a parameter: what its methods return.
\<close>

section \<open>Operation tables\<close>

text \<open>What the \<open>vtable\<close> attribute records of a file system, and the size of its inode data.\<close>

record fs_flags =
  has_statfs :: bool
  has_seek :: bool
  has_read :: bool
  has_read_iter :: bool
  has_get_link :: bool
  has_read_xattr :: bool
  inode_data_size :: nat

datatype callback =
    AllocInode | DestroyInode | Statfs | SimpleStatfs | Lookup | GenericReadDir | IterateShared
  | GenericLlseek | SeekT | FileRead | CustomReadIter | GenericReadIter | ReadFolio | GetLink | XattrGet

record tables =
  t_alloc_inode :: "callback option"
  t_destroy_inode :: "callback option"
  t_statfs :: "callback option"
  t_dir_lookup :: "callback option"
  t_dir_read :: "callback option"
  t_dir_iterate :: "callback option"
  t_dir_llseek :: "callback option"
  t_reg_llseek :: "callback option"
  t_reg_read :: "callback option"
  t_reg_read_iter :: "callback option"
  t_read_folio :: "callback option"
  t_get_link :: "callback option"
  t_xattr_get :: "callback option"

definition tables_new :: "fs_flags \<Rightarrow> tables" where
  "tables_new f =
     \<lparr>t_alloc_inode = (if inode_data_size f \<noteq> 0 then Some AllocInode else None),
      t_destroy_inode = (if inode_data_size f \<noteq> 0 then Some DestroyInode else None),
      t_statfs = (if has_statfs f then Some Statfs else Some SimpleStatfs),
      t_dir_lookup = Some Lookup,
      t_dir_read = Some GenericReadDir,
      t_dir_iterate = Some IterateShared,
      t_dir_llseek = Some GenericLlseek,
      t_reg_llseek = (if has_seek f then Some SeekT else Some GenericLlseek),
      t_reg_read = (if has_read_iter f then None else if has_read f then Some FileRead else None),
      t_reg_read_iter = (if has_read_iter f then Some CustomReadIter else if has_read f then None else Some GenericReadIter),
      t_read_folio = Some ReadFolio,
      t_get_link = (if has_get_link f then Some GetLink else None),
      t_xattr_get = (if has_read_xattr f then Some XattrGet else None)\<rparr>"

text \<open>Exactly one of the two ways of reading a regular file is installed.\<close>

lemma tables_read_exclusive: "(t_reg_read (tables_new f) = None) \<longleftrightarrow> (t_reg_read_iter (tables_new f) \<noteq> None)"
  by (simp add: tables_new_def)


section \<open>Trampolines\<close>

text \<open>What a method of the file system returns is an argument of its trampoline.\<close>

record fs_stat =
  st_magic :: nat
  st_namelen :: int
  st_bsize :: int
  st_files :: nat
  st_blocks :: nat

record kstatfs =
  f_type :: int
  f_bsize :: int
  f_blocks :: nat
  f_files :: nat
  f_namelen :: int

definition statfs_trampoline :: "error + fs_stat \<Rightarrow> kstatfs \<Rightarrow> int \<times> kstatfs" where
  "statfs_trampoline r buf = (case r of
     Inr s \<Rightarrow> (0, buf\<lparr>f_type := wrap_i64 (int (st_magic s)), f_bsize := st_bsize s, f_blocks := st_blocks s,
                    f_files := st_files s, f_namelen := st_namelen s\<rparr>)
   | Inl e \<Rightarrow> (to_errno e, buf))"

definition lookup_trampoline :: "error + 'p option \<Rightarrow> 'p kptr" where
  "lookup_trampoline r = to_err_ptr (case r of Inr (Some d) \<Rightarrow> Inr (Ptr d) | Inr None \<Rightarrow> Inr NullPtr | Inl e \<Rightarrow> Inl e)"

text \<open>The target of a link, and the string that the kernel must give back through the delayed call.\<close>

datatype 's get_link_result = Owned 's | Borrowed 's

definition get_link_trampoline :: "error + 's get_link_result \<Rightarrow> 's kptr \<times> 's option" where
  "get_link_trampoline r = (case r of
     Inl e \<Rightarrow> (to_err_ptr (Inl e), None)
   | Inr (Borrowed s) \<Rightarrow> (Ptr s, None)
   | Inr (Owned s) \<Rightarrow> (Ptr s, Some s))"

definition iterate_shared_trampoline :: "('s \<Rightarrow> (error + unit) \<times> 's) \<Rightarrow> 's \<Rightarrow> int \<times> 's" where
  "iterate_shared_trampoline read_dir ctx = (case read_dir ctx of (r, ctx') \<Rightarrow> (from_result r, ctx'))"

definition seek_trampoline :: "(int \<Rightarrow> whence \<Rightarrow> error + int) \<Rightarrow> (int \<Rightarrow> int \<Rightarrow> int) \<Rightarrow> int \<Rightarrow> int \<Rightarrow> int" where
  "seek_trampoline seek generic_file_llseek offset whence =
     (case whence_from_raw whence of
        None \<Rightarrow> to_errno EINVAL
      | Some w \<Rightarrow>
          (case seek offset w of
             Inr pos \<Rightarrow> pos
           | Inl e \<Rightarrow> if to_errno e = to_errno EINVAL then generic_file_llseek offset whence else to_errno e))"

definition file_read_trampoline :: "(int \<Rightarrow> (error + nat) \<times> int) \<Rightarrow> int \<Rightarrow> int \<times> int" where
  "file_read_trampoline read offset = (case read offset of
     (Inr n, off) \<Rightarrow> (wrap_i64 (int n), off) | (Inl e, off) \<Rightarrow> (to_errno e, off))"

definition custom_read_iter_trampoline :: "(int \<Rightarrow> error + nat) \<Rightarrow> int \<Rightarrow> int \<times> int" where
  "custom_read_iter_trampoline read_iter ki_pos = (case read_iter ki_pos of
     Inr n \<Rightarrow> (wrap_i64 (int n), wrap_i64 (ki_pos + wrap_i64 (int n)))
   | Inl e \<Rightarrow> (to_errno e, ki_pos))"

record kfolio =
  fo_bytes :: "byte list"
  fo_locked :: bool
  fo_uptodate :: bool

definition read_folio_trampoline :: "(byte list \<Rightarrow> (error + unit) \<times> byte list) \<Rightarrow> kfolio \<Rightarrow> int \<times> kfolio" where
  "read_folio_trampoline read_folio fo =
     (case read_folio (fo_bytes fo) of (r, bs) \<Rightarrow>
        let ret = (case r of Inr _ \<Rightarrow> 0 | Inl e \<Rightarrow> to_errno e) in
        (ret, fo\<lparr>fo_bytes := bs, fo_uptodate := fo_uptodate fo \<or> ret = 0, fo_locked := False\<rparr>))"

definition xattr_get_trampoline ::
  "(byte list \<Rightarrow> (error + nat) \<times> byte list) \<Rightarrow> byte list option \<Rightarrow> nat \<Rightarrow> int \<times> byte list option" where
  "xattr_get_trampoline read_xattr buffer sz =
     (if buffer = None \<or> sz = 0 then
        (case fst (read_xattr []) of Inr n \<Rightarrow> wrap_i32 (int n) | Inl e \<Rightarrow> to_errno e, buffer)
      else case read_xattr (take sz (the buffer)) of (r, bs) \<Rightarrow>
        (case r of Inr n \<Rightarrow> wrap_i32 (int n) | Inl e \<Rightarrow> to_errno e, Some (bs @ drop sz (the buffer))))"

text \<open>
  A failing method is seen by the kernel as its error, and a succeeding one as
  its result: no trampoline confuses the two, whenever the error is negative.
\<close>

lemma trampolines_report:
  "fst (statfs_trampoline (Inl e) buf) = to_errno e" "fst (statfs_trampoline (Inr s) buf) = 0"
  "kernel_errno (to_errno e) \<Longrightarrow> from_err_ptr (lookup_trampoline (Inl e)) = Inl e"
  "from_err_ptr (lookup_trampoline (Inr (Some d))) = Inr (Ptr d)" "from_err_ptr (lookup_trampoline (Inr None)) = Inr (NullPtr :: 'p kptr)"
  "fst (iterate_shared_trampoline (\<lambda>s. (Inl e, s)) ctx) = to_errno e"
  using err_ptr_roundtrip [of e]
  by (simp_all add: statfs_trampoline_def lookup_trampoline_def to_err_ptr_def from_err_ptr_def iterate_shared_trampoline_def
      from_result_def)

lemma read_folio_unlocks:
  "read_folio_trampoline f fo = (ret, fo') \<Longrightarrow> \<not> fo_locked fo' \<and> (fo_uptodate fo' \<longleftrightarrow> fo_uptodate fo \<or> ret = 0)"
  by (auto simp: read_folio_trampoline_def Let_def split: prod.splits)


section \<open>Registration\<close>

datatype super_type = Independent | BlockDev

definition get_tree_callback :: "super_type \<Rightarrow> int \<Rightarrow> int \<Rightarrow> int" where
  "get_tree_callback ty nodev bdev = (case ty of Independent \<Rightarrow> nodev | BlockDev \<Rightarrow> bdev)"

record super_params =
  sp_maxbytes :: int
  sp_blocksize_bits :: "8 word"
  sp_magic :: "64 word"
  sp_time_gran :: "32 word"

record super_block =
  s_maxbytes :: int
  s_blocksize :: "64 word"
  s_blocksize_bits :: "8 word"
  s_magic :: "64 word"
  s_time_gran :: "32 word"

definition init_simple :: "super_params \<Rightarrow> super_block \<Rightarrow> super_block" where
  "init_simple p sb = sb\<lparr>s_maxbytes := sp_maxbytes p, s_blocksize := push_bit (unat (sp_blocksize_bits p) mod 64) 1,
     s_blocksize_bits := sp_blocksize_bits p, s_magic := sp_magic p, s_time_gran := sp_time_gran p\<rparr>"

text \<open>What the kernel holds for a file system: slab caches and registered types.\<close>

record fs_kernel =
  fk_caches :: nat
  fk_types :: nat

record registration =
  rg_cache :: bool
  rg_registered :: bool

definition mem_cache_try_new :: "bool \<Rightarrow> (fs_kernel, error, unit) op" where
  "mem_cache_try_new ok k = (if ok then (Inr (), k\<lparr>fk_caches := fk_caches k + 1\<rparr>) else (Inl ENOMEM, k))"

definition mem_cache_drop :: "fs_kernel \<Rightarrow> fs_kernel" where
  "mem_cache_drop k = k\<lparr>fk_caches := fk_caches k - 1\<rparr>"

definition registration_new_for :: "fs_flags \<Rightarrow> bool \<Rightarrow> (fs_kernel, error, registration) op" where
  "registration_new_for f cache_ok k =
     (if inode_data_size f \<noteq> 0
      then (case mem_cache_try_new cache_ok k of
              (Inl e, k') \<Rightarrow> (Inl e, k')
            | (Inr _, k') \<Rightarrow> (Inr \<lparr>rg_cache = True, rg_registered = False\<rparr>, k'))
      else (Inr \<lparr>rg_cache = False, rg_registered = False\<rparr>, k))"

definition registration_drop :: "registration \<Rightarrow> fs_kernel \<Rightarrow> fs_kernel" where
  "registration_drop rg k =
     (let k1 = (if rg_registered rg then k\<lparr>fk_types := fk_types k - 1\<rparr> else k)
      in if rg_cache rg then mem_cache_drop k1 else k1)"

text \<open>\<open>ret\<close> is what \<open>register_filesystem\<close> returns: 0 when it has added the type.\<close>

definition registration_pin_init :: "fs_flags \<Rightarrow> bool \<Rightarrow> int \<Rightarrow> (fs_kernel, error, registration) op" where
  "registration_pin_init f cache_ok ret k =
     (case registration_new_for f cache_ok k of
        (Inl e, k1) \<Rightarrow> (Inl e, k1)
      | (Inr rg, k1) \<Rightarrow>
          if ret \<noteq> 0 then (Inl (error_new ret), registration_drop rg k1)
          else (Inr (rg\<lparr>rg_registered := True\<rparr>), k1\<lparr>fk_types := fk_types k1 + 1\<rparr>))"

text \<open>Registering leaves nothing behind when it fails, and dropping the registration gives everything back.\<close>

lemma registration_balanced:
  "(case registration_pin_init f ok ret k of (Inl _, k') \<Rightarrow> k' = k | (Inr rg, k') \<Rightarrow> rg_registered rg \<and> registration_drop rg k' = k)"
  by (simp add: registration_pin_init_def registration_new_for_def mem_cache_try_new_def registration_drop_def mem_cache_drop_def)

text \<open>The error of the kernel is negative; \<open>Error::new\<close> negates it, so that it is reported as a positive number.\<close>

lemma registration_error_positive:
  assumes "kernel_errno ret" "fst (registration_pin_init f True ret k) = Inl e"
  shows "to_errno e > 0"
proof -
  have "e = error_new ret" using assms
    by (auto simp: registration_pin_init_def registration_new_for_def mem_cache_try_new_def kernel_errno_def split: if_splits)
  then show ?thesis using error_new_of_negative [OF assms(1)] by simp
qed


section \<open>The life of a mount\<close>

text \<open>
  Memory that holds a value of the file system: not yet written, written, or
  dropped.  An inode object is a piece of the inode cache with such data in
  front; a fault is an access that Rust must rule out.
\<close>

datatype mem = Uninit | Live | Gone

datatype fault = DropUninit | DropTwice | FreeTwice | UseAfterFree | NullInfo | DataGone | ReadUninit

record obj =
  ob_data :: mem
  ob_bad :: bool
  ob_new :: bool
  ob_refs :: nat
  ob_freed :: nat

datatype phase = Born | Rooting | Mounted | Failed | Dead

record mount =
  mt_phase :: phase
  mt_fs_info :: bool
  mt_data :: mem
  mt_objs :: "obj list"
  mt_faults :: "fault list"

definition mount_new :: mount where
  "mount_new = \<lparr>mt_phase = Born, mt_fs_info = False, mt_data = Uninit, mt_objs = [], mt_faults = []\<rparr>"

definition faulty :: "fault list \<Rightarrow> mount \<Rightarrow> mount" where
  "faulty fs m = m\<lparr>mt_faults := mt_faults m @ fs\<rparr>"

definition set_obj :: "nat \<Rightarrow> obj \<Rightarrow> mount \<Rightarrow> mount" where
  "set_obj i ob m = m\<lparr>mt_objs := (mt_objs m)[i := ob]\<rparr>"

text \<open>\<open>alloc_inode\<close>: an object whose data is not written; none when the cache is empty.\<close>

definition alloc_inode_callback :: "bool \<Rightarrow> mount \<Rightarrow> nat option \<times> mount" where
  "alloc_inode_callback ok m =
     (if \<not> ok then (None, m)
      else (Some (length (mt_objs m)),
            m\<lparr>mt_objs := mt_objs m @ [\<lparr>ob_data = Uninit, ob_bad = False, ob_new = False, ob_refs = 0, ob_freed = 0\<rparr>]\<rparr>))"

text \<open>Dropping data in place; the data of an inode may refer to that of the super-block.\<close>

definition drop_in_place :: "mount \<Rightarrow> mem \<Rightarrow> fault list \<times> mem" where
  "drop_in_place m d = (case d of
     Live \<Rightarrow> (if mt_data m = Live then [] else [DataGone], Gone)
   | Uninit \<Rightarrow> ([DropUninit], Uninit)
   | Gone \<Rightarrow> ([DropTwice], Gone))"

definition destroy_inode_callback :: "nat \<Rightarrow> mount \<Rightarrow> mount" where
  "destroy_inode_callback i m =
     (let ob = mt_objs m ! i;
          (fs, d) = (if \<not> ob_bad ob then drop_in_place m (ob_data ob) else ([], ob_data ob));
          fs' = (if ob_freed ob = 0 then [] else [FreeTwice])
      in faulty (fs @ fs') (set_obj i (ob\<lparr>ob_data := d, ob_freed := ob_freed ob + 1\<rparr>) m))"

text \<open>
  The kernel's reference counts: an inode that is no longer referenced is
  destroyed at once when it is bad, and stays cached otherwise.
\<close>

definition iput :: "nat \<Rightarrow> mount \<Rightarrow> mount" where
  "iput i m =
     (let ob = mt_objs m ! i in
      if ob_freed ob \<noteq> 0 then faulty [UseAfterFree] m
      else let m1 = set_obj i (ob\<lparr>ob_refs := ob_refs ob - 1\<rparr>) m in
        if ob_refs ob = 1 \<and> ob_bad ob then destroy_inode_callback i m1 else m1)"

definition iget_failed :: "nat \<Rightarrow> mount \<Rightarrow> mount" where
  "iget_failed i m = iput i (set_obj i ((mt_objs m ! i)\<lparr>ob_bad := True, ob_new := False\<rparr>) m)"

text \<open>\<open>NewINode::init\<close> writes the data and unlocks; dropping a \<open>NewINode\<close> also drops the reference it holds.\<close>

definition new_inode_init :: "nat \<Rightarrow> mount \<Rightarrow> mount" where
  "new_inode_init i m = set_obj i ((mt_objs m ! i)\<lparr>ob_data := Live, ob_new := False\<rparr>) m"

definition new_inode_drop :: "nat \<Rightarrow> mount \<Rightarrow> mount" where
  "new_inode_drop i m = iput i (iget_failed i m)"

text \<open>\<open>fill_super_callback\<close>, up to the call of \<open>init_root\<close> and after it.\<close>

definition fill_super_store :: "error + unit \<Rightarrow> mount \<Rightarrow> int option \<times> mount" where
  "fill_super_store r m = (case r of
     Inl e \<Rightarrow> (Some (to_errno e), m)
   | Inr _ \<Rightarrow> (None, m\<lparr>mt_fs_info := True, mt_data := Live\<rparr>))"

definition fill_super_root :: "error + unit \<Rightarrow> int" where
  "fill_super_root r = (case r of Inl e \<Rightarrow> to_errno e | Inr _ \<Rightarrow> 0)"

definition kill_super :: "mount \<Rightarrow> mount" where
  "kill_super m = fold destroy_inode_callback (filter (\<lambda>i. ob_freed (mt_objs m ! i) = 0) [0..<length (mt_objs m)]) m"

definition kill_sb_callback :: "mount \<Rightarrow> mount" where
  "kill_sb_callback m =
     (let m1 = kill_super m in
      if mt_fs_info m1 then m1\<lparr>mt_fs_info := False, mt_data := Gone\<rparr> else m1)"

text \<open>
  What the kernel and the file system do to a mount: \<open>FillSuper\<close> and
  \<open>InitRoot\<close> carry the results of the methods; \<open>NewInode\<close>, \<open>CachedInode\<close>
  and \<open>LostInode\<close> are \<open>iget_locked\<close> when it makes a new object, finds a cached one, or loses the race with another lookup; \<open>Use\<close> is a callback
  that reads the data of the super-block and of an inode.  The kernel kills a
  super-block when its set-up has failed or when nothing refers to its inodes.
\<close>

datatype mount_label =
    FillSuper "error + unit" | InitRoot "error + unit"
  | NewInode bool | LostInode | CachedInode nat | InitNew nat | DropNew nat | Put nat | Evict nat | Use nat | KillSb

definition live_obj :: "mount \<Rightarrow> nat \<Rightarrow> bool" where
  "live_obj m i \<longleftrightarrow> i < length (mt_objs m) \<and> ob_freed (mt_objs m ! i) = 0"

fun mount_step :: "mount \<Rightarrow> mount_label \<Rightarrow> mount option" where
  "mount_step m (FillSuper r) = (if mt_phase m = Born
     then Some (case fill_super_store r m of (Some _, m') \<Rightarrow> m'\<lparr>mt_phase := Failed\<rparr> | (None, m') \<Rightarrow> m'\<lparr>mt_phase := Rooting\<rparr>)
     else None)"
| "mount_step m (InitRoot r) = (if mt_phase m = Rooting
     then Some (m\<lparr>mt_phase := if fill_super_root r = 0 then Mounted else Failed\<rparr>) else None)"
| "mount_step m (NewInode ok) = (if mt_phase m \<in> {Rooting, Mounted}
     then Some (case alloc_inode_callback ok m of
         (None, m') \<Rightarrow> m'
       | (Some i, m') \<Rightarrow> set_obj i ((mt_objs m' ! i)\<lparr>ob_new := True, ob_refs := 1\<rparr>) m')
     else None)"
| "mount_step m LostInode = (if mt_phase m \<in> {Rooting, Mounted}
     then Some (case alloc_inode_callback True m of (None, m') \<Rightarrow> m' | (Some i, m') \<Rightarrow> destroy_inode_callback i m')
     else None)"
| "mount_step m (CachedInode i) = (if mt_phase m \<in> {Rooting, Mounted} \<and> live_obj m i \<and> \<not> ob_new (mt_objs m ! i)
     then Some (set_obj i ((mt_objs m ! i)\<lparr>ob_refs := ob_refs (mt_objs m ! i) + 1\<rparr>) m) else None)"
| "mount_step m (InitNew i) = (if live_obj m i \<and> ob_new (mt_objs m ! i) then Some (new_inode_init i m) else None)"
| "mount_step m (DropNew i) = (if live_obj m i \<and> ob_new (mt_objs m ! i) then Some (new_inode_drop i m) else None)"
| "mount_step m (Put i) = (if live_obj m i \<and> \<not> ob_new (mt_objs m ! i) \<and> 0 < ob_refs (mt_objs m ! i) then Some (iput i m) else None)"
| "mount_step m (Evict i) = (if live_obj m i \<and> mt_phase m \<noteq> Dead \<and> \<not> ob_new (mt_objs m ! i) \<and> ob_refs (mt_objs m ! i) = 0
     then Some (destroy_inode_callback i m) else None)"
| "mount_step m (Use i) = (if mt_phase m \<in> {Rooting, Mounted} \<and> live_obj m i \<and> 0 < ob_refs (mt_objs m ! i)
       \<and> \<not> ob_new (mt_objs m ! i) \<and> \<not> ob_bad (mt_objs m ! i)
     then Some (faulty ((if mt_fs_info m then [] else [NullInfo]) @ (if mt_data m = Live then [] else [DataGone])
       @ (if ob_data (mt_objs m ! i) = Live then [] else [ReadUninit])) m)
     else None)"
| "mount_step m KillSb = (if mt_phase m \<in> {Mounted, Failed}
       \<and> (\<forall>i < length (mt_objs m). live_obj m i \<longrightarrow> ob_refs (mt_objs m ! i) = 0)
     then Some ((kill_sb_callback m)\<lparr>mt_phase := Dead\<rparr>) else None)"


section \<open>Invariant\<close>

text \<open>An object on its way from the cache and back, when nothing has failed.\<close>

definition obj_ok :: "mem \<Rightarrow> obj \<Rightarrow> bool" where
  "obj_ok d ob \<longleftrightarrow> \<not> ob_bad ob \<and> (if ob_freed ob = 0
     then d = Live \<and> (if ob_new ob then ob_data ob = Uninit \<and> ob_refs ob = 1 else ob_data ob = Live)
     else ob_freed ob = 1 \<and> ob_data ob = Gone \<and> \<not> ob_new ob)"

definition mount_ok :: "mount \<Rightarrow> bool" where
  "mount_ok m \<longleftrightarrow> mt_faults m = [] \<and> (\<forall>ob \<in> set (mt_objs m). obj_ok (mt_data m) ob)
     \<and> (mt_fs_info m \<longleftrightarrow> mt_data m = Live)
     \<and> (mt_phase m \<in> {Rooting, Mounted} \<longrightarrow> mt_data m = Live)
     \<and> (mt_phase m = Born \<longrightarrow> mt_data m = Uninit)
     \<and> (mt_phase m = Dead \<longrightarrow> mt_data m \<noteq> Live)"

lemma mount_ok_obj: "mount_ok m \<Longrightarrow> i < length (mt_objs m) \<Longrightarrow> obj_ok (mt_data m) (mt_objs m ! i)"
  by (simp add: mount_ok_def)

lemma set_obj_ok:
  assumes "mount_ok m" "obj_ok (mt_data m) ob"
  shows "mount_ok (set_obj i ob m)"
  using assms unfolding mount_ok_def set_obj_def by (auto dest!: subsetD [OF set_update_subset_insert])

lemma set_obj_fields [simp]:
  "mt_phase (set_obj i ob m) = mt_phase m" "mt_data (set_obj i ob m) = mt_data m" "mt_fs_info (set_obj i ob m) = mt_fs_info m"
  "mt_faults (set_obj i ob m) = mt_faults m" "mt_objs (set_obj i ob m) = (mt_objs m)[i := ob]"
  by (simp_all add: set_obj_def)

lemma faulty_nil [simp]: "faulty [] m = m"
  by (simp add: faulty_def)

text \<open>Destroying an initialised inode of a mount that is in order.\<close>

lemma destroy_live:
  assumes "mount_ok m" "live_obj m i" "\<not> ob_new (mt_objs m ! i)"
  shows "destroy_inode_callback i m = set_obj i ((mt_objs m ! i)\<lparr>ob_data := Gone, ob_freed := 1\<rparr>) m"
    "mount_ok (destroy_inode_callback i m)"
proof -
  have ob: "obj_ok (mt_data m) (mt_objs m ! i)" "ob_freed (mt_objs m ! i) = 0"
    using assms(1,2) mount_ok_obj by (auto simp: live_obj_def)
  then show eq: "destroy_inode_callback i m = set_obj i ((mt_objs m ! i)\<lparr>ob_data := Gone, ob_freed := 1\<rparr>) m"
    using assms(3) by (simp add: destroy_inode_callback_def drop_in_place_def obj_ok_def)
  show "mount_ok (destroy_inode_callback i m)"
    unfolding eq using ob assms(3) by (intro set_obj_ok [OF assms(1)]) (simp add: obj_ok_def)
qed

lemma destroy_all:
  assumes "mount_ok m" "distinct is" "\<forall>i \<in> set is. live_obj m i \<and> \<not> ob_new (mt_objs m ! i)"
  shows "let m' = fold destroy_inode_callback is m in mount_ok m' \<and> length (mt_objs m') = length (mt_objs m)
    \<and> mt_phase m' = mt_phase m \<and> mt_data m' = mt_data m \<and> mt_fs_info m' = mt_fs_info m
    \<and> (\<forall>i < length (mt_objs m). ob_freed (mt_objs m' ! i) = (if i \<in> set is then 1 else ob_freed (mt_objs m ! i)))"
  using assms
proof (induction "is" arbitrary: m)
  case (Cons i "is")
  let ?m = "destroy_inode_callback i m"
  have i: "live_obj m i" "\<not> ob_new (mt_objs m ! i)" using Cons.prems(3) by simp_all
  note d = destroy_live [OF Cons.prems(1) i]
  have "\<forall>j \<in> set is. live_obj ?m j \<and> \<not> ob_new (mt_objs ?m ! j)"
  proof
    fix j assume "j \<in> set is"
    then have "i \<noteq> j" "live_obj m j" "\<not> ob_new (mt_objs m ! j)" using Cons.prems(2,3) by auto
    then show "live_obj ?m j \<and> \<not> ob_new (mt_objs ?m ! j)" unfolding d(1) by (simp add: live_obj_def)
  qed
  moreover have "mt_phase ?m = mt_phase m" "mt_data ?m = mt_data m" "mt_fs_info ?m = mt_fs_info m"
      "length (mt_objs ?m) = length (mt_objs m)"
      "\<forall>j < length (mt_objs m). ob_freed (mt_objs ?m ! j) = (if j = i then 1 else ob_freed (mt_objs m ! j))"
    using i(1) unfolding d(1) by (simp_all add: live_obj_def nth_list_update)
  moreover have "distinct is" "i \<notin> set is" using Cons.prems(2) by simp_all
  ultimately show ?case using Cons.IH [OF d(2)] by (simp add: Let_def)
qed simp

lemma kill_super_ok:
  assumes "mount_ok m" "\<forall>i < length (mt_objs m). live_obj m i \<longrightarrow> ob_refs (mt_objs m ! i) = 0"
  shows "mount_ok (kill_super m)" "mt_data (kill_super m) = mt_data m" "mt_fs_info (kill_super m) = mt_fs_info m"
    "\<forall>ob \<in> set (mt_objs (kill_super m)). ob_freed ob = 1"
proof -
  let ?is = "filter (\<lambda>i. ob_freed (mt_objs m ! i) = 0) [0..<length (mt_objs m)]"
  have one: "ob_freed (mt_objs m ! i) = 0 \<or> ob_freed (mt_objs m ! i) = 1" if "i < length (mt_objs m)" for i
    using mount_ok_obj [OF assms(1) that] by (auto simp: obj_ok_def split: if_splits)
  have "live_obj m i \<and> \<not> ob_new (mt_objs m ! i)" if "i \<in> set ?is" for i
  proof -
    have "live_obj m i" using that by (simp add: live_obj_def)
    then have "ob_refs (mt_objs m ! i) = 0" "obj_ok (mt_data m) (mt_objs m ! i)" "ob_freed (mt_objs m ! i) = 0"
      using assms mount_ok_obj by (auto simp: live_obj_def)
    then show ?thesis using \<open>live_obj m i\<close> by (auto simp: obj_ok_def split: if_splits)
  qed
  then have *: "let m' = fold destroy_inode_callback ?is m in mount_ok m' \<and> length (mt_objs m') = length (mt_objs m)
    \<and> mt_phase m' = mt_phase m \<and> mt_data m' = mt_data m \<and> mt_fs_info m' = mt_fs_info m
    \<and> (\<forall>i < length (mt_objs m). ob_freed (mt_objs m' ! i) = (if i \<in> set ?is then 1 else ob_freed (mt_objs m ! i)))"
    by (intro destroy_all [OF assms(1)]) auto
  then show "mount_ok (kill_super m)" "mt_data (kill_super m) = mt_data m" "mt_fs_info (kill_super m) = mt_fs_info m"
    by (simp_all add: kill_super_def Let_def)
  have "ob_freed (mt_objs (kill_super m) ! i) = 1" if "i < length (mt_objs m)" for i
    using * one [OF that] that by (auto simp: kill_super_def Let_def)
  moreover have "length (mt_objs (kill_super m)) = length (mt_objs m)" using * by (simp add: kill_super_def Let_def)
  ultimately show "\<forall>ob \<in> set (mt_objs (kill_super m)). ob_freed ob = 1" by (auto simp: in_set_conv_nth)
qed

text \<open>The steps at which nothing goes wrong in making an inode.\<close>

fun smooth :: "mount_label \<Rightarrow> bool" where
  "smooth (DropNew i) = False"
| "smooth LostInode = False"
| "smooth _ = True"

definition all_freed :: "mount \<Rightarrow> bool" where
  "all_freed m \<longleftrightarrow> mt_phase m = Dead \<longrightarrow> (\<forall>ob \<in> set (mt_objs m). ob_freed ob = 1)"

lemma kill_sb_ok:
  assumes "mount_ok m" "\<forall>i < length (mt_objs m). live_obj m i \<longrightarrow> ob_refs (mt_objs m ! i) = 0"
  shows "mount_ok ((kill_sb_callback m)\<lparr>mt_phase := Dead\<rparr>)" "all_freed ((kill_sb_callback m)\<lparr>mt_phase := Dead\<rparr>)"
  using kill_super_ok [OF assms]
  by (auto simp: kill_sb_callback_def Let_def mount_ok_def all_freed_def obj_ok_def)

lemma mount_step_ok:
  assumes "mount_ok m" "all_freed m" "smooth l" "mount_step m l = Some m'"
  shows "mount_ok m' \<and> all_freed m'"
proof (cases l)
  case KillSb
  then show ?thesis using assms kill_sb_ok by (auto split: if_splits)
next
  case (Evict i)
  then have i: "live_obj m i" "\<not> ob_new (mt_objs m ! i)" "mt_phase m \<noteq> Dead" "m' = destroy_inode_callback i m"
    using assms(4) by (auto split: if_splits)
  have "mt_phase m' = mt_phase m" unfolding i(4) destroy_live(1) [OF assms(1) i(1,2)] by simp
  then show ?thesis using destroy_live(2) [OF assms(1) i(1,2)] i(3,4) by (simp add: all_freed_def)
next
  case (Put i)
  then have i: "live_obj m i" "\<not> ob_new (mt_objs m ! i)" "m' = iput i m" using assms(4) by (auto split: if_splits)
  have ob: "obj_ok (mt_data m) (mt_objs m ! i)" using i(1) assms(1) mount_ok_obj by (auto simp: live_obj_def)
  then have m': "m' = set_obj i ((mt_objs m ! i)\<lparr>ob_refs := ob_refs (mt_objs m ! i) - 1\<rparr>) m"
    using i by (auto simp: iput_def live_obj_def obj_ok_def Let_def)
  have "mount_ok m'" unfolding m' using ob i(2) by (intro set_obj_ok [OF assms(1)]) (auto simp: obj_ok_def)
  moreover have "mt_phase m \<noteq> Dead" using assms(2) i(1) by (auto simp: all_freed_def live_obj_def)
  ultimately show ?thesis unfolding m' by (simp add: all_freed_def)
next
  case (CachedInode i)
  then show ?thesis using assms mount_ok_obj [OF assms(1), of i]
    by (auto simp: all_freed_def live_obj_def obj_ok_def split: if_splits intro!: set_obj_ok)
next
  case (InitNew i)
  then have "mt_phase m \<noteq> Dead" using assms(2,4) by (auto simp: all_freed_def live_obj_def split: if_splits)
  then show ?thesis using assms InitNew mount_ok_obj [OF assms(1), of i]
    by (auto simp: all_freed_def live_obj_def obj_ok_def new_inode_init_def split: if_splits intro!: set_obj_ok)
next
  case (NewInode ok)
  let ?ob = "\<lparr>ob_data = Uninit, ob_bad = False, ob_new = True, ob_refs = 1, ob_freed = 0\<rparr>"
  have ph: "mt_phase m \<in> {Rooting, Mounted}" and "m' = (if ok then m\<lparr>mt_objs := mt_objs m @ [?ob]\<rparr> else m)"
    using assms(4) NewInode by (auto simp: alloc_inode_callback_def set_obj_def list_update_append split: if_splits)
  moreover have "obj_ok (mt_data m) ?ob" using assms(1) ph by (auto simp: mount_ok_def obj_ok_def)
  ultimately show ?thesis using assms(1,2) by (auto simp: mount_ok_def all_freed_def)
next
  case (Use i)
  then have ph: "mt_phase m \<in> {Rooting, Mounted}" "live_obj m i" "\<not> ob_new (mt_objs m ! i)"
    using assms(4) by (auto split: if_splits)
  then have "mt_fs_info m" "mt_data m = Live" "ob_data (mt_objs m ! i) = Live"
    using assms(1) mount_ok_obj [OF assms(1), of i] by (auto simp: mount_ok_def live_obj_def obj_ok_def)
  then have "m' = m" using assms(4) Use by (simp split: if_splits)
  then show ?thesis using assms(1,2) by simp
next
  case (FillSuper r)
  have "obj_ok Uninit ob \<Longrightarrow> obj_ok d ob" for ob d by (auto simp: obj_ok_def split: if_splits)
  then show ?thesis using assms FillSuper
    by (cases r) (auto simp: mount_ok_def all_freed_def fill_super_store_def split: if_splits)
next
  case (InitRoot r)
  then show ?thesis using assms by (auto simp: mount_ok_def all_freed_def split: if_splits)
qed (use assms in auto)

definition smooth_step :: "mount \<Rightarrow> mount_label \<Rightarrow> mount option" where
  "smooth_step m l = (if smooth l then mount_step m l else None)"

lemma run_smooth: "\<forall>l \<in> set ls. smooth l \<Longrightarrow> run mount_step m ls = run smooth_step m ls"
  by (induction ls arbitrary: m) (auto simp: smooth_step_def split: Option.bind_splits)

interpretation vm: kept smooth_step mount_new "\<lambda>m. mount_ok m \<and> all_freed m"
proof unfold_locales
  show "mount_ok mount_new \<and> all_freed mount_new" by (simp add: mount_ok_def all_freed_def mount_new_def)
next
  fix m l m' assume "mount_ok m \<and> all_freed m" "smooth_step m l = Some m'"
  then show "mount_ok m' \<and> all_freed m'" by (auto simp: smooth_step_def dest: mount_step_ok split: if_splits)
qed

lemma smooth_run_ok:
  assumes "run mount_step mount_new ls = Some m" "\<forall>l \<in> set ls. smooth l"
  shows "mount_ok m" "all_freed m"
  using vm.reached [OF run_reachable [of smooth_step mount_new ls m]] assms run_smooth [of ls mount_new] by auto

text \<open>
  C9. The type state of a mount.  As long as every new inode is initialised
  and no two lookups race for one, however mounting, looking inodes up, using,
  releasing, evicting and unmounting interleave: no callback of a ready
  super-block finds its data missing, dropped or not yet written; no data is
  dropped before it is written, twice, or after the super-block data it may
  refer to; no object is freed twice or used after it was freed; and when the
  super-block is gone its data and every inode have been dropped and freed
  exactly once, also when mounting failed half way.
\<close>

theorem mount_lifecycle:
  assumes "run mount_step mount_new ls = Some m" "\<forall>l \<in> set ls. smooth l"
  shows "mt_faults m = []
    \<and> (mt_phase m \<in> {Rooting, Mounted} \<longrightarrow> mt_fs_info m \<and> mt_data m = Live)
    \<and> (\<forall>ob \<in> set (mt_objs m). ob_freed ob \<le> 1 \<and> (ob_freed ob = 1 \<longleftrightarrow> ob_data ob = Gone))
    \<and> (mt_phase m = Dead \<longrightarrow> \<not> mt_fs_info m \<and> mt_data m \<noteq> Live \<and> (\<forall>ob \<in> set (mt_objs m). ob_freed ob = 1))"
  using smooth_run_ok [OF assms] by (auto simp: mount_ok_def all_freed_def obj_ok_def split: if_splits)

theorem mount_lifecycle_witness:
  "\<exists>m. run mount_step mount_new [FillSuper (Inr ()), NewInode True, InitNew 0, InitRoot (Inr ()), Use 0, Put 0, KillSb] = Some m
     \<and> mt_faults m = [] \<and> mt_phase m = Dead \<and> (\<forall>ob \<in> set (mt_objs m). ob_freed ob = 1)"
proof -
  let ?ls = "[FillSuper (Inr ()), NewInode True, InitNew 0, InitRoot (Inr ()), Use 0, Put 0, KillSb]"
  obtain m where m: "run mount_step mount_new ?ls = Some m" "mt_phase m = Dead"
    by (simp add: mount_new_def fill_super_store_def fill_super_root_def alloc_inode_callback_def new_inode_init_def iput_def
        live_obj_def kill_sb_callback_def kill_super_def Let_def)
  then show ?thesis using mount_lifecycle [OF m(1)] by auto
qed

text \<open>
  C39. A new inode whose initialisation fails is released twice: dropping the
  \<open>NewINode\<close> calls \<open>iget_failed\<close>, which gives up the last reference and frees
  the inode, and then drops the reference that it holds.  And when another
  lookup wins the race for an inode number, the kernel destroys the object that
  lost, and its data is dropped although it was never written.
\<close>

theorem failed_inode_unsafe:
  assumes "run mount_step mount_new ls = Some m" "\<forall>l \<in> set ls. smooth l"
  shows "(mount_step m (DropNew i) = Some m1 \<longrightarrow> UseAfterFree \<in> set (mt_faults m1))
    \<and> (mount_step m LostInode = Some m2 \<longrightarrow> DropUninit \<in> set (mt_faults m2))"
proof -
  have "UseAfterFree \<in> set (mt_faults m1)" if "mount_step m (DropNew i) = Some m1"
  proof -
    have i: "i < length (mt_objs m)" "ob_freed (mt_objs m ! i) = 0" "ob_new (mt_objs m ! i)" "m1 = new_inode_drop i m"
      using that by (auto simp: live_obj_def split: if_splits)
    then have "ob_refs (mt_objs m ! i) = 1" using mount_ok_obj [OF smooth_run_ok(1) [OF assms] i(1)] by (simp add: obj_ok_def)
    then show ?thesis using i
      by (simp add: new_inode_drop_def iget_failed_def iput_def destroy_inode_callback_def Let_def faulty_def)
  qed
  moreover have "DropUninit \<in> set (mt_faults m2)" if "mount_step m LostInode = Some m2"
    using that by (auto simp: alloc_inode_callback_def destroy_inode_callback_def drop_in_place_def faulty_def Let_def split: if_splits)
  ultimately show ?thesis by blast
qed

theorem failed_inode_unsafe_witness:
  "\<exists>m m1. run mount_step mount_new [FillSuper (Inr ()), NewInode True] = Some m \<and> mount_step m (DropNew 0) = Some m1
     \<and> UseAfterFree \<in> set (mt_faults m1)"
proof -
  obtain m where m: "run mount_step mount_new [FillSuper (Inr ()), NewInode True] = Some m"
      "length (mt_objs m) = 1" "live_obj m 0" "ob_new (mt_objs m ! 0)"
    by (simp add: mount_new_def fill_super_store_def alloc_inode_callback_def live_obj_def)
  then show ?thesis using failed_inode_unsafe [OF m(1), of 0 "new_inode_drop 0 m"] by auto
qed

end
