(* ===== verification/Http_Types.thy ===== *)
theory Http_Types
  imports Kernel_Vec
begin

text \<open>
  The vocabulary of the HTTP library, \<open>rko-util/src/http\<close>: methods,
  versions, status codes, header names, the list of headers and the requests
  and responses with their builders.  A byte is a \<open>char\<close>; byte vectors
  and the list of headers are the vectors of \<open>Kernel_Vec\<close>, so every
  constructor can fail to allocate.
\<close>

section \<open>Methods, versions, status codes\<close>

datatype http_method = Get | Head | Post | Put | Delete | Options | Patch

fun method_str :: "http_method \<Rightarrow> string" where
  "method_str Get = ''GET''"
| "method_str Head = ''HEAD''"
| "method_str Post = ''POST''"
| "method_str Put = ''PUT''"
| "method_str Delete = ''DELETE''"
| "method_str Options = ''OPTIONS''"
| "method_str Patch = ''PATCH''"

definition method_parse :: "string \<Rightarrow> http_method option" where
  "method_parse s =
     (if s = ''GET'' then Some Get else if s = ''HEAD'' then Some Head
      else if s = ''POST'' then Some Post else if s = ''PUT'' then Some Put
      else if s = ''DELETE'' then Some Delete else if s = ''OPTIONS'' then Some Options
      else if s = ''PATCH'' then Some Patch else None)"

datatype version = Http10 | Http11

definition from_httparse :: "nat \<Rightarrow> version" where
  "from_httparse v = (if v = 0 then Http10 else Http11)"

fun version_str :: "version \<Rightarrow> string" where
  "version_str Http10 = ''HTTP/1.0''"
| "version_str Http11 = ''HTTP/1.1''"

datatype status_code = StatusCode "16 word"

definition as_u16 :: "status_code \<Rightarrow> nat" where
  "as_u16 s = (case s of StatusCode c \<Rightarrow> unat c)"

definition from_u16 :: "16 word \<Rightarrow> status_code" where
  "from_u16 c = StatusCode c"

definition OK :: status_code where "OK = StatusCode 200"
definition BAD_REQUEST :: status_code where "BAD_REQUEST = StatusCode 400"
definition NOT_FOUND :: status_code where "NOT_FOUND = StatusCode 404"
definition PAYLOAD_TOO_LARGE :: status_code where "PAYLOAD_TOO_LARGE = StatusCode 413"
definition HEADER_TOO_LARGE :: status_code where "HEADER_TOO_LARGE = StatusCode 431"
definition INTERNAL_SERVER_ERROR :: status_code where "INTERNAL_SERVER_ERROR = StatusCode 500"
definition SERVICE_UNAVAILABLE :: status_code where "SERVICE_UNAVAILABLE = StatusCode 503"
definition GATEWAY_TIMEOUT :: status_code where "GATEWAY_TIMEOUT = StatusCode 504"

definition reason :: "status_code \<Rightarrow> string" where
  "reason s =
     (let c = as_u16 s
      in if c = 200 then ''OK'' else if c = 201 then ''Created'' else if c = 204 then ''No Content''
         else if c = 301 then ''Moved Permanently'' else if c = 302 then ''Found''
         else if c = 304 then ''Not Modified'' else if c = 400 then ''Bad Request''
         else if c = 401 then ''Unauthorized'' else if c = 403 then ''Forbidden''
         else if c = 404 then ''Not Found'' else if c = 405 then ''Method Not Allowed''
         else if c = 413 then ''Payload Too Large''
         else if c = 431 then ''Request Header Fields Too Large''
         else if c = 500 then ''Internal Server Error'' else if c = 502 then ''Bad Gateway''
         else if c = 503 then ''Service Unavailable'' else ''Unknown'')"

definition is_success :: "status_code \<Rightarrow> bool" where
  "is_success s \<longleftrightarrow> as_u16 s \<ge> 200 \<and> as_u16 s < 300"

definition is_redirect :: "status_code \<Rightarrow> bool" where
  "is_redirect s \<longleftrightarrow> as_u16 s \<ge> 300 \<and> as_u16 s < 400"

definition is_client_error :: "status_code \<Rightarrow> bool" where
  "is_client_error s \<longleftrightarrow> as_u16 s \<ge> 400 \<and> as_u16 s < 500"

definition is_server_error :: "status_code \<Rightarrow> bool" where
  "is_server_error s \<longleftrightarrow> as_u16 s \<ge> 500 \<and> as_u16 s < 600"


section \<open>Headers\<close>

definition HOST :: string where "HOST = ''Host''"
definition CONTENT_TYPE :: string where "CONTENT_TYPE = ''Content-Type''"
definition CONTENT_LENGTH :: string where "CONTENT_LENGTH = ''Content-Length''"
definition CONNECTION :: string where "CONNECTION = ''Connection''"

text \<open>Equality of bytes up to the case of ASCII letters.\<close>

definition ascii_lower :: "char \<Rightarrow> char" where
  "ascii_lower c =
     (if 65 \<le> (of_char c :: nat) \<and> (of_char c :: nat) \<le> 90 then char_of ((of_char c :: nat) + 32) else c)"

definition eq_ignore_ascii_case :: "string \<Rightarrow> string \<Rightarrow> bool" where
  "eq_ignore_ascii_case a b \<longleftrightarrow>
     (if length a \<noteq> length b then False
      else \<forall>(x, y) \<in> set (zip a b). ascii_lower x = ascii_lower y)"

type_synonym headers = "(char kvec \<times> char kvec) kvec"

text \<open>The type of the elements of the vector: a pair of vectors of three words each.\<close>

definition pair_ty :: elem_ty where
  "pair_ty = \<lparr>size_of = 48, align_of = 8\<rparr>"

text \<open>The allocator as the library uses it: for bytes and for the list of headers.\<close>

record http_alloc =
  al_bytes :: "char krealloc"
  al_pairs :: "(char kvec \<times> char kvec) krealloc"

definition headers_new :: headers where
  "headers_new = kv_new"

fun get_loop :: "(char kvec \<times> char kvec) list \<Rightarrow> string \<Rightarrow> string option" where
  "get_loop [] name = None"
| "get_loop ((n, v) # rest) name =
     (if eq_ignore_ascii_case (kv_list n) name then Some (kv_list v) else get_loop rest name)"

definition headers_get :: "headers \<Rightarrow> string \<Rightarrow> string option" where
  "headers_get h name = get_loop (kv_list h) name"

definition headers_insert :: "http_alloc \<Rightarrow> string \<Rightarrow> string \<Rightarrow> (headers, alloc_error, unit) op" where
  "headers_insert al name value =
     sbind (slift (from_slice u8_ty (al_bytes al) name)) (\<lambda>n.
     sbind (slift (from_slice u8_ty (al_bytes al) value)) (\<lambda>v.
       kv_push pair_ty (al_pairs al) (n, v)))"

definition headers_iter :: "headers \<Rightarrow> (string \<times> string) list" where
  "headers_iter h = map (\<lambda>(n, v). (kv_list n, kv_list v)) (kv_list h)"

definition headers_len :: "headers \<Rightarrow> nat" where
  "headers_len h = kv_len h"

definition headers_is_empty :: "headers \<Rightarrow> bool" where
  "headers_is_empty h \<longleftrightarrow> kv_len h = 0"

text \<open>
  Parsing a decimal number as the standard library does: an optional plus
  sign, at least one digit, and no overflow.
\<close>

definition digit_val :: "char \<Rightarrow> nat option" where
  "digit_val c = (if 48 \<le> (of_char c :: nat) \<and> (of_char c :: nat) \<le> 57 then Some (of_char c - 48) else None)"

fun parse_digits :: "nat \<Rightarrow> string \<Rightarrow> nat option" where
  "parse_digits acc [] = Some acc"
| "parse_digits acc (c # cs) =
     Option.bind (digit_val c) (\<lambda>d. Option.bind (checked_mul acc 10) (\<lambda>x.
       Option.bind (checked_add x d) (\<lambda>y. parse_digits y cs)))"

definition parse_usize :: "string \<Rightarrow> nat option" where
  "parse_usize s = (case s of
     [] \<Rightarrow> None
   | c # cs \<Rightarrow> if c = CHR ''+'' then (if cs = [] then None else parse_digits 0 cs)
               else parse_digits 0 s)"

definition content_length :: "headers \<Rightarrow> nat option" where
  "content_length h = Option.bind (headers_get h CONTENT_LENGTH) parse_usize"

definition is_connection_close :: "headers \<Rightarrow> bool" where
  "is_connection_close h = (case headers_get h CONNECTION of
     Some v \<Rightarrow> eq_ignore_ascii_case v ''close'' | None \<Rightarrow> False)"

definition is_connection_keepalive :: "headers \<Rightarrow> bool" where
  "is_connection_keepalive h = (case headers_get h CONNECTION of
     Some v \<Rightarrow> eq_ignore_ascii_case v ''keep-alive'' | None \<Rightarrow> False)"


section \<open>Requests and responses\<close>

record request =
  rq_method :: http_method
  rq_path :: "char kvec"
  rq_version :: version
  rq_headers :: headers
  rq_body :: "char kvec"

record response =
  rs_status :: status_code
  rs_version :: version
  rs_headers :: headers
  rs_body :: "char kvec"

text \<open>Whether a byte string is well-formed UTF-8; \<open>path\<close> falls back to the root when not.\<close>

definition utf8_cont :: "char \<Rightarrow> bool" where
  "utf8_cont c \<longleftrightarrow> 0x80 \<le> (of_char c :: nat) \<and> (of_char c :: nat) \<le> 0xBF"

definition utf8_second :: "nat \<Rightarrow> char \<Rightarrow> bool" where
  "utf8_second lead c \<longleftrightarrow> utf8_cont c
     \<and> (lead = 0xE0 \<longrightarrow> 0xA0 \<le> (of_char c :: nat)) \<and> (lead = 0xED \<longrightarrow> (of_char c :: nat) \<le> 0x9F)
     \<and> (lead = 0xF0 \<longrightarrow> 0x90 \<le> (of_char c :: nat)) \<and> (lead = 0xF4 \<longrightarrow> (of_char c :: nat) \<le> 0x8F)"

fun from_utf8_ok :: "string \<Rightarrow> bool" where
  "from_utf8_ok [] = True"
| "from_utf8_ok (c # cs) =
     (let b = of_char c :: nat
      in if b < 0x80 then from_utf8_ok cs
         else if 0xC2 \<le> b \<and> b \<le> 0xDF
         then (case cs of d # ds \<Rightarrow> utf8_second b d \<and> from_utf8_ok ds | _ \<Rightarrow> False)
         else if 0xE0 \<le> b \<and> b \<le> 0xEF
         then (case cs of d # e # ds \<Rightarrow> utf8_second b d \<and> utf8_cont e \<and> from_utf8_ok ds | _ \<Rightarrow> False)
         else if 0xF0 \<le> b \<and> b \<le> 0xF4
         then (case cs of d # e # f # ds \<Rightarrow> utf8_second b d \<and> utf8_cont e \<and> utf8_cont f \<and> from_utf8_ok ds
               | _ \<Rightarrow> False)
         else False)"

definition rq_path_str :: "request \<Rightarrow> string" where
  "rq_path_str r = (if from_utf8_ok (kv_list (rq_path r)) then kv_list (rq_path r) else ''/'')"

record request_builder =
  rb_method :: http_method
  rb_path :: "char kvec option"
  rb_version :: version
  rb_headers :: headers
  rb_error :: "alloc_error option"

definition rb_new :: request_builder where
  "rb_new = \<lparr>rb_method = Get, rb_path = None, rb_version = Http11, rb_headers = headers_new,
     rb_error = None\<rparr>"

definition rb_set_method :: "http_method \<Rightarrow> request_builder \<Rightarrow> request_builder" where
  "rb_set_method mt b = b\<lparr>rb_method := mt\<rparr>"

definition rb_set_path :: "http_alloc \<Rightarrow> string \<Rightarrow> request_builder \<Rightarrow> request_builder" where
  "rb_set_path al p b = (case from_slice u8_ty (al_bytes al) p of
     Inr v \<Rightarrow> b\<lparr>rb_path := Some v\<rparr> | Inl e \<Rightarrow> b\<lparr>rb_error := Some e\<rparr>)"

definition rb_set_version :: "version \<Rightarrow> request_builder \<Rightarrow> request_builder" where
  "rb_set_version v b = b\<lparr>rb_version := v\<rparr>"

definition rb_header :: "http_alloc \<Rightarrow> string \<Rightarrow> string \<Rightarrow> request_builder \<Rightarrow> request_builder" where
  "rb_header al name value b = (case headers_insert al name value (rb_headers b) of
     (Inl e, h) \<Rightarrow> b\<lparr>rb_headers := h, rb_error := Some e\<rparr>
   | (Inr _, h) \<Rightarrow> b\<lparr>rb_headers := h\<rparr>)"

definition rb_body :: "http_alloc \<Rightarrow> char kvec \<Rightarrow> request_builder \<Rightarrow> alloc_error + request" where
  "rb_body al body b = (case rb_error b of
     Some e \<Rightarrow> Inl e
   | None \<Rightarrow>
       rbind (case rb_path b of Some p \<Rightarrow> Inr p | None \<Rightarrow> from_slice u8_ty (al_bytes al) ''/'') (\<lambda>path.
         Inr \<lparr>rq_method = rb_method b, rq_path = path, rq_version = rb_version b,
              rq_headers = rb_headers b, rq_body = body\<rparr>))"

definition request_get :: "http_alloc \<Rightarrow> string \<Rightarrow> alloc_error + request" where
  "request_get al path = rb_body al kv_new (rb_set_path al path (rb_set_method Get rb_new))"

definition request_post :: "http_alloc \<Rightarrow> string \<Rightarrow> string \<Rightarrow> string \<Rightarrow> alloc_error + request" where
  "request_post al path body content_type =
     (let b = rb_header al CONTENT_TYPE content_type (rb_set_path al path (rb_set_method Post rb_new))
      in rbind (from_slice u8_ty (al_bytes al) body) (\<lambda>v. rb_body al v b))"

record response_builder =
  sb_status :: status_code
  sb_version :: version
  sb_headers :: headers
  sb_error :: "alloc_error option"

definition sb_new :: response_builder where
  "sb_new = \<lparr>sb_status = OK, sb_version = Http11, sb_headers = headers_new, sb_error = None\<rparr>"

definition sb_set_status :: "status_code \<Rightarrow> response_builder \<Rightarrow> response_builder" where
  "sb_set_status s b = b\<lparr>sb_status := s\<rparr>"

definition sb_set_version :: "version \<Rightarrow> response_builder \<Rightarrow> response_builder" where
  "sb_set_version v b = b\<lparr>sb_version := v\<rparr>"

definition sb_header :: "http_alloc \<Rightarrow> string \<Rightarrow> string \<Rightarrow> response_builder \<Rightarrow> response_builder" where
  "sb_header al name value b = (case headers_insert al name value (sb_headers b) of
     (Inl e, h) \<Rightarrow> b\<lparr>sb_headers := h, sb_error := Some e\<rparr>
   | (Inr _, h) \<Rightarrow> b\<lparr>sb_headers := h\<rparr>)"

definition sb_body :: "char kvec \<Rightarrow> response_builder \<Rightarrow> alloc_error + response" where
  "sb_body body b = (case sb_error b of
     Some e \<Rightarrow> Inl e
   | None \<Rightarrow> Inr \<lparr>rs_status = sb_status b, rs_version = sb_version b, rs_headers = sb_headers b,
                  rs_body = body\<rparr>)"


section \<open>Errors\<close>

datatype http_error = BadRequest | HeaderTooLarge | PayloadTooLarge | ConnectionClosed | Internal

definition error_text :: "http_error \<Rightarrow> status_code \<times> string" where
  "error_text e = (case e of
     BadRequest \<Rightarrow> (BAD_REQUEST, ''400 Bad Request'' @ [CHR 0x0A])
   | HeaderTooLarge \<Rightarrow> (HEADER_TOO_LARGE, ''431 Request Header Fields Too Large'' @ [CHR 0x0A])
   | PayloadTooLarge \<Rightarrow> (PAYLOAD_TOO_LARGE, ''413 Payload Too Large'' @ [CHR 0x0A])
   | ConnectionClosed \<Rightarrow> (INTERNAL_SERVER_ERROR, ''500 Internal Server Error'' @ [CHR 0x0A])
   | Internal \<Rightarrow> (INTERNAL_SERVER_ERROR, ''500 Internal Server Error'' @ [CHR 0x0A]))"

definition to_response :: "http_alloc \<Rightarrow> http_error \<Rightarrow> response" where
  "to_response al e =
     (let (status, text) = error_text e;
          body = (case from_slice u8_ty (al_bytes al) text of Inr v \<Rightarrow> v | Inl _ \<Rightarrow> kv_new);
          h1 = snd (headers_insert al CONTENT_TYPE ''text/plain'' headers_new);
          h2 = snd (headers_insert al CONNECTION ''close'' h1)
      in \<lparr>rs_status = status, rs_version = Http11, rs_headers = h2, rs_body = body\<rparr>)"

definition to_error :: "http_error \<Rightarrow> error" where
  "to_error e = (case e of BadRequest \<Rightarrow> EINVAL | HeaderTooLarge \<Rightarrow> EINVAL
     | PayloadTooLarge \<Rightarrow> E2BIG | ConnectionClosed \<Rightarrow> ECONNRESET | Internal \<Rightarrow> ENOMEM)"

section \<open>Lemmas\<close>

lemma method_parse_str [simp]: "method_parse (method_str m) = Some m"
  by (cases m) (simp_all add: method_parse_def)

lemma method_parse_Some: "method_parse s = Some m \<longleftrightarrow> s = method_str m"
  by (cases m) (auto simp: method_parse_def split: if_splits)

lemma eq_ignore_ascii_case_iff: "eq_ignore_ascii_case a b \<longleftrightarrow> map ascii_lower a = map ascii_lower b"
proof (cases "length a = length b")
  case True
  then show ?thesis
    by (induction a b rule: list_induct2) (auto simp: eq_ignore_ascii_case_def)
next
  case False
  then show ?thesis by (auto simp: eq_ignore_ascii_case_def dest: map_eq_imp_length_eq)
qed

definition al_ok :: "http_alloc \<Rightarrow> bool" where
  "al_ok al \<longleftrightarrow> krealloc_ok u8_ty (al_bytes al) \<and> krealloc_ok pair_ty (al_pairs al)"

text \<open>Well-formed headers: the vector and every name and value in it.\<close>

definition hd_ok :: "headers \<Rightarrow> bool" where
  "hd_ok h \<longleftrightarrow> kv_inv pair_ty h \<and> (\<forall>(n, v) \<in> set (kv_list h). kv_inv u8_ty n \<and> kv_inv u8_ty v)"

lemma kv_inv_new [simp]: "kv_inv ty kv_new" "kv_list kv_new = []"
  by (simp_all add: kv_inv_def kv_rep_def kv_list_def kv_new_def)

lemma hd_ok_new [simp]: "hd_ok headers_new" "headers_iter headers_new = []"
  by (simp_all add: hd_ok_def headers_new_def headers_iter_def)

text \<open>The first value whose name is the given one up to case.\<close>

primrec first_value :: "string \<Rightarrow> (string \<times> string) list \<Rightarrow> string option" where
  "first_value name [] = None"
| "first_value name (p # ps) =
     (if map ascii_lower (fst p) = map ascii_lower name then Some (snd p) else first_value name ps)"

lemma headers_get_first: "headers_get h name = first_value name (headers_iter h)"
proof -
  have "get_loop ps name = first_value name (map (\<lambda>(n, v). (kv_list n, kv_list v)) ps)" for ps
    by (induction ps name rule: get_loop.induct) (simp_all add: eq_ignore_ascii_case_iff)
  then show ?thesis by (simp add: headers_get_def headers_iter_def)
qed

lemma first_value_append:
  "first_value name (ps @ qs) = (case first_value name ps of Some v \<Rightarrow> Some v | None \<Rightarrow> first_value name qs)"
  by (induction ps) auto

lemma headers_insert_spec:
  assumes "al_ok al" "hd_ok h"
  obtains (bad) "headers_insert al n v h = (Inl AllocError, h)"
  | (good) h' where "headers_insert al n v h = (Inr (), h')" "hd_ok h'"
      "headers_iter h' = headers_iter h @ [(n, v)]"
proof -
  have bytes: "krealloc_ok u8_ty (al_bytes al)" using assms(1) by (simp add: al_ok_def)
  from bytes show thesis
  proof (cases rule: from_slice_cases [where xs = n])
    case bad
    then show ?thesis by (intro that(1)) (simp add: headers_insert_def sbind_def)
  next
    case n: (good nv)
    from bytes show ?thesis
    proof (cases rule: from_slice_cases [where xs = v])
      case bad
      with n show ?thesis by (intro that(1)) (simp add: headers_insert_def sbind_def)
    next
      case v: (good vv)
      obtain r h' where push: "kv_push pair_ty (al_pairs al) (nv, vv) h = (r, h')" by fastforce
      then have run: "headers_insert al n v h = (r, h')"
        using n v by (simp add: headers_insert_def sbind_def)
      have "r = Inl AllocError \<and> h' = h \<or> r = Inr () \<and> kv_inv pair_ty h' \<and> kv_list h' = kv_list h @ [(nv, vv)]"
        using kv.push_spec [OF _ _ push] assms by (simp add: al_ok_def hd_ok_def)
      then show ?thesis
      proof
        assume "r = Inl AllocError \<and> h' = h"
        with run that(1) show ?thesis by blast
      next
        assume "r = Inr () \<and> kv_inv pair_ty h' \<and> kv_list h' = kv_list h @ [(nv, vv)]"
        with run that(2) n v assms(2) show ?thesis by (auto simp: hd_ok_def headers_iter_def)
      qed
    qed
  qed
qed

text \<open>
  C25. The headers are a list of pairs searched without regard to case:
  inserting appends the pair or fails to allocate and changes nothing, and
  looking a name up afterwards gives the value it had before, if it had one,
  else the inserted one if the names agree up to the case of ASCII letters.
\<close>

theorem headers_refine_pairs:
  assumes "al_ok al" "hd_ok h" "headers_insert al n v h = (r, h')"
  shows "hd_ok h'
    \<and> (r = Inl AllocError \<and> h' = h \<or> r = Inr () \<and> headers_iter h' = headers_iter h @ [(n, v)])
    \<and> (r = Inr () \<longrightarrow> headers_get h' name =
         (case headers_get h name of Some w \<Rightarrow> Some w
          | None \<Rightarrow> if map ascii_lower n = map ascii_lower name then Some v else None))"
  using assms(1,2)
proof (cases rule: headers_insert_spec [where n = n and v = v])
  case bad
  with assms show ?thesis by auto
next
  case (good h1)
  with assms show ?thesis by (auto simp: headers_get_first first_value_append split: option.splits)
qed

definition demo_al :: http_alloc where
  "demo_al = \<lparr>al_bytes = generous 1, al_pairs = generous 48\<rparr>"

lemma demo_al_ok: "al_ok demo_al"
  using generous_ok [of u8_ty] generous_ok [of pair_ty]
  by (simp add: al_ok_def demo_al_def u8_ty_def pair_ty_def)

theorem headers_refine_pairs_witness:
  "\<exists>h'. headers_insert demo_al ''Content-Length'' ''5'' headers_new = (Inr (), h')
     \<and> headers_get h' ''content-LENGTH'' = Some ''5''"
proof -
  obtain h' where run: "headers_insert demo_al ''Content-Length'' ''5'' headers_new = (Inr (), h')"
    by (simp add: headers_insert_def demo_al_def generous_def from_slice_def with_capacity_def kv_eval
        kv_push_def grow_def headers_new_def pair_ty_def u8_ty_def from_size_align_def
        kmalloc_realloc_def kv_write_end_def slot_write_def)
  have "headers_get headers_new ''content-LENGTH'' = None"
    by (simp add: headers_get_def headers_new_def kv_new_def kv_list_def)
  with headers_refine_pairs [OF demo_al_ok hd_ok_new(1) run, of "''content-LENGTH''"] run
  show ?thesis by (simp add: ascii_lower_def char_of_def bit_0)
qed

section \<open>With an allocator that does not run out\<close>

definition al_total :: "http_alloc \<Rightarrow> bool" where
  "al_total al \<longleftrightarrow> krealloc_total (al_bytes al) \<and> krealloc_total (al_pairs al)"

lemma demo_al_total: "al_total demo_al"
  by (simp add: al_total_def krealloc_total_def demo_al_def generous_def)

text \<open>Far more than a connection can hold, far less than the address space.\<close>

definition small :: "nat \<Rightarrow> bool" where
  "small n \<longleftrightarrow> n \<le> 2 ^ 40"

lemma from_slice_small:
  assumes "al_ok al" "al_total al" "small (length xs)"
  shows "\<exists>v. from_slice u8_ty (al_bytes al) xs = Inr v"
  using assms
  by (intro from_slice_total) (auto simp: al_ok_def al_total_def small_def u8_ty_def isize_max_def)

lemma headers_insert_small:
  assumes "al_ok al" "al_total al" "hd_ok h" "kv_cap h \<le> 2 * length (kv_list h)"
    and "small (length n)" "small (length v)" "small (length (kv_list h))"
  shows "\<exists>h'. headers_insert al n v h = (Inr (), h') \<and> kv_cap h' \<le> 2 * length (kv_list h')
    \<and> length (kv_list h') = Suc (length (kv_list h))"
proof -
  obtain nv vv where nv: "from_slice u8_ty (al_bytes al) n = Inr nv" "from_slice u8_ty (al_bytes al) v = Inr vv"
    using from_slice_small [OF assms(1,2)] assms(5,6) by blast
  have ok: "krealloc_ok pair_ty (al_pairs al)" "krealloc_total (al_pairs al)"
    using assms(1,2) by (simp_all add: al_ok_def al_total_def)
  have rep: "kv_rep pair_ty (kv_list h) h" using assms(3) by (simp add: hd_ok_def kv_inv_def)
  obtain h' where h': "kv_push pair_ty (al_pairs al) (nv, vv) h = (Inr (), h')"
    "kv_cap h' \<le> 2 * length (kv_list h @ [(nv, vv)])"
    using push_total [OF ok rep assms(4), of "(nv, vv)"] assms(7)
    by (auto simp: pair_ty_def small_def isize_max_def)
  moreover have "kv_list h' = kv_list h @ [(nv, vv)]"
    using kv.push_spec [OF ok(1) _ h'(1)] assms(3) by (simp add: hd_ok_def)
  ultimately show ?thesis using nv by (simp add: headers_insert_def sbind_def)
qed

end
