(* ===== verification/Net_Socket.thy ===== *)
theory Net_Socket
  imports Rko_Error
begin

text \<open>
  Addresses and TCP sockets: \<open>rko-core/src/net/addr.rs\<close>, the synchronous
  wrappers of \<open>rko-core/src/net/tcp.rs\<close> and the awaited operations of
  \<open>rko-core/src/kasync/net/mod.rs\<close>.  The socket functions of the kernel
  are a parameter, a record of functions on a kernel state; what is documented
  of them is \<open>sock_ok\<close> (a connected socket is a reliable byte stream) and
  \<open>tracks\<close> (which sockets are live).  A byte of the network is a
  \<open>char\<close>.
\<close>

section \<open>Addresses\<close>

datatype ipv4_addr = Ipv4Addr byte byte byte byte
datatype ipv6_addr = Ipv6Addr "byte list"

record socket_addr_v4 =
  v4_ip :: ipv4_addr
  v4_port :: "16 word"

record socket_addr_v6 =
  v6_ip :: ipv6_addr
  v6_port :: "16 word"
  v6_flowinfo :: "32 word"
  v6_scope_id :: "32 word"

datatype socket_addr = V4 socket_addr_v4 | V6 socket_addr_v6

definition AF_INET :: nat where "AF_INET = 2"
definition AF_INET6 :: nat where "AF_INET6 = 10"

definition new_v4 :: "ipv4_addr \<Rightarrow> 16 word \<Rightarrow> socket_addr" where
  "new_v4 ip p = V4 \<lparr>v4_ip = ip, v4_port = p\<rparr>"

definition new_v6 :: "ipv6_addr \<Rightarrow> 16 word \<Rightarrow> socket_addr" where
  "new_v6 ip p = V6 \<lparr>v6_ip = ip, v6_port = p, v6_flowinfo = 0, v6_scope_id = 0\<rparr>"

definition family :: "socket_addr \<Rightarrow> nat" where
  "family a = (case a of V4 _ \<Rightarrow> AF_INET | V6 _ \<Rightarrow> AF_INET6)"

definition port :: "socket_addr \<Rightarrow> 16 word" where
  "port a = (case a of V4 v4 \<Rightarrow> v4_port v4 | V6 v6 \<Rightarrow> v6_port v6)"

text \<open>The four octets as a number, the first one the most significant.\<close>

definition to_bits :: "ipv4_addr \<Rightarrow> 32 word" where
  "to_bits ip = (case ip of Ipv4Addr a b c d \<Rightarrow> of_nat (le_val (map unat [d, c, b, a])))"

text \<open>Conversion to network byte order on the little-endian target: the bytes are reversed.\<close>

definition to_be16 :: "16 word \<Rightarrow> 16 word" where
  "to_be16 w = of_nat (le_val (rev (le_digits 2 (unat w))))"

definition to_be32 :: "32 word \<Rightarrow> 32 word" where
  "to_be32 w = of_nat (le_val (rev (le_digits 4 (unat w))))"

record sockaddr_in =
  sin_family :: "16 word"
  sin_port :: "16 word"
  sin_addr :: "32 word"
  sin_zero :: "byte list"

record sockaddr_in6 =
  sin6_family :: "16 word"
  sin6_port :: "16 word"
  sin6_flowinfo :: "32 word"
  sin6_addr :: "byte list"
  sin6_scope_id :: "32 word"

datatype sockaddr_storage = StoreV4 sockaddr_in | StoreV6 sockaddr_in6

definition to_raw :: "socket_addr \<Rightarrow> sockaddr_storage \<times> nat" where
  "to_raw a = (case a of
     V4 v4 \<Rightarrow> (StoreV4 \<lparr>sin_family = of_nat AF_INET, sin_port = to_be16 (v4_port v4),
                       sin_addr = to_be32 (to_bits (v4_ip v4)), sin_zero = replicate 8 0\<rparr>, 16)
   | V6 v6 \<Rightarrow> (StoreV6 \<lparr>sin6_family = of_nat AF_INET6, sin6_port = to_be16 (v6_port v6),
                       sin6_flowinfo = to_be32 (v6_flowinfo v6),
                       sin6_addr = (case v6_ip v6 of Ipv6Addr bs \<Rightarrow> bs),
                       sin6_scope_id = v6_scope_id v6\<rparr>, 28))"

text \<open>The bytes of the structure in memory, which is what the kernel reads.\<close>

definition mem_le :: "nat \<Rightarrow> nat \<Rightarrow> byte list" where
  "mem_le n x = map of_nat (le_digits n x)"

definition sockaddr_bytes :: "sockaddr_storage \<Rightarrow> byte list" where
  "sockaddr_bytes st = (case st of
     StoreV4 sa \<Rightarrow> mem_le 2 (unat (sin_family sa)) @ mem_le 2 (unat (sin_port sa))
                    @ mem_le 4 (unat (sin_addr sa)) @ sin_zero sa
   | StoreV6 sa \<Rightarrow> mem_le 2 (unat (sin6_family sa)) @ mem_le 2 (unat (sin6_port sa))
                    @ mem_le 4 (unat (sin6_flowinfo sa)) @ sin6_addr sa
                    @ mem_le 4 (unat (sin6_scope_id sa)))"


section \<open>Sockets\<close>

text \<open>
  The socket functions of the kernel.  A socket is its handle; creating and
  accepting also yield one, receiving also yields the bytes put in the buffer.
\<close>

record 'k sock_api =
  sock_create_kern :: "nat \<Rightarrow> 'k \<Rightarrow> int \<times> nat \<times> 'k"
  kernel_bind :: "nat \<Rightarrow> byte list \<Rightarrow> 'k \<Rightarrow> int \<times> 'k"
  kernel_listen :: "nat \<Rightarrow> 'k \<Rightarrow> int \<times> 'k"
  kernel_connect :: "nat \<Rightarrow> byte list \<Rightarrow> int \<Rightarrow> 'k \<Rightarrow> int \<times> 'k"
  kernel_accept :: "nat \<Rightarrow> int \<Rightarrow> 'k \<Rightarrow> int \<times> nat \<times> 'k"
  sock_release :: "nat \<Rightarrow> 'k \<Rightarrow> 'k"
  kernel_recvmsg :: "nat \<Rightarrow> nat \<Rightarrow> 'k \<Rightarrow> int \<times> string \<times> 'k"
  kernel_sendmsg :: "nat \<Rightarrow> string \<Rightarrow> 'k \<Rightarrow> int \<times> 'k"

definition O_NONBLOCK :: int where "O_NONBLOCK = 2048"
definition EINPROGRESS_code :: int where "EINPROGRESS_code = 115"
definition EALREADY_code :: int where "EALREADY_code = 114"
definition EAGAIN_code :: int where "EAGAIN_code = 11"

definition check_err :: "int \<Rightarrow> error + int" where
  "check_err ret = (if ret < 0 then Inl (from_errno ret) else Inr ret)"

definition raw_addr :: "socket_addr \<Rightarrow> byte list" where
  "raw_addr addr = (case to_raw addr of (storage, addrlen) \<Rightarrow> take addrlen (sockaddr_bytes storage))"

definition listener_try_new :: "'k sock_api \<Rightarrow> socket_addr \<Rightarrow> ('k, error, nat) op" where
  "listener_try_new api addr k =
     (case sock_create_kern api (family addr) k of (ret, sock, k1) \<Rightarrow>
        (case check_err ret of
           Inl e \<Rightarrow> (Inl e, k1)
         | Inr _ \<Rightarrow>
             (case kernel_bind api sock (raw_addr addr) k1 of (ret, k2) \<Rightarrow>
                if ret < 0 then (Inl (from_errno ret), sock_release api sock k2)
                else (case kernel_listen api sock k2 of (ret, k3) \<Rightarrow>
                        if ret < 0 then (Inl (from_errno ret), sock_release api sock k3)
                        else (Inr sock, k3)))))"

definition listener_accept :: "'k sock_api \<Rightarrow> nat \<Rightarrow> bool \<Rightarrow> ('k, error, nat) op" where
  "listener_accept api sock blocking k =
     (case kernel_accept api sock (if blocking then 0 else O_NONBLOCK) k of (ret, new_sock, k1) \<Rightarrow>
        (case check_err ret of Inl e \<Rightarrow> (Inl e, k1) | Inr _ \<Rightarrow> (Inr new_sock, k1)))"

definition kernel_connect_raw :: "'k sock_api \<Rightarrow> nat \<Rightarrow> socket_addr \<Rightarrow> int \<Rightarrow> 'k \<Rightarrow> int \<times> 'k" where
  "kernel_connect_raw api sock addr flags = kernel_connect api sock (raw_addr addr) flags"

definition create_and_connect :: "'k sock_api \<Rightarrow> socket_addr \<Rightarrow> int \<Rightarrow> ('k, error, nat) op" where
  "create_and_connect api addr flags k =
     (case sock_create_kern api (family addr) k of (ret, sock, k1) \<Rightarrow>
        (case check_err ret of
           Inl e \<Rightarrow> (Inl e, k1)
         | Inr _ \<Rightarrow>
             (case kernel_connect_raw api sock addr flags k1 of (ret, k2) \<Rightarrow>
                if ret < 0 then (Inl (from_errno ret), sock_release api sock k2)
                else (Inr sock, k2))))"

definition tcp_connect :: "'k sock_api \<Rightarrow> socket_addr \<Rightarrow> ('k, error, nat) op" where
  "tcp_connect api addr = create_and_connect api addr 0"

definition connect_nonblock :: "'k sock_api \<Rightarrow> nat \<Rightarrow> socket_addr \<Rightarrow> ('k, error, unit) op" where
  "connect_nonblock api sock addr k =
     (case kernel_connect_raw api sock addr O_NONBLOCK k of (ret, k1) \<Rightarrow>
        (if ret = 0 then Inr ()
         else if ret = - EINPROGRESS_code \<or> ret = - EALREADY_code then Inl (from_errno (- EAGAIN_code))
         else Inl (from_errno ret), k1))"

definition tcp_read :: "'k sock_api \<Rightarrow> nat \<Rightarrow> nat \<Rightarrow> ('k, error, string) op" where
  "tcp_read api sock n k =
     (case kernel_recvmsg api sock n k of (ret, bs, k1) \<Rightarrow>
        (case check_err ret of Inl e \<Rightarrow> (Inl e, k1) | Inr _ \<Rightarrow> (Inr bs, k1)))"

definition tcp_write :: "'k sock_api \<Rightarrow> nat \<Rightarrow> string \<Rightarrow> ('k, error, nat) op" where
  "tcp_write api sock buf k =
     (case kernel_sendmsg api sock buf k of (ret, k1) \<Rightarrow>
        (case check_err ret of Inl e \<Rightarrow> (Inl e, k1) | Inr n \<Rightarrow> (Inr (nat n), k1)))"

text \<open>Dropping a listener or a stream releases its socket, if it has one.\<close>

definition socket_drop :: "'k sock_api \<Rightarrow> nat option \<Rightarrow> 'k \<Rightarrow> 'k" where
  "socket_drop api sock k = (case sock of None \<Rightarrow> k | Some s \<Rightarrow> sock_release api s k)"


section \<open>Awaited operations\<close>

text \<open>
  One poll of a socket future: without callback state it fails, otherwise it
  attempts the operation, and \<open>EAGAIN\<close> means it is pending (\<open>None\<close>).
\<close>

definition sf_poll :: "bool \<Rightarrow> ('k, error, 'r) op \<Rightarrow> 'k \<Rightarrow> (error + 'r) option \<times> 'k" where
  "sf_poll cb_state operation k =
     (if \<not> cb_state then (Some (Inl ENOMEM), k)
      else case operation k of
        (Inr val, k1) \<Rightarrow> (Some (Inr val), k1)
      | (Inl e, k1) \<Rightarrow>
          (let errno = to_errno e
           in if errno = - EAGAIN_code then (None, k1) else (Some (Inl (from_errno errno)), k1)))"

text \<open>
  Awaiting an operation through a number of wake-ups, each told by what
  happens in the kernel before it; \<open>None\<close> when it is still pending.
\<close>

fun await :: "('k \<Rightarrow> 'k) list \<Rightarrow> bool \<Rightarrow> ('k, error, 'r) op \<Rightarrow> 'k \<Rightarrow> (error + 'r) option \<times> 'k" where
  "await [] cb_state operation k = sf_poll cb_state operation k"
| "await (wake # wakes) cb_state operation k =
     (case sf_poll cb_state operation k of
        (Some r, k1) \<Rightarrow> (Some r, k1)
      | (None, k1) \<Rightarrow> await wakes cb_state operation (wake k1))"

definition async_connect ::
  "'k sock_api \<Rightarrow> bool \<Rightarrow> ('k \<Rightarrow> 'k) list \<Rightarrow> socket_addr \<Rightarrow> 'k \<Rightarrow> (error + nat) option \<times> 'k" where
  "async_connect api cb_state wakes addr k =
     (case sock_create_kern api (family addr) k of (ret, sock, k1) \<Rightarrow>
        if ret < 0 then (Some (Inl (from_errno ret)), k1)
        else (case await wakes cb_state (connect_nonblock api sock addr) k1 of
                (None, k2) \<Rightarrow> (None, k2)
              | (Some (Inr _), k2) \<Rightarrow> (Some (Inr sock), k2)
              | (Some (Inl e), k2) \<Rightarrow> (Some (Inl e), sock_release api sock k2)))"

definition async_accept ::
  "'k sock_api \<Rightarrow> bool \<Rightarrow> ('k \<Rightarrow> 'k) list \<Rightarrow> nat \<Rightarrow> 'k \<Rightarrow> (error + nat) option \<times> 'k" where
  "async_accept api cb_state wakes sock = await wakes cb_state (listener_accept api sock False)"

text \<open>
  The outcome of an operation that does not come back pending; one that does
  is told by \<open>EAGAIN\<close>.  Reading and writing are of this kind, since they
  call the kernel without a non-blocking flag.
\<close>

definition awaited :: "bool \<Rightarrow> ('k, error, 'r) op \<Rightarrow> ('k, error, 'r) op" where
  "awaited cb_state operation k =
     (case sf_poll cb_state operation k of
        (Some r, k1) \<Rightarrow> (r, k1)
      | (None, k1) \<Rightarrow> (Inl EAGAIN, k1))"

text \<open>What the users of a stream see: its awaited reads and writes.\<close>

record 'k stream =
  st_read :: "nat \<Rightarrow> ('k, error, string) op"
  st_write :: "string \<Rightarrow> ('k, error, nat) op"

definition tcp_stream :: "'k sock_api \<Rightarrow> bool \<Rightarrow> nat \<Rightarrow> 'k stream" where
  "tcp_stream api cb_state sock =
     \<lparr>st_read = (\<lambda>n. awaited cb_state (tcp_read api sock n)),
      st_write = (\<lambda>buf. awaited cb_state (tcp_write api sock buf))\<rparr>"

function write_from :: "'k stream \<Rightarrow> string \<Rightarrow> nat \<Rightarrow> ('k, error, unit) op" where
  "write_from st buf offset k =
     (if offset < length buf
      then (case st_write st (drop offset buf) k of
              (Inl e, k1) \<Rightarrow> (Inl e, k1)
            | (Inr n, k1) \<Rightarrow>
                if n = 0 then (Inl ECONNRESET, k1) else write_from st buf (offset + n) k1)
      else (Inr (), k))"
  by pat_completeness auto
termination
  by (relation "measure (\<lambda>(st, buf, offset, k). length buf - offset)") auto

declare write_from.simps [simp del]

definition write_all :: "'k stream \<Rightarrow> string \<Rightarrow> ('k, error, unit) op" where
  "write_all st buf = write_from st buf 0"


section \<open>Addresses in network byte order\<close>

lemma le_digits_val: "length ds = n \<Longrightarrow> \<forall>d \<in> set ds. d < 256 \<Longrightarrow> le_digits n (le_val ds) = ds"
proof (induction ds arbitrary: n)
  case (Cons d ds)
  then show ?case by (cases n) auto
qed simp

lemma rev_digits_bound: "le_val (rev (le_digits n x)) < 256 ^ n"
  using le_val_bound [of "rev (le_digits n x)"] le_digits_byte [of _ n x] by auto

lemma mem_le_be16: "mem_le 2 (unat (to_be16 w)) = rev (mem_le 2 (unat w))"
proof -
  have "unat (to_be16 w) = le_val (rev (le_digits 2 (unat w)))"
    using rev_digits_bound [of 2 "unat w"] by (simp add: to_be16_def unat_of_nat)
  then show ?thesis by (simp add: mem_le_def le_digits_val le_digits_byte rev_map)
qed

lemma mem_le_be32: "mem_le 4 (unat (to_be32 w)) = rev (mem_le 4 (unat w))"
proof -
  have "unat (to_be32 w) = le_val (rev (le_digits 4 (unat w)))"
    using rev_digits_bound [of 4 "unat w"] by (simp add: to_be32_def unat_of_nat)
  then show ?thesis by (simp add: mem_le_def le_digits_val le_digits_byte rev_map)
qed

lemma mem_le_to_bits: "mem_le 4 (unat (to_bits (Ipv4Addr a b c d))) = [d, c, b, a]"
proof -
  have byte: "\<forall>x \<in> set (map unat [d, c, b, a]). x < 256"
    using unsigned_less [of a] unsigned_less [of b] unsigned_less [of c] unsigned_less [of d] by simp
  define n where "n = le_val (map unat [d, c, b, a])"
  have "n < 2 ^ 32" using le_val_bound [OF byte] unfolding n_def [symmetric] by simp
  moreover have "to_bits (Ipv4Addr a b c d) = of_nat n" by (simp only: to_bits_def ipv4_addr.case n_def)
  ultimately have "unat (to_bits (Ipv4Addr a b c d)) = n" by (simp add: unat_of_nat)
  moreover have "le_digits 4 n = map unat [d, c, b, a]" unfolding n_def by (rule le_digits_val [OF _ byte]) simp
  ultimately show ?thesis by (simp add: mem_le_def)
qed

text \<open>
  The structure handed to the kernel for an address has the layout of the
  C structures: the family in host order, then port, address and flow
  information with the most significant byte first, and the length passed
  along is the length of the structure.
\<close>

theorem sockaddr_network_order:
  "raw_addr (V4 \<lparr>v4_ip = Ipv4Addr a b c d, v4_port = p\<rparr>)
      = [2, 0] @ rev (mem_le 2 (unat p)) @ [a, b, c, d] @ replicate 8 0
   \<and> (length ip = 16 \<longrightarrow>
       raw_addr (V6 \<lparr>v6_ip = Ipv6Addr ip, v6_port = p, v6_flowinfo = f, v6_scope_id = s\<rparr>)
      = [10, 0] @ rev (mem_le 2 (unat p)) @ rev (mem_le 4 (unat f)) @ ip @ mem_le 4 (unat s))"
proof -
  have len: "length (mem_le n x) = n" for n x by (simp add: mem_le_def)
  have "mem_le 2 2 = [2, 0]" "mem_le 2 10 = [10, 0]" by (simp_all add: mem_le_def numeral_2_eq_2)
  then show ?thesis
    by (simp add: raw_addr_def to_raw_def sockaddr_bytes_def mem_le_be16 mem_le_be32 mem_le_to_bits
        AF_INET_def AF_INET6_def len)
qed

theorem sockaddr_network_order_witness:
  "raw_addr (new_v4 (Ipv4Addr 127 0 0 1) 8080) = [2, 0, 0x1f, 0x90, 127, 0, 0, 1, 0, 0, 0, 0, 0, 0, 0, 0]"
proof -
  have two: "mem_le 2 x = [of_nat (x mod 256), of_nat (x div 256 mod 256)]" for x
    by (simp add: mem_le_def numeral_2_eq_2)
  have "replicate 8 (0 :: byte) = [0, 0, 0, 0, 0, 0, 0, 0]" by (simp add: numeral_eq_Suc)
  then show ?thesis
    using sockaddr_network_order [of 127 0 0 1 8080 "[]"] by (simp add: new_v4_def two)
qed


section \<open>A stream of bytes\<close>

text \<open>
  What is documented of receiving and sending on a connected TCP socket that
  is not non-blocking and has no timeout.  \<open>sent\<close> is what the kernel has
  taken for transmission and \<open>arrives\<close> what is still to be received; the
  peer's bytes are fixed in advance.  A call never takes or gives more than
  was asked, gives nothing only at the end of the stream, and does not come
  back with \<open>EAGAIN\<close>.
\<close>

definition sock_ok :: "'k sock_api \<Rightarrow> nat \<Rightarrow> ('k \<Rightarrow> string) \<Rightarrow> ('k \<Rightarrow> string) \<Rightarrow> bool" where
  "sock_ok api sock sent arrives \<longleftrightarrow>
     (\<forall>n k. case kernel_recvmsg api sock n k of (ret, bs, k') \<Rightarrow>
        ret \<noteq> - EAGAIN_code \<and> sent k' = sent k \<and>
        (0 \<le> ret \<longrightarrow> length bs = nat ret \<and> length bs \<le> n \<and> arrives k = bs @ arrives k'
           \<and> (bs = [] \<longrightarrow> n = 0 \<or> arrives k = []))) \<and>
     (\<forall>buf k. case kernel_sendmsg api sock buf k of (ret, k') \<Rightarrow>
        ret \<noteq> - EAGAIN_code \<and>
        (ret < 0 \<longrightarrow> sent k' = sent k) \<and>
        (0 \<le> ret \<longrightarrow> nat ret \<le> length buf \<and> sent k' = sent k @ take (nat ret) buf
           \<and> arrives k' = arrives k))"

text \<open>A connection: its socket, and what is observed of it.\<close>

record 'k conn =
  c_api :: "'k sock_api"
  c_cb :: bool
  c_sock :: nat
  c_sent :: "'k \<Rightarrow> string"
  c_arrives :: "'k \<Rightarrow> string"

definition conn_ok :: "'k conn \<Rightarrow> bool" where
  "conn_ok c \<longleftrightarrow> sock_ok (c_api c) (c_sock c) (c_sent c) (c_arrives c)"

definition c_stream :: "'k conn \<Rightarrow> 'k stream" where
  "c_stream c = tcp_stream (c_api c) (c_cb c) (c_sock c)"

locale byte_stream =
  fixes granted :: "'c \<Rightarrow> bool"
    and st :: "'c \<Rightarrow> 'k stream"
    and sent :: "'c \<Rightarrow> 'k \<Rightarrow> string"
    and arrives :: "'c \<Rightarrow> 'k \<Rightarrow> string"
  assumes read_ok:
      "granted c \<Longrightarrow> st_read (st c) n k = (Inr bs, k') \<Longrightarrow>
       length bs \<le> n \<and> arrives c k = bs @ arrives c k' \<and> sent c k' = sent c k
         \<and> (bs = [] \<longrightarrow> n = 0 \<or> arrives c k = [])"
    and read_err: "granted c \<Longrightarrow> st_read (st c) n k = (Inl e, k') \<Longrightarrow> sent c k' = sent c k"
    and write_ok:
      "granted c \<Longrightarrow> st_write (st c) buf k = (Inr n, k') \<Longrightarrow>
       n \<le> length buf \<and> sent c k' = sent c k @ take n buf \<and> arrives c k' = arrives c k"
    and write_err: "granted c \<Longrightarrow> st_write (st c) buf k = (Inl e, k') \<Longrightarrow> sent c k' = sent c k"
begin

lemma write_from_spec:
  "granted c \<Longrightarrow> write_from (st c) buf off k = (r, k') \<Longrightarrow>
   \<exists>m. sent c k' = sent c k @ take m (drop off buf)
     \<and> (r = Inr () \<longrightarrow> sent c k' = sent c k @ drop off buf \<and> arrives c k' = arrives c k)"
proof (induction "st c" buf off k arbitrary: r k' rule: write_from.induct)
  case (1 buf off k)
  show ?case
  proof (cases "off < length buf")
    case False
    with "1.prems"(2) show ?thesis by (subst (asm) write_from.simps) (auto intro: exI [of _ 0])
  next
    case True
    obtain w k1 where w: "st_write (st c) (drop off buf) k = (w, k1)" by fastforce
    consider (err) e where "w = Inl e" | (none) "w = Inr 0" | (some) n where "w = Inr n" "n \<noteq> 0"
      by (cases w) auto
    then show ?thesis
    proof cases
      case err
      then have "r = Inl e" "k' = k1"
        using "1.prems"(2) True w by (simp_all add: write_from.simps [of _ buf off k])
      with write_err [OF "1.prems"(1)] w err show ?thesis by (intro exI [of _ 0]) auto
    next
      case none
      then have "r = Inl ECONNRESET" "k' = k1"
        using "1.prems"(2) True w by (simp_all add: write_from.simps [of _ buf off k])
      with write_ok [OF "1.prems"(1)] w none show ?thesis by (intro exI [of _ 0]) fastforce
    next
      case some
      then have rest: "write_from (st c) buf (off + n) k1 = (r, k')"
        using "1.prems"(2) True w by (simp add: write_from.simps [of _ buf off k])
      have n: "n \<le> length (drop off buf)" "sent c k1 = sent c k @ take n (drop off buf)"
        "arrives c k1 = arrives c k"
        using write_ok [OF "1.prems"(1)] w some(1) by blast+
      obtain m where m: "sent c k' = sent c k1 @ take m (drop (off + n) buf)"
        "r = Inr () \<longrightarrow> sent c k' = sent c k1 @ drop (off + n) buf \<and> arrives c k' = arrives c k1"
        using "1.hyps" [OF True w [symmetric] some "1.prems"(1) rest] by blast
      have "take n (drop off buf) @ drop (off + n) buf = drop off buf"
        by (metis add.commute append_take_drop_id drop_drop)
      moreover have "take n (drop off buf) @ take m (drop (off + n) buf) = take (n + m) (drop off buf)"
        by (simp only: take_add drop_drop add.commute [of off])
      ultimately show ?thesis using m n by (intro exI [of _ "n + m"]) auto
    qed
  qed
qed

lemma write_all_spec:
  "granted c \<Longrightarrow> write_all (st c) buf k = (r, k') \<Longrightarrow>
   \<exists>m. sent c k' = sent c k @ take m buf
     \<and> (r = Inr () \<longrightarrow> sent c k' = sent c k @ buf \<and> arrives c k' = arrives c k)"
  using write_from_spec [of c buf 0 k r k'] by (simp add: write_all_def)

end

lemma awaited_cases:
  assumes "awaited cb m k = (r, k')"
  obtains "r = Inl ENOMEM" "k' = k"
  | v where "r = Inr v" "m k = (Inr v, k')"
  | e e' where "r = Inl e" "m k = (Inl e', k')"
  using assms by (auto simp: awaited_def sf_poll_def Let_def split: if_splits prod.splits sum.splits)

lemma sock_ok_recv:
  assumes "sock_ok api sock sent arrives" "kernel_recvmsg api sock n k = (ret, bs, k')"
  shows "ret \<noteq> - EAGAIN_code" "sent k' = sent k"
    "0 \<le> ret \<Longrightarrow> length bs \<le> n \<and> arrives k = bs @ arrives k' \<and> (bs = [] \<longrightarrow> n = 0 \<or> arrives k = [])"
proof -
  have "\<forall>n k. case kernel_recvmsg api sock n k of (ret, bs, k') \<Rightarrow>
        ret \<noteq> - EAGAIN_code \<and> sent k' = sent k \<and>
        (0 \<le> ret \<longrightarrow> length bs = nat ret \<and> length bs \<le> n \<and> arrives k = bs @ arrives k'
           \<and> (bs = [] \<longrightarrow> n = 0 \<or> arrives k = []))"
    using assms(1) unfolding sock_ok_def by (rule conjunct1)
  from spec [OF spec [OF this, of n], of k]
  show "ret \<noteq> - EAGAIN_code" "sent k' = sent k"
    "0 \<le> ret \<Longrightarrow> length bs \<le> n \<and> arrives k = bs @ arrives k' \<and> (bs = [] \<longrightarrow> n = 0 \<or> arrives k = [])"
    using assms(2) by auto
qed

lemma sock_ok_send:
  assumes "sock_ok api sock sent arrives" "kernel_sendmsg api sock buf k = (ret, k')"
  shows "ret \<noteq> - EAGAIN_code" "ret < 0 \<Longrightarrow> sent k' = sent k"
    "0 \<le> ret \<Longrightarrow> nat ret \<le> length buf \<and> sent k' = sent k @ take (nat ret) buf \<and> arrives k' = arrives k"
proof -
  have "\<forall>buf k. case kernel_sendmsg api sock buf k of (ret, k') \<Rightarrow>
        ret \<noteq> - EAGAIN_code \<and>
        (ret < 0 \<longrightarrow> sent k' = sent k) \<and>
        (0 \<le> ret \<longrightarrow> nat ret \<le> length buf \<and> sent k' = sent k @ take (nat ret) buf
           \<and> arrives k' = arrives k)"
    using assms(1) unfolding sock_ok_def by (rule conjunct2)
  from spec [OF spec [OF this, of buf], of k]
  show "ret \<noteq> - EAGAIN_code" "ret < 0 \<Longrightarrow> sent k' = sent k"
    "0 \<le> ret \<Longrightarrow> nat ret \<le> length buf \<and> sent k' = sent k @ take (nat ret) buf \<and> arrives k' = arrives k"
    using assms(2) by simp_all
qed

lemma tcp_read_cases:
  assumes "tcp_read api sock n k = (r, k')"
  obtains ret bs where "kernel_recvmsg api sock n k = (ret, bs, k')" "0 \<le> ret" "r = Inr bs"
  | ret bs where "kernel_recvmsg api sock n k = (ret, bs, k')" "ret < 0" "r = Inl (Error ret)"
  using assms by (auto simp: tcp_read_def check_err_def split: prod.splits if_splits)

lemma tcp_write_cases:
  assumes "tcp_write api sock buf k = (r, k')"
  obtains ret where "kernel_sendmsg api sock buf k = (ret, k')" "0 \<le> ret" "r = Inr (nat ret)"
  | ret where "kernel_sendmsg api sock buf k = (ret, k')" "ret < 0" "r = Inl (Error ret)"
  using assms by (auto simp: tcp_write_def check_err_def split: prod.splits if_splits)

interpretation tcp: byte_stream conn_ok c_stream c_sent c_arrives
proof unfold_locales
  fix c :: "'k conn" and n k bs k' e buf
  assume "conn_ok c"
  then have ok: "sock_ok (c_api c) (c_sock c) (c_sent c) (c_arrives c)" by (simp add: conn_ok_def)
  note stream = c_stream_def tcp_stream_def
  show "length bs \<le> n \<and> c_arrives c k = bs @ c_arrives c k' \<and> c_sent c k' = c_sent c k
        \<and> (bs = [] \<longrightarrow> n = 0 \<or> c_arrives c k = [])" if "st_read (c_stream c) n k = (Inr bs, k')"
  proof -
    have "awaited (c_cb c) (tcp_read (c_api c) (c_sock c) n) k = (Inr bs, k')"
      using that by (simp add: stream)
    then have "tcp_read (c_api c) (c_sock c) n k = (Inr bs, k')" by (rule awaited_cases) simp_all
    then obtain ret where "kernel_recvmsg (c_api c) (c_sock c) n k = (ret, bs, k')" "0 \<le> ret"
      by (rule tcp_read_cases) simp_all
    then show ?thesis using sock_ok_recv(2,3) [OF ok] by blast
  qed
  show "st_read (c_stream c) n k = (Inl e, k') \<Longrightarrow> c_sent c k' = c_sent c k"
    using sock_ok_recv [OF ok] by (auto simp: stream elim!: awaited_cases tcp_read_cases)
  show "st_write (c_stream c) buf k = (Inr n, k') \<Longrightarrow>
      n \<le> length buf \<and> c_sent c k' = c_sent c k @ take n buf \<and> c_arrives c k' = c_arrives c k"
    using sock_ok_send [OF ok] by (auto simp: stream elim!: awaited_cases tcp_write_cases)
  show "st_write (c_stream c) buf k = (Inl e, k') \<Longrightarrow> c_sent c k' = c_sent c k"
    using sock_ok_send [OF ok] by (auto simp: stream elim!: awaited_cases tcp_write_cases)
qed

text \<open>Hence an awaited read or write is never pending: it waits inside the kernel instead.\<close>

lemma tcp_read_not_pending:
  assumes "sock_ok api sock sent arrives"
  shows "fst (sf_poll cb (tcp_read api sock n) k) \<noteq> None"
  using sock_ok_recv(1) [OF assms]
  by (auto simp: sf_poll_def Let_def elim!: tcp_read_cases split: prod.splits sum.splits)

text \<open>
  C32. Writing a buffer to a TCP stream, through any number of short writes,
  either succeeds with exactly the buffer added to what was sent, in order and
  without loss or repetition, or fails with a prefix of it sent.
\<close>

theorem write_all_delivers:
  assumes "conn_ok c" "write_all (c_stream c) buf k = (r, k')"
  shows "\<exists>m. c_sent c k' = c_sent c k @ take m buf
    \<and> (r = Inr () \<longrightarrow> c_sent c k' = c_sent c k @ buf \<and> c_arrives c k' = c_arrives c k)"
  using assms by (rule tcp.write_all_spec)

text \<open>
  A socket to evaluate on: the peer's segments are received one at a time, and
  at most seven bytes are taken at once for sending.
\<close>

record demo_net =
  d_in :: "string list"
  d_out :: string

definition demo_recv :: "nat \<Rightarrow> nat \<Rightarrow> demo_net \<Rightarrow> int \<times> string \<times> demo_net" where
  "demo_recv sock n k = (case dropWhile (\<lambda>seg. seg = []) (d_in k) of
     [] \<Rightarrow> (0, [], k\<lparr>d_in := []\<rparr>)
   | seg # segs \<Rightarrow> (int (min n (length seg)), take n seg, k\<lparr>d_in := drop n seg # segs\<rparr>))"

definition demo_send :: "nat \<Rightarrow> string \<Rightarrow> demo_net \<Rightarrow> int \<times> demo_net" where
  "demo_send sock buf k = (int (min 7 (length buf)), k\<lparr>d_out := d_out k @ take 7 buf\<rparr>)"

definition demo_api :: "demo_net sock_api" where
  "demo_api = \<lparr>sock_create_kern = (\<lambda>_ k. (0, 1, k)), kernel_bind = (\<lambda>_ _ k. (0, k)),
     kernel_listen = (\<lambda>_ k. (0, k)), kernel_connect = (\<lambda>_ _ _ k. (0, k)),
     kernel_accept = (\<lambda>_ _ k. (0, 2, k)), sock_release = (\<lambda>_ k. k),
     kernel_recvmsg = demo_recv, kernel_sendmsg = demo_send\<rparr>"

definition demo_conn :: "demo_net conn" where
  "demo_conn = \<lparr>c_api = demo_api, c_cb = True, c_sock = 1, c_sent = d_out, c_arrives = (\<lambda>k. concat (d_in k))\<rparr>"

lemma concat_dropWhile_empty: "concat (dropWhile (\<lambda>seg. seg = []) xss) = concat xss"
  by (induction xss) auto

lemma demo_conn_ok: "conn_ok demo_conn"
proof -
  have recv: "case demo_recv sock n k of (ret, bs, k') \<Rightarrow>
        ret \<noteq> - EAGAIN_code \<and> d_out k' = d_out k \<and>
        (0 \<le> ret \<longrightarrow> length bs = nat ret \<and> length bs \<le> n \<and> concat (d_in k) = bs @ concat (d_in k')
           \<and> (bs = [] \<longrightarrow> n = 0 \<or> concat (d_in k) = []))" for sock n k
  proof (cases "dropWhile (\<lambda>seg. seg = []) (d_in k)")
    case Nil
    have "concat (d_in k) = []" using concat_dropWhile_empty [of "d_in k"] unfolding Nil by simp
    then show ?thesis unfolding demo_recv_def Nil by (simp add: EAGAIN_code_def)
  next
    case (Cons seg segs)
    then have "seg \<noteq> []" using hd_dropWhile [of "\<lambda>seg. seg = []" "d_in k"] by auto
    moreover have "concat (d_in k) = seg @ concat segs"
      using concat_dropWhile_empty [of "d_in k"] Cons by simp
    ultimately show ?thesis using Cons
      by (auto simp: demo_recv_def EAGAIN_code_def simp flip: append_assoc)
  qed
  have "case demo_send sock buf k of (ret, k') \<Rightarrow>
        ret \<noteq> - EAGAIN_code \<and> (ret < 0 \<longrightarrow> d_out k' = d_out k) \<and>
        (0 \<le> ret \<longrightarrow> nat ret \<le> length buf \<and> d_out k' = d_out k @ take (nat ret) buf
           \<and> concat (d_in k') = concat (d_in k))" for sock buf k
    by (auto simp: demo_send_def EAGAIN_code_def min_def)
  with recv show ?thesis
    by (simp add: conn_ok_def sock_ok_def demo_conn_def demo_api_def)
qed

lemmas demo_eval = c_stream_def tcp_stream_def awaited_def sf_poll_def tcp_write_def tcp_read_def
  check_err_def demo_conn_def demo_api_def demo_send_def demo_recv_def

theorem write_all_delivers_witness:
  "\<exists>k'. write_all (c_stream demo_conn) ''hello world'' \<lparr>d_in = [], d_out = ''>''\<rparr> = (Inr (), k')
     \<and> c_sent demo_conn k' = ''>hello world''"
proof -
  let ?k = "\<lparr>d_in = [], d_out = ''>''\<rparr>"
  obtain k' where run: "write_all (c_stream demo_conn) ''hello world'' ?k = (Inr (), k')"
    by (simp add: write_all_def write_from.simps demo_eval)
  with write_all_delivers [OF demo_conn_ok run] show ?thesis by (auto simp: demo_conn_def)
qed


section \<open>Sockets do not leak\<close>

text \<open>
  What is documented of the life of a socket: a successful creation or accept
  yields one that was not live, releasing ends its life, and nothing else
  changes which sockets are live.
\<close>

definition tracks :: "'k sock_api \<Rightarrow> ('k \<Rightarrow> nat set) \<Rightarrow> bool" where
  "tracks api live \<longleftrightarrow>
     (\<forall>fam k ret s k'. sock_create_kern api fam k = (ret, s, k') \<longrightarrow>
        (if ret < 0 then live k' = live k else s \<notin> live k \<and> live k' = insert s (live k))) \<and>
     (\<forall>l flags k ret s k'. kernel_accept api l flags k = (ret, s, k') \<longrightarrow>
        (if ret < 0 then live k' = live k else s \<notin> live k \<and> live k' = insert s (live k))) \<and>
     (\<forall>s k. live (sock_release api s k) = live k - {s}) \<and>
     (\<forall>s a k. live (snd (kernel_bind api s a k)) = live k) \<and>
     (\<forall>s k. live (snd (kernel_listen api s k)) = live k) \<and>
     (\<forall>s a f k. live (snd (kernel_connect api s a f k)) = live k)"

definition owns_on_success :: "('k \<Rightarrow> nat set) \<Rightarrow> 'k \<Rightarrow> (error + nat) \<times> 'k \<Rightarrow> bool" where
  "owns_on_success live k res \<longleftrightarrow> (case res of
     (Inl _, k') \<Rightarrow> live k' = live k
   | (Inr s, k') \<Rightarrow> s \<notin> live k \<and> live k' = insert s (live k))"

lemma tracks_rules:
  assumes "tracks api live"
  shows "sock_create_kern api fam k = (ret, s, k') \<Longrightarrow> ret < 0 \<Longrightarrow> live k' = live k"
    and "sock_create_kern api fam k = (ret, s, k') \<Longrightarrow> \<not> ret < 0 \<Longrightarrow> s \<notin> live k \<and> live k' = insert s (live k)"
    and "kernel_accept api l flags k = (ret, s, k') \<Longrightarrow> ret < 0 \<Longrightarrow> live k' = live k"
    and "kernel_accept api l flags k = (ret, s, k') \<Longrightarrow> \<not> ret < 0 \<Longrightarrow> s \<notin> live k \<and> live k' = insert s (live k)"
    and "live (sock_release api s k) = live k - {s}"
    and "kernel_bind api s a k = (ret, k') \<Longrightarrow> live k' = live k"
    and "kernel_listen api s k = (ret, k') \<Longrightarrow> live k' = live k"
    and "kernel_connect api s a f k = (ret, k') \<Longrightarrow> live k' = live k"
  using assms unfolding tracks_def by (metis snd_conv)+

lemma listener_try_new_owns: "tracks api live \<Longrightarrow> owns_on_success live k (listener_try_new api addr k)"
  using tracks_rules [of api live]
  by (auto simp: owns_on_success_def listener_try_new_def check_err_def split: prod.splits sum.splits)

lemma create_and_connect_owns: "tracks api live \<Longrightarrow> owns_on_success live k (create_and_connect api addr f k)"
  using tracks_rules [of api live]
  by (auto simp: owns_on_success_def create_and_connect_def kernel_connect_raw_def check_err_def
      split: prod.splits sum.splits)

lemma listener_accept_owns: "tracks api live \<Longrightarrow> owns_on_success live k (listener_accept api l b k)"
  using tracks_rules [of api live]
  by (auto simp: owns_on_success_def listener_accept_def check_err_def split: prod.splits sum.splits)

text \<open>Polling an operation that keeps an observation of the kernel keeps it, across wake-ups that do.\<close>

lemma await_keeps:
  assumes "\<And>k. P (snd (m k)) = P k" "\<forall>w \<in> set wakes. \<forall>k. P (w k) = P k"
  shows "P (snd (await wakes cb m k)) = P k"
  using assms(2)
proof (induction wakes arbitrary: k)
  case Nil
  show ?case using assms(1) [of k]
    by (auto simp: sf_poll_def Let_def split: prod.splits sum.splits)
next
  case (Cons w wakes)
  have "P (snd (sf_poll cb m k)) = P k" using assms(1) [of k]
    by (auto simp: sf_poll_def Let_def split: prod.splits sum.splits)
  with Cons show ?case by (auto split: prod.splits option.splits)
qed

text \<open>
  C31. No socket leaks: listening, accepting and connecting hand over exactly
  one new live socket when they succeed and leave none behind when they fail,
  whichever step failed, and dropping what they returned gives it back.  The
  asynchronous connect keeps the same account once it is ready; while it is
  pending, its socket is live and nothing but completion releases it, so a
  connect that is dropped before it completes leaks it.
\<close>

theorem no_socket_leak:
  assumes "tracks api live" "\<forall>w \<in> set wakes. \<forall>k. live (w k) = live k"
  shows "owns_on_success live k (listener_try_new api addr k)
    \<and> owns_on_success live k (listener_accept api l blocking k)
    \<and> owns_on_success live k (tcp_connect api addr k)
    \<and> live (socket_drop api (Some s) k) = live k - {s}
    \<and> (case async_connect api cb wakes addr k of
         (Some r, k') \<Rightarrow> owns_on_success live k (r, k')
       | (None, k') \<Rightarrow> \<exists>s. s \<notin> live k \<and> live k' = insert s (live k))"
proof -
  have conn: "live (snd (connect_nonblock api s addr k)) = live k" for s k
    using tracks_rules(8) [OF assms(1)]
    by (auto simp: connect_nonblock_def kernel_connect_raw_def split: prod.splits)
  have kept: "live k' = live k0" if "await wakes cb (connect_nonblock api s addr) k0 = (r, k')" for s k0 r k'
    using await_keeps [where P = live and m = "connect_nonblock api s addr" and k = k0 and cb = cb, OF conn assms(2)]
    by (simp add: that)
  have "case async_connect api cb wakes addr k of
         (Some r, k') \<Rightarrow> owns_on_success live k (r, k')
       | (None, k') \<Rightarrow> \<exists>s. s \<notin> live k \<and> live k' = insert s (live k)"
  proof -
    obtain ret s k1 where new: "sock_create_kern api (family addr) k = (ret, s, k1)"
      by (metis prod_cases3)
    obtain r k2 where polled: "await wakes cb (connect_nonblock api s addr) k1 = (r, k2)" by fastforce
    show ?thesis
      using new polled kept [OF polled] tracks_rules(1,2) [OF assms(1) new] tracks_rules(5) [OF assms(1)]
      by (cases "ret < 0") (auto simp: async_connect_def owns_on_success_def split: option.splits sum.splits)
  qed
  then show ?thesis
    using listener_try_new_owns [OF assms(1)] listener_accept_owns [OF assms(1)]
      create_and_connect_owns [OF assms(1)] tracks_rules(5) [OF assms(1)]
    by (simp add: tcp_connect_def socket_drop_def)
qed

text \<open>A kernel that keeps a list of its sockets and refuses to bind.\<close>

definition busy_api :: "nat list sock_api" where
  "busy_api = \<lparr>sock_create_kern = (\<lambda>_ k. (0, Suc (sum_list k), Suc (sum_list k) # k)),
     kernel_bind = (\<lambda>_ _ k. (- 98, k)), kernel_listen = (\<lambda>_ k. (0, k)),
     kernel_connect = (\<lambda>_ _ _ k. (0, k)),
     kernel_accept = (\<lambda>_ _ k. (0, Suc (sum_list k), Suc (sum_list k) # k)),
     sock_release = (\<lambda>s k. filter (\<lambda>x. x \<noteq> s) k),
     kernel_recvmsg = (\<lambda>_ _ k. (0, [], k)), kernel_sendmsg = (\<lambda>_ _ k. (0, k))\<rparr>"

lemma busy_tracks: "tracks busy_api set"
  using member_le_sum_list by (force simp: tracks_def busy_api_def)

theorem no_socket_leak_witness:
  "fst (listener_try_new busy_api (new_v4 (Ipv4Addr 0 0 0 0) 80) [7]) = Inl (Error (- 98))
   \<and> set (snd (listener_try_new busy_api (new_v4 (Ipv4Addr 0 0 0 0) 80) [7])) = {7}"
proof -
  let ?res = "listener_try_new busy_api (new_v4 (Ipv4Addr 0 0 0 0) 80) [7]"
  have "owns_on_success set [7] ?res"
    using no_socket_leak [OF busy_tracks, of "[]"] by simp
  moreover have "fst ?res = Inl (Error (- 98))"
    by (simp add: listener_try_new_def busy_api_def check_err_def)
  ultimately show ?thesis by (cases ?res) (auto simp: owns_on_success_def)
qed

end
