(* ===== verification/Http_Wire.thy ===== *)
theory Http_Wire
  imports Http_Types Net_Socket
begin

text \<open>
  Writing requests and responses to a stream, \<open>rko-util/src/http/wire.rs\<close>.
  A message is first written into a byte vector, one fallible append at a
  time, and then sent.
\<close>

section \<open>Formatting numbers\<close>

text \<open>The loop fills the buffer from its end and returns where the digits start.\<close>

function fmt_loop :: "nat \<Rightarrow> nat \<Rightarrow> string \<Rightarrow> string \<times> nat" where
  "fmt_loop val pos buf =
     (if 0 < val \<and> 0 < pos
      then fmt_loop (val div 10) (pos - 1) (buf[pos - 1 := char_of (48 + val mod 10 :: nat)])
      else (buf, pos))"
  by pat_completeness auto
termination
  by (relation "measure (\<lambda>(val, pos, buf). pos)") auto

declare fmt_loop.simps [simp del]

definition format_usize :: "nat \<Rightarrow> string \<Rightarrow> string" where
  "format_usize val buf =
     (if val = 0 then take 1 (buf[0 := CHR ''0''])
      else case fmt_loop val (length buf) buf of (buf', pos) \<Rightarrow> drop pos buf')"


section \<open>Writing into a buffer\<close>

definition crlf :: string where
  "crlf = [CHR 0x0D, CHR 0x0A]"

type_synonym writer = "(char kvec, error, unit) op"

definition extend :: "http_alloc \<Rightarrow> string \<Rightarrow> writer" where
  "extend al data = smap_err (\<lambda>_. ENOMEM) (extend_from_slice u8_ty (al_bytes al) data)"

definition write_header :: "http_alloc \<Rightarrow> string \<Rightarrow> string \<Rightarrow> writer" where
  "write_header al name value =
     sseq [extend al name, extend al '': '', extend al value, extend al crlf]"

definition write_header_usize :: "http_alloc \<Rightarrow> string \<Rightarrow> nat \<Rightarrow> writer" where
  "write_header_usize al name value =
     write_header al name (format_usize value (replicate 20 (CHR 0x00)))"

definition write_u16 :: "http_alloc \<Rightarrow> nat \<Rightarrow> writer" where
  "write_u16 al val = extend al (format_usize val (replicate 5 (CHR 0x00)))"

definition write_u8 :: "http_alloc \<Rightarrow> nat \<Rightarrow> writer" where
  "write_u8 al val = extend al (format_usize val (replicate 3 (CHR 0x00)))"

definition write_headers :: "http_alloc \<Rightarrow> headers \<Rightarrow> writer" where
  "write_headers al h = sseq (map (\<lambda>(name, value). write_header al name value) (headers_iter h))"

definition format_host :: "http_alloc \<Rightarrow> socket_addr \<Rightarrow> writer" where
  "format_host al addr = (case addr of
     V4 v4 \<Rightarrow> (case v4_ip v4 of Ipv4Addr a b c d \<Rightarrow>
       sseq [write_u8 al (unat a), extend al ''.'', write_u8 al (unat b), extend al ''.'',
             write_u8 al (unat c), extend al ''.'', write_u8 al (unat d),
             if v4_port v4 \<noteq> 80 then sseq [extend al '':'', write_u16 al (unat (v4_port v4))]
             else sret ()])
   | V6 _ \<Rightarrow> extend al ''[::1]'')"

text \<open>The part of a message before its body.\<close>

definition request_head :: "http_alloc \<Rightarrow> request \<Rightarrow> string \<Rightarrow> writer" where
  "request_head al req host =
     sseq [extend al (method_str (rq_method req)), extend al '' '',
           extend al (kv_list (rq_path req)), extend al '' '',
           extend al (version_str (rq_version req)), extend al crlf,
           write_header al HOST host,
           if kv_is_empty (rq_body req) then sret ()
           else write_header_usize al CONTENT_LENGTH (kv_len (rq_body req)),
           write_headers al (rq_headers req), extend al crlf]"

definition response_head :: "http_alloc \<Rightarrow> response \<Rightarrow> writer" where
  "response_head al resp =
     sseq [extend al (version_str (rs_version resp)), extend al '' '',
           write_u16 al (as_u16 (rs_status resp)), extend al '' '',
           extend al (reason (rs_status resp)), extend al crlf,
           write_header_usize al CONTENT_LENGTH (kv_len (rs_body resp)),
           write_headers al (rs_headers resp), extend al crlf]"


section \<open>Writing to a stream\<close>

text \<open>Filling a new buffer with a writer.\<close>

definition build :: "http_alloc \<Rightarrow> nat \<Rightarrow> writer \<Rightarrow> error + char kvec" where
  "build al cap w =
     rbind (map_err (\<lambda>_. ENOMEM) (with_capacity u8_ty (al_bytes al) cap)) (\<lambda>buf.
       case w buf of (Inl e, _) \<Rightarrow> Inl e | (Inr _, buf') \<Rightarrow> Inr buf')"

definition send_message :: "'k stream \<Rightarrow> char kvec \<Rightarrow> char kvec \<Rightarrow> ('k, error, unit) op" where
  "send_message st buf body =
     sthen (write_all st (kv_list buf))
       (if kv_is_empty body then sret () else write_all st (kv_list body))"

definition write_request :: "http_alloc \<Rightarrow> 'k stream \<Rightarrow> request \<Rightarrow> string \<Rightarrow> ('k, error, unit) op" where
  "write_request al st req host =
     sbind (slift (build al 512 (request_head al req host))) (\<lambda>buf. send_message st buf (rq_body req))"

definition write_response :: "http_alloc \<Rightarrow> 'k stream \<Rightarrow> response \<Rightarrow> ('k, error, unit) op" where
  "write_response al st resp =
     sbind (slift (build al 512 (response_head al resp))) (\<lambda>buf. send_message st buf (rs_body resp))"


section \<open>Decimal numbers\<close>

definition dec_digit :: "nat \<Rightarrow> char" where
  "dec_digit d = char_of (48 + d)"

fun dec :: "nat \<Rightarrow> string" where
  "dec n = (if n < 10 then [dec_digit n] else dec (n div 10) @ [dec_digit (n mod 10)])"

declare dec.simps [simp del]

lemma fmt_loop_dec:
  "0 < val \<Longrightarrow> val < 10 ^ pos \<Longrightarrow> pos \<le> length buf \<Longrightarrow>
   \<exists>buf' p. fmt_loop val pos buf = (buf', p) \<and> drop p buf' = dec val @ drop pos buf \<and> p \<le> length buf'"
proof (induction val arbitrary: pos buf rule: dec.induct)
  case (1 val)
  then obtain q where q: "pos = Suc q" by (cases pos) auto
  let ?buf = "buf[q := dec_digit (val mod 10)]"
  have step: "fmt_loop val pos buf = fmt_loop (val div 10) q ?buf"
    using "1.prems" q by (subst fmt_loop.simps) (simp add: dec_digit_def)
  have tail: "drop q ?buf = dec_digit (val mod 10) # drop pos buf"
    using "1.prems"(3) q by (simp add: drop_update_swap drop_nth_Cons list_update_append upd_conv_take_nth_drop)
  show ?case
  proof (cases "val < 10")
    case True
    then have "fmt_loop (val div 10) q ?buf = (?buf, q)" by (simp add: fmt_loop.simps)
    moreover have "dec val = [dec_digit (val mod 10)]" using True by (simp add: dec.simps)
    ultimately show ?thesis using step tail "1.prems"(3) q by simp
  next
    case False
    have pos10: "0 < val div 10" using False by (simp add: div_greater_zero_iff)
    have "val div 10 < 10 ^ q" using "1.prems"(2) q by (simp add: less_mult_imp_div_less mult.commute)
    then obtain buf' p where "fmt_loop (val div 10) q ?buf = (buf', p)"
      "drop p buf' = dec (val div 10) @ drop q ?buf" "p \<le> length buf'"
      using "1.IH" [of q ?buf] False pos10 "1.prems"(3) q by auto
    then show ?thesis using step tail False by (simp add: dec.simps [of val])
  qed
qed

lemma format_usize_dec:
  assumes "val < 10 ^ length buf" "buf \<noteq> []"
  shows "format_usize val buf = dec val"
proof (cases "val = 0")
  case True
  have "char_of (48 :: nat) = CHR ''0''" by (simp add: char_of_def bit_0)
  then show ?thesis using True assms(2)
    by (cases buf) (simp_all add: format_usize_def dec.simps dec_digit_def)
next
  case False
  then obtain buf' p where "fmt_loop val (length buf) buf = (buf', p)" "drop p buf' = dec val @ []"
    using fmt_loop_dec [of val "length buf" buf] assms(1) by auto
  then show ?thesis using False by (simp add: format_usize_def)
qed

lemma digit_val_dec: "d < 10 \<Longrightarrow> digit_val (dec_digit d) = Some d"
  by (simp add: digit_val_def dec_digit_def of_char_of)

lemma parse_digits_append:
  "parse_digits acc (xs @ ys) = Option.bind (parse_digits acc xs) (\<lambda>a. parse_digits a ys)"
  by (induction xs arbitrary: acc) (simp_all add: Option.bind_assoc)

lemma parse_digits_dec: "n \<le> usize_max \<Longrightarrow> parse_digits 0 (dec n) = Some n"
proof (induction n rule: dec.induct)
  case (1 n)
  show ?case
  proof (cases "n < 10")
    case True
    then show ?thesis by (simp add: dec.simps digit_val_dec checked_add_def checked_mul_def usize_max_def)
  next
    case False
    then have "parse_digits 0 (dec (n div 10)) = Some (n div 10)" using 1 by simp
    moreover have "n div 10 * 10 \<le> n" "n div 10 * 10 + n mod 10 = n" by simp_all
    ultimately show ?thesis using False "1.prems"
      by (simp add: dec.simps [of n] parse_digits_append digit_val_dec checked_add_def checked_mul_def)
  qed
qed

lemma dec_hd: "\<exists>d ds. d < 10 \<and> dec n = dec_digit d # ds"
proof (induction n rule: dec.induct)
  case (1 n)
  then show ?case by (cases "n < 10") (auto simp: dec.simps [of n])
qed

lemma parse_usize_dec: "n \<le> usize_max \<Longrightarrow> parse_usize (dec n) = Some n"
proof -
  assume n: "n \<le> usize_max"
  obtain d ds where d: "d < 10" "dec n = dec_digit d # ds" using dec_hd by blast
  then have "dec_digit d \<noteq> CHR ''+''" using digit_val_dec [OF d(1)] by (auto simp: digit_val_def)
  with d parse_digits_dec [OF n] show ?thesis by (simp add: parse_usize_def)
qed

text \<open>
  A number formatted for a header is its decimal representation, without
  a leading zero or a byte left over from the buffer, and reading it back
  gives the number, for every value of the type.
\<close>

theorem format_parse_roundtrip:
  assumes "n \<le> usize_max"
  shows "format_usize n (replicate 20 (CHR 0x00)) = dec n
    \<and> parse_usize (format_usize n (replicate 20 (CHR 0x00))) = Some n"
proof -
  have "n < 10 ^ length (replicate 20 (CHR 0x00))" using assms by (simp add: usize_max_def)
  then have "format_usize n (replicate 20 (CHR 0x00)) = dec n" by (rule format_usize_dec) simp
  then show ?thesis using parse_usize_dec [OF assms] by simp
qed

theorem format_parse_roundtrip_witness:
  "parse_usize (format_usize 1048576 (replicate 20 (CHR 0x00))) = Some 1048576"
  by (rule format_parse_roundtrip [THEN conjunct2]) (simp add: usize_max_def)

section \<open>What goes over the wire\<close>

text \<open>
  The text a writer appends: on failure it has appended a prefix of it, and
  where the text fits into the capacity it cannot fail.
\<close>

definition fits :: "writer \<Rightarrow> string \<Rightarrow> bool" where
  "fits w txt \<longleftrightarrow> (\<forall>xs v. kv_rep u8_ty xs v \<longrightarrow> length xs + length txt \<le> kv_cap v \<longrightarrow>
     (\<exists>v'. w v = (Inr (), v') \<and> kv_rep u8_ty (xs @ txt) v' \<and> kv_cap v' = kv_cap v))"

definition writes :: "writer \<Rightarrow> string \<Rightarrow> bool" where
  "writes w txt \<longleftrightarrow> appends (kv_inv u8_ty) kv_list ENOMEM w txt \<and> fits w txt"

lemma u8_cap_bound: "kv_rep u8_ty xs v \<Longrightarrow> kv_cap v \<le> usize_max"
  by (cases "kv_cap v = 0")
    (auto simp: kv_rep_def array_layout_def u8_ty_def checked_mul_def split: if_splits)

lemma fits_extend: "fits (extend al txt) txt"
  unfolding fits_def
proof (intro allI impI)
  fix xs :: string and v
  assume v: "kv_rep u8_ty xs v" "length xs + length txt \<le> kv_cap v"
  then have "reserve u8_ty (al_bytes al) (length txt) v = (Inr (), v)"
    using u8_cap_bound [OF v(1)] by (simp add: reserve_def checked_add_def kv_rep_def)
  then show "\<exists>v'. extend al txt v = (Inr (), v') \<and> kv_rep u8_ty (xs @ txt) v' \<and> kv_cap v' = kv_cap v"
    using kv_push_each_room [OF v, of "al_bytes al"]
    by (auto simp: extend_def smap_err_def extend_from_slice_def sthen_def sbind_def)
qed

lemma fits_sthen:
  assumes "fits m xs" "fits n ys"
  shows "fits (sthen m n) (xs @ ys)"
  unfolding fits_def
proof (intro allI impI)
  fix zs :: string and v
  assume v: "kv_rep u8_ty zs v" "length zs + length (xs @ ys) \<le> kv_cap v"
  then obtain v1 where v1: "m v = (Inr (), v1)" "kv_rep u8_ty (zs @ xs) v1" "kv_cap v1 = kv_cap v"
    using assms(1) unfolding fits_def by fastforce
  then obtain v2 where "n v1 = (Inr (), v2)" "kv_rep u8_ty ((zs @ xs) @ ys) v2" "kv_cap v2 = kv_cap v1"
    using assms(2) v(2) unfolding fits_def by fastforce
  with v1 show "\<exists>v'. sthen m n v = (Inr (), v') \<and> kv_rep u8_ty (zs @ xs @ ys) v' \<and> kv_cap v' = kv_cap v"
    by (simp add: sthen_def sbind_def)
qed

lemma writes_extend: "al_ok al \<Longrightarrow> writes (extend al txt) txt"
  unfolding writes_def
proof
  show "fits (extend al txt) txt" by (rule fits_extend)
  show "al_ok al \<Longrightarrow> appends (kv_inv u8_ty) kv_list ENOMEM (extend al txt) txt"
    unfolding extend_def by (rule kv.appends_map_err, rule kv.appends_extend) (simp add: al_ok_def)
qed

lemma writes_none: "writes (sret ()) []"
  unfolding writes_def using kv.appends_nothing by (auto simp: fits_def)

lemma writes_sseq: "list_all2 writes ws txts \<Longrightarrow> writes (sseq ws) (concat txts)"
proof (induction rule: list_all2_induct)
  case Nil
  then show ?case using writes_none by (simp del: sret_apply)
next
  case (Cons w t ws ts)
  then show ?case by (auto simp: writes_def intro: kv.appends_sthen fits_sthen)
qed

definition header_text :: "string \<times> string \<Rightarrow> string" where
  "header_text p = fst p @ '': '' @ snd p @ crlf"

lemma writes_header:
  assumes "al_ok al"
  shows "writes (write_header al n v) (header_text (n, v))"
proof -
  have "writes (write_header al n v) (concat [n, '': '', v, crlf])"
    unfolding write_header_def by (intro writes_sseq) (simp add: writes_extend [OF assms])
  then show ?thesis by (simp add: header_text_def)
qed

lemma writes_header_usize:
  assumes "al_ok al" "x \<le> usize_max"
  shows "writes (write_header_usize al n x) (header_text (n, dec x))"
proof -
  have "format_usize x (replicate 20 (CHR 0x00)) = dec x"
    using assms(2) by (intro format_usize_dec) (simp_all add: usize_max_def)
  then show ?thesis using writes_header [OF assms(1)] by (simp add: write_header_usize_def)
qed

lemma writes_u16: "al_ok al \<Longrightarrow> x < 2 ^ 16 \<Longrightarrow> writes (write_u16 al x) (dec x)"
  using format_usize_dec [of x "replicate 5 (CHR 0x00)"] writes_extend [of al "dec x"]
  by (simp add: write_u16_def)

lemma writes_u8:
  assumes "al_ok al"
  shows "writes (write_u8 al (unat (b :: byte))) (dec (unat b))"
proof -
  have "unat b < 2 ^ 8" using unsigned_less [of b] by simp
  then show ?thesis
    using format_usize_dec [of "unat b" "replicate 3 (CHR 0x00)"] writes_extend [OF assms, of "dec (unat b)"]
    by (simp add: write_u8_def)
qed

lemma writes_headers:
  assumes "al_ok al"
  shows "writes (write_headers al h) (concat (map header_text (headers_iter h)))"
  unfolding write_headers_def
  by (intro writes_sseq) (auto simp: list_all2_map1 list_all2_map2 list.rel_refl writes_header [OF assms]
      intro!: list.rel_refl_strong)

definition request_text :: "request \<Rightarrow> string \<Rightarrow> string" where
  "request_text req host =
     method_str (rq_method req) @ '' '' @ kv_list (rq_path req) @ '' '' @ version_str (rq_version req) @ crlf
     @ header_text (HOST, host)
     @ (if kv_list (rq_body req) = [] then [] else header_text (CONTENT_LENGTH, dec (length (kv_list (rq_body req)))))
     @ concat (map header_text (headers_iter (rq_headers req))) @ crlf"

definition response_text :: "response \<Rightarrow> string" where
  "response_text resp =
     version_str (rs_version resp) @ '' '' @ dec (as_u16 (rs_status resp)) @ '' '' @ reason (rs_status resp) @ crlf
     @ header_text (CONTENT_LENGTH, dec (length (kv_list (rs_body resp))))
     @ concat (map header_text (headers_iter (rs_headers resp))) @ crlf"

text \<open>Vectors of bytes are well-formed and hold less than the address space.\<close>

lemma kv_len_list: "kv_inv ty v \<Longrightarrow> kv_len v = length (kv_list v)"
  by (simp add: kv_inv_def kv_rep_def)

lemma u8_len_bound: "kv_inv u8_ty v \<Longrightarrow> length (kv_list v) \<le> usize_max"
  using u8_cap_bound [of "kv_list v" v] by (simp add: kv_inv_def kv_rep_def)

lemma writes_request_head:
  assumes "al_ok al" "kv_inv u8_ty (rq_body req)"
  shows "writes (request_head al req host) (request_text req host)"
proof -
  let ?b = "kv_list (rq_body req)"
  have "writes (request_head al req host)
      (concat [method_str (rq_method req), '' '', kv_list (rq_path req), '' '', version_str (rq_version req), crlf,
         header_text (HOST, host),
         if ?b = [] then [] else header_text (CONTENT_LENGTH, dec (length ?b)),
         concat (map header_text (headers_iter (rq_headers req))), crlf])"
    unfolding request_head_def
    using writes_extend [OF assms(1)] writes_header [OF assms(1)] writes_headers [OF assms(1)] writes_none
      writes_header_usize [OF assms(1) u8_len_bound [OF assms(2)]] kv_len_list [OF assms(2)]
    by (intro writes_sseq) (simp add: kv_is_empty_def del: sret_apply)
  then show ?thesis by (simp add: request_text_def)
qed

lemma writes_response_head:
  assumes "al_ok al" "kv_inv u8_ty (rs_body resp)"
  shows "writes (response_head al resp) (response_text resp)"
proof -
  let ?b = "kv_list (rs_body resp)"
  have code: "as_u16 (rs_status resp) < 2 ^ 16"
  proof (cases "rs_status resp")
    case (StatusCode x)
    then show ?thesis using unsigned_less [of x] by (simp add: as_u16_def)
  qed
  have "writes (response_head al resp)
      (concat [version_str (rs_version resp), '' '', dec (as_u16 (rs_status resp)), '' '',
         reason (rs_status resp), crlf, header_text (CONTENT_LENGTH, dec (length ?b)),
         concat (map header_text (headers_iter (rs_headers resp))), crlf])"
    unfolding response_head_def
    using writes_extend [OF assms(1)] writes_headers [OF assms(1)] writes_u16 [OF assms(1) code]
      writes_header_usize [OF assms(1) u8_len_bound [OF assms(2)]] kv_len_list [OF assms(2)]
    by (intro writes_sseq) simp
  then show ?thesis by (simp add: response_text_def)
qed

lemma build_writes:
  assumes "al_ok al" "writes w txt"
  shows "build al cap w = Inl ENOMEM
    \<or> (\<exists>v. build al cap w = Inr v \<and> kv_inv u8_ty v \<and> kv_list v = txt)"
    and "with_capacity u8_ty (al_bytes al) cap = Inr v0 \<Longrightarrow> length txt \<le> cap \<Longrightarrow> \<exists>v. build al cap w = Inr v"
proof -
  have ok: "krealloc_ok u8_ty (al_bytes al)" using assms(1) by (simp add: al_ok_def)
  consider "with_capacity u8_ty (al_bytes al) cap = Inl AllocError"
    | v where "with_capacity u8_ty (al_bytes al) cap = Inr v" "kv_rep u8_ty [] v" "cap \<le> kv_cap v"
    using with_capacity_rep [OF ok, of cap] by blast
  note alloc = this
  from alloc show "build al cap w = Inl ENOMEM
    \<or> (\<exists>v. build al cap w = Inr v \<and> kv_inv u8_ty v \<and> kv_list v = txt)"
  proof cases
    case 1
    then show ?thesis by (simp add: build_def)
  next
    case (2 v)
    then obtain v' zs where "kv_inv u8_ty v'" "kv_list v' = zs"
      "w v = (Inr (), v') \<and> zs = txt \<or> w v = (Inl ENOMEM, v')"
      using assms(2) unfolding writes_def appends_def by (fastforce simp: kv_rep_inv)
    with 2 show ?thesis by (auto simp: build_def)
  qed
  assume v0: "with_capacity u8_ty (al_bytes al) cap = Inr v0" "length txt \<le> cap"
  from alloc v0(1) have "kv_rep u8_ty [] v0" "cap \<le> kv_cap v0" by (cases, auto)+
  then have "kv_rep u8_ty [] v0" "length [] + length txt \<le> kv_cap v0" using v0(2) by simp_all
  then obtain v where "w v0 = (Inr (), v)" using assms(2) unfolding writes_def fits_def by blast
  with v0 show "\<exists>v. build al cap w = Inr v" by (simp add: build_def)
qed

lemma send_message_spec:
  assumes "conn_ok c" "kv_inv u8_ty body" "send_message (c_stream c) buf body k = (r, k')"
  shows "\<exists>m. c_sent c k' = c_sent c k @ take m (kv_list buf @ kv_list body)
    \<and> (r = Inr () \<longrightarrow> c_sent c k' = c_sent c k @ kv_list buf @ kv_list body \<and> c_arrives c k' = c_arrives c k)"
  using assms(3) [unfolded send_message_def sthen_def]
proof (cases rule: sbind_cases)
  case (fails e)
  obtain m where "c_sent c k' = c_sent c k @ take m (kv_list buf)"
    using tcp.write_all_spec [OF assms(1) fails(1)] by blast
  then show ?thesis using fails(2) by (intro exI [of _ "min m (length (kv_list buf))"]) (auto simp: min_def)
next
  case (continues u k1)
  have sent: "c_sent c k1 = c_sent c k @ kv_list buf" "c_arrives c k1 = c_arrives c k"
    using tcp.write_all_spec [OF assms(1) continues(1)] by auto
  show ?thesis
  proof (cases "kv_is_empty body")
    case True
    then have "kv_list body = []" using kv_len_list [OF assms(2)] by (simp add: kv_is_empty_def)
    with True continues sent show ?thesis by (intro exI [of _ "length (kv_list buf)"]) simp
  next
    case False
    then have "write_all (c_stream c) (kv_list body) k1 = (r, k')" using continues(2) by simp
    from tcp.write_all_spec [OF assms(1) this] obtain m where
      "c_sent c k' = c_sent c k1 @ take m (kv_list body)"
      "r = Inr () \<longrightarrow> c_sent c k' = c_sent c k1 @ kv_list body \<and> c_arrives c k' = c_arrives c k1" by blast
    with sent show ?thesis by (intro exI [of _ "length (kv_list buf) + m"]) simp
  qed
qed

lemma write_request_spec:
  assumes "al_ok al" "conn_ok c" "kv_inv u8_ty (rq_body req)"
    and "write_request al (c_stream c) req host k = (r, k')"
  defines "msg \<equiv> request_text req host @ kv_list (rq_body req)"
  shows "\<exists>m. c_sent c k' = c_sent c k @ take m msg
    \<and> (r = Inr () \<longrightarrow> c_sent c k' = c_sent c k @ msg \<and> c_arrives c k' = c_arrives c k)"
  using build_writes(1) [OF assms(1) writes_request_head [OF assms(1,3), of host], of 512]
proof (elim disjE exE conjE)
  assume "build al 512 (request_head al req host) = Inl ENOMEM"
  with assms(4) show ?thesis by (intro exI [of _ 0]) (auto simp: write_request_def sbind_def)
next
  fix v
  assume good: "build al 512 (request_head al req host) = Inr v" "kv_list v = request_text req host"
  with assms(4) have "send_message (c_stream c) v (rq_body req) k = (r, k')"
    by (simp add: write_request_def sbind_def)
  from send_message_spec [OF assms(2,3) this] good show ?thesis by (simp add: msg_def)
qed

lemma write_response_spec:
  assumes "al_ok al" "conn_ok c" "kv_inv u8_ty (rs_body resp)"
    and "write_response al (c_stream c) resp k = (r, k')"
  defines "msg \<equiv> response_text resp @ kv_list (rs_body resp)"
  shows "\<exists>m. c_sent c k' = c_sent c k @ take m msg
    \<and> (r = Inr () \<longrightarrow> c_sent c k' = c_sent c k @ msg \<and> c_arrives c k' = c_arrives c k)"
  using build_writes(1) [OF assms(1) writes_response_head [OF assms(1,3)], of 512]
proof (elim disjE exE conjE)
  assume "build al 512 (response_head al resp) = Inl ENOMEM"
  with assms(4) show ?thesis by (intro exI [of _ 0]) (auto simp: write_response_def sbind_def)
next
  fix v
  assume good: "build al 512 (response_head al resp) = Inr v" "kv_list v = response_text resp"
  with assms(4) have "send_message (c_stream c) v (rs_body resp) k = (r, k')"
    by (simp add: write_response_def sbind_def)
  from send_message_spec [OF assms(2,3) this] good show ?thesis by (simp add: msg_def)
qed

text \<open>
  C24. Writing a message puts exactly its text on the wire: the request or
  status line, the \<open>Host\<close> and \<open>Content-Length\<close> lines the library adds,
  the headers in order, an empty line and the body; when allocation or sending
  fails, what was sent is a prefix of it.
\<close>

theorem wire_format:
  assumes "al_ok al" "conn_ok c" "kv_inv u8_ty (rq_body req)" "kv_inv u8_ty (rs_body resp)"
    and "write_request al (c_stream c) req host k = (r, k')"
    and "write_response al (c_stream c) resp k1 = (r1, k1')"
  shows "(\<exists>m. c_sent c k' = c_sent c k @ take m (request_text req host @ kv_list (rq_body req))
           \<and> (r = Inr () \<longrightarrow> c_sent c k' = c_sent c k @ request_text req host @ kv_list (rq_body req)))
    \<and> (\<exists>m. c_sent c k1' = c_sent c k1 @ take m (response_text resp @ kv_list (rs_body resp))
           \<and> (r1 = Inr () \<longrightarrow> c_sent c k1' = c_sent c k1 @ response_text resp @ kv_list (rs_body resp)))"
  using write_request_spec [OF assms(1-3,5)] write_response_spec [OF assms(1,2,4,6)] by blast

text \<open>Vectors that hold a string, and the demonstration connection, which always sends.\<close>

definition str_vec :: "'a list \<Rightarrow> 'a kvec" where
  "str_vec s = \<lparr>kv_ptr = map Some s, kv_len = length s, kv_cap = length s\<rparr>"

lemma str_vec_u8 [simp]:
  "length s \<le> isize_max \<Longrightarrow> kv_inv u8_ty (str_vec s)" "kv_list (str_vec s) = s"
  "kv_len (str_vec s) = length s"
  by (auto simp: str_vec_def kv_inv_def kv_list_def kv_rep_def array_layout_def checked_mul_def u8_ty_def
      from_size_align_def usize_max_def isize_max_def)

lemma demo_write_from: "\<exists>k'. write_from (c_stream demo_conn) buf off k = (Inr (), k')"
proof (induction "length buf - off" arbitrary: off k rule: less_induct)
  case less
  show ?case
  proof (cases "off < length buf")
    case False
    then show ?thesis by (subst write_from.simps) simp
  next
    case True
    then have "min 7 (length buf - off) \<noteq> 0" by simp
    then show ?thesis using less [of "off + min 7 (length buf - off)"] True
      by (subst write_from.simps) (auto simp: demo_eval)
  qed
qed

lemma demo_send_message: "\<exists>k'. send_message (c_stream demo_conn) buf body k = (Inr (), k')"
proof -
  have all: "\<exists>k'. write_all (c_stream demo_conn) s k = (Inr (), k')" for s k
    unfolding write_all_def by (rule demo_write_from)
  obtain k1 where "write_all (c_stream demo_conn) (kv_list buf) k = (Inr (), k1)" using all by blast
  moreover obtain k2 where "write_all (c_stream demo_conn) (kv_list body) k1 = (Inr (), k2)" using all by blast
  ultimately show ?thesis by (simp add: send_message_def sthen_def sbind_def)
qed

lemma demo_capacity: "\<exists>v. with_capacity u8_ty (al_bytes demo_al) 512 = Inr v"
  by (simp add: with_capacity_def demo_al_def kv_eval)

definition demo_request :: request where
  "demo_request = \<lparr>rq_method = Post, rq_path = str_vec ''/a'', rq_version = Http11,
     rq_headers = headers_new, rq_body = str_vec ''hello''\<rparr>"

definition demo_response :: response where
  "demo_response = \<lparr>rs_status = OK, rs_version = Http11, rs_headers = headers_new,
     rs_body = str_vec ''ok''\<rparr>"

lemma demo_bodies: "kv_inv u8_ty (rq_body demo_request)" "kv_inv u8_ty (rs_body demo_response)"
  by (simp_all add: demo_request_def demo_response_def isize_max_def)

lemma demo_texts:
  "request_text demo_request ''h'' = ''POST /a HTTP/1.1'' @ crlf @ ''Host: h'' @ crlf
     @ ''Content-Length: 5'' @ crlf @ crlf"
  "response_text demo_response = ''HTTP/1.1 200 OK'' @ crlf @ ''Content-Length: 2'' @ crlf @ crlf"
  by (simp_all add: request_text_def response_text_def demo_request_def demo_response_def header_text_def
      HOST_def CONTENT_LENGTH_def OK_def as_u16_def reason_def dec.simps dec_digit_def char_of_def bit_0)

lemma demo_written:
  "\<exists>k'. write_request demo_al (c_stream demo_conn) demo_request ''h'' k = (Inr (), k')"
  "\<exists>k'. write_response demo_al (c_stream demo_conn) demo_response k = (Inr (), k')"
proof -
  obtain v0 where v0: "with_capacity u8_ty (al_bytes demo_al) 512 = Inr v0" using demo_capacity ..
  have "\<exists>v. build demo_al 512 (request_head demo_al demo_request ''h'') = Inr v"
    using build_writes(2) [OF demo_al_ok writes_request_head [OF demo_al_ok demo_bodies(1)] v0]
    by (simp add: demo_texts crlf_def)
  then show "\<exists>k'. write_request demo_al (c_stream demo_conn) demo_request ''h'' k = (Inr (), k')"
    using demo_send_message by (auto simp: write_request_def sbind_def)
  have "\<exists>v. build demo_al 512 (response_head demo_al demo_response) = Inr v"
    using build_writes(2) [OF demo_al_ok writes_response_head [OF demo_al_ok demo_bodies(2)] v0]
    by (simp add: demo_texts crlf_def)
  then show "\<exists>k'. write_response demo_al (c_stream demo_conn) demo_response k = (Inr (), k')"
    using demo_send_message by (auto simp: write_response_def sbind_def)
qed

theorem wire_format_witness:
  "\<exists>k'. write_request demo_al (c_stream demo_conn) demo_request ''h'' \<lparr>d_in = [], d_out = []\<rparr> = (Inr (), k')
     \<and> d_out k' = ''POST /a HTTP/1.1'' @ crlf @ ''Host: h'' @ crlf @ ''Content-Length: 5'' @ crlf @ crlf @ ''hello''"
proof -
  let ?k = "\<lparr>d_in = [], d_out = []\<rparr>"
  obtain k' where a: "write_request demo_al (c_stream demo_conn) demo_request ''h'' ?k = (Inr (), k')"
    using demo_written(1) by blast
  obtain k1' where b: "write_response demo_al (c_stream demo_conn) demo_response ?k = (Inr (), k1')"
    using demo_written(2) by blast
  have "c_sent demo_conn k' = c_sent demo_conn ?k @ request_text demo_request ''h'' @ kv_list (rq_body demo_request)"
    using wire_format [OF demo_al_ok demo_conn_ok demo_bodies a b] by blast
  moreover have "c_sent demo_conn = d_out" "kv_list (rq_body demo_request) = ''hello''"
    by (simp_all add: demo_conn_def demo_request_def)
  ultimately show ?thesis using a by (simp add: demo_texts)
qed

text \<open>
  The host line for an address: an IPv4 address in dotted decimal with the
  port unless it is 80.  For every IPv6 address it is the loopback address
  without a port, whatever the address and the port are.
\<close>

theorem format_host_text:
  assumes "al_ok al"
  shows "writes (format_host al (V4 \<lparr>v4_ip = Ipv4Addr a b c d, v4_port = p\<rparr>))
      (dec (unat a) @ ''.'' @ dec (unat b) @ ''.'' @ dec (unat c) @ ''.'' @ dec (unat d)
         @ (if p = 80 then [] else '':'' @ dec (unat p)))
    \<and> writes (format_host al (V6 v6)) ''[::1]''"
proof -
  have p16: "unat p < 2 ^ 16" using unsigned_less [of p] by simp
  have p: "writes (sseq [extend al '':'', write_u16 al (unat p)]) (concat ['':'', dec (unat p)])"
    by (intro writes_sseq) (simp add: writes_extend [OF assms] writes_u16 [OF assms p16])
  have "writes (format_host al (V4 \<lparr>v4_ip = Ipv4Addr a b c d, v4_port = p\<rparr>))
      (concat [dec (unat a), ''.'', dec (unat b), ''.'', dec (unat c), ''.'', dec (unat d),
         if p = 80 then [] else '':'' @ dec (unat p)])"
    unfolding format_host_def socket_addr.case socket_addr_v4.simps ipv4_addr.case
    using p writes_extend [OF assms] writes_u8 [OF assms] writes_none
    by (intro writes_sseq) (simp del: sret_apply sseq.simps)
  moreover have "writes (format_host al (V6 v6)) ''[::1]''"
    using writes_extend [OF assms] by (simp add: format_host_def)
  ultimately show ?thesis by simp
qed

theorem format_host_text_witness:
  "writes (format_host demo_al (new_v6 (Ipv6Addr (replicate 16 7)) 8080)) ''[::1]''"
  using format_host_text [OF demo_al_ok] by (simp add: new_v6_def)

end
