(* ===== verification/Http_Parse.thy ===== *)
theory Http_Parse
  imports Http_Wire
begin

text \<open>
  Reading requests and responses from a stream: the buffered reader of
  \<open>rko-util/src/http/buf_reader.rs\<close> and the parsers of \<open>parse.rs\<close>.
  The header parser of the \<open>httparse\<close> crate is a parameter, a function of
  the bytes seen so far; a slice out of range is a panic.
\<close>

section \<open>The buffered reader\<close>

text \<open>Overwriting part of the contents of a vector through its mutable slice.\<close>

definition kv_write_at :: "nat \<Rightarrow> 'a list \<Rightarrow> 'a kvec \<Rightarrow> 'a kvec" where
  "kv_write_at off xs v =
     v\<lparr>kv_ptr := take off (kv_ptr v) @ map Some xs @ drop (off + length xs) (kv_ptr v)\<rparr>"

record buf_reader =
  br_buf :: "char kvec"
  br_pos :: nat
  br_len :: nat

definition br_new :: "http_alloc \<Rightarrow> nat \<Rightarrow> alloc_error + buf_reader" where
  "br_new al capacity =
     rbind (with_capacity u8_ty (al_bytes al) capacity) (\<lambda>buf.
       case kv_resize u8_ty (al_bytes al) capacity (CHR 0x00) buf of
         (Inl e, _) \<Rightarrow> Inl e
       | (Inr _, buf') \<Rightarrow> Inr \<lparr>br_buf = buf', br_pos = 0, br_len = 0\<rparr>)"

text \<open>Current unconsumed data.\<close>

definition br_data :: "buf_reader \<Rightarrow> 'e fault + string" where
  "br_data r =
     (if br_pos r \<le> br_len r \<and> br_len r \<le> kv_len (br_buf r)
      then Inr (take (br_len r - br_pos r) (drop (br_pos r) (kv_list (br_buf r)))) else Inl Panic)"

text \<open>Moving the unconsumed data to the front of the buffer.\<close>

definition br_compact :: "buf_reader \<Rightarrow> 'e fault + buf_reader" where
  "br_compact r =
     rbind (br_data r) (\<lambda>bs.
       Inr (r\<lparr>br_buf := kv_write_at 0 bs (br_buf r), br_len := br_len r - br_pos r, br_pos := 0\<rparr>))"

definition br_fill :: "'k stream \<Rightarrow> (buf_reader \<times> 'k, error fault, nat) op" where
  "br_fill st s = (case s of (r, k) \<Rightarrow>
     (case (if 0 < br_pos r then br_compact r else Inr r) of
        Inl e \<Rightarrow> (Inl e, (r, k))
      | Inr r1 \<Rightarrow>
          if br_len r1 \<ge> kv_len (br_buf r1) then (Inl (Fail E2BIG), (r1, k))
          else (case st_read st (kv_len (br_buf r1) - br_len r1) k of
                  (Inl e, k1) \<Rightarrow> (Inl (Fail e), (r1, k1))
                | (Inr bs, k1) \<Rightarrow>
                    let r2 = r1\<lparr>br_buf := kv_write_at (br_len r1) bs (br_buf r1)\<rparr>
                    in if length bs = 0 then (Inl (Fail ECONNRESET), (r2, k1))
                       else (Inr (length bs), (r2\<lparr>br_len := br_len r1 + length bs\<rparr>, k1)))))"

definition br_consume :: "nat \<Rightarrow> buf_reader \<Rightarrow> buf_reader" where
  "br_consume n r = r\<lparr>br_pos := br_pos r + n\<rparr>"

definition br_reset :: "buf_reader \<Rightarrow> 'e fault + buf_reader" where
  "br_reset r =
     (if br_pos r < br_len r then br_compact r else Inr (r\<lparr>br_len := 0, br_pos := 0\<rparr>))"


section \<open>The header parser\<close>

text \<open>What \<open>httparse\<close> says of a buffer: complete with the offset of the body, partial, or malformed.\<close>

datatype 'f hp_status = Complete nat 'f | Partial | Invalid

record hp_request =
  hq_method :: "string option"
  hq_path :: "string option"
  hq_version :: "nat option"
  hq_headers :: "(string \<times> string) list"

record hp_response =
  hr_code :: "16 word option"
  hr_version :: "nat option"
  hr_headers :: "(string \<times> string) list"

record server_config =
  max_header_size :: nat
  max_body_size :: nat
  max_connections :: nat
  keepalive_timeout_secs :: nat
  max_headers :: nat

definition default_config :: server_config where
  "default_config = \<lparr>max_header_size = 8192, max_body_size = 1024 * 1024, max_connections = 64,
     keepalive_timeout_secs = 30, max_headers = 64\<rparr>"

primrec insert_all :: "http_alloc \<Rightarrow> (string \<times> string) list \<Rightarrow> headers \<Rightarrow> http_error fault + headers" where
  "insert_all al [] h = Inr h"
| "insert_all al (p # ps) h =
     (case headers_insert al (fst p) (snd p) h of
        (Inl _, _) \<Rightarrow> Inl (Fail Internal)
      | (Inr _, h') \<Rightarrow> insert_all al ps h')"


section \<open>Bodies\<close>

text \<open>
  Reading the rest of a body directly from the stream.  The slice read into
  has the remaining length, so the stream cannot give more than remains.
\<close>

function body_loop ::
  "http_alloc \<Rightarrow> 'k stream \<Rightarrow> nat \<Rightarrow> char kvec \<Rightarrow> ('k, http_error fault, char kvec) op" where
  "body_loop al st remaining body k =
     (if remaining > 0
      then let cur_len = kv_len body
      in (case kv_resize u8_ty (al_bytes al) (cur_len + remaining) (CHR 0x00) body of
            (Inl _, _) \<Rightarrow> (Inl (Fail Internal), k)
          | (Inr _, body1) \<Rightarrow>
              (case st_read st (kv_len body1 - cur_len) k of
                 (Inl _, k1) \<Rightarrow> (Inl (Fail ConnectionClosed), k1)
               | (Inr bs, k1) \<Rightarrow>
                   if length bs = 0 then (Inl (Fail ConnectionClosed), k1)
                   else (case kv_resize u8_ty (al_bytes al) (cur_len + length bs) (CHR 0x00)
                                (kv_write_at cur_len bs body1) of
                           (Inl _, _) \<Rightarrow> (Inl (Fail Internal), k1)
                         | (Inr _, body2) \<Rightarrow> body_loop al st (remaining - length bs) body2 k1)))
      else (Inr body, k))"
  by pat_completeness auto
termination
  by (relation "measure (\<lambda>(al, st, remaining, body, k). remaining)") auto

declare body_loop.simps [simp del]

definition read_body ::
  "http_alloc \<Rightarrow> 'k stream \<Rightarrow> nat \<Rightarrow> nat \<Rightarrow> (buf_reader \<times> 'k, http_error fault, char kvec) op" where
  "read_body al st len max_size s = (case s of (r, k) \<Rightarrow>
     if len = 0 then (Inr kv_new, (r, k))
     else if len > max_size then (Inl (Fail PayloadTooLarge), (r, k))
     else (case rbind (map_err (\<lambda>_. Fail Internal) (with_capacity u8_ty (al_bytes al) len)) (\<lambda>body.
                rbind (br_data r) (\<lambda>buffered.
                let from_buf = min (length buffered) len
                in (case extend_from_slice u8_ty (al_bytes al) (take from_buf buffered) body of
                      (Inl _, _) \<Rightarrow> Inl (Fail Internal)
                    | (Inr _, body1) \<Rightarrow> Inr (from_buf, body1)))) of
             Inl e \<Rightarrow> (Inl e, (r, k))
           | Inr (from_buf, body1) \<Rightarrow>
               (case body_loop al st (len - from_buf) body1 k of
                  (res, k1) \<Rightarrow> (res, (br_consume from_buf r, k1)))))"


section \<open>Messages\<close>

text \<open>A complete request head: build the request, then read its body.\<close>

definition take_request ::
  "http_alloc \<Rightarrow> 'k stream \<Rightarrow> server_config \<Rightarrow> nat \<Rightarrow> hp_request
     \<Rightarrow> (buf_reader \<times> 'k, http_error fault, request) op" where
  "take_request al st cfg body_offset req s =
     (case rbind (of_option (Fail BadRequest) (method_parse (unwrap_or (hq_method req) []))) (\<lambda>mt.
           rbind (map_err (\<lambda>_. Fail Internal)
             (from_slice u8_ty (al_bytes al) (unwrap_or (hq_path req) ''/''))) (\<lambda>path.
           rbind (insert_all al (hq_headers req) headers_new) (\<lambda>h.
             Inr (mt, path, h)))) of
        Inl e \<Rightarrow> (Inl e, s)
      | Inr (mt, path, h) \<Rightarrow>
          let len = unwrap_or (content_length h) 0
          in if len > max_body_size cfg then (Inl (Fail PayloadTooLarge), s)
             else (case read_body al st len (max_body_size cfg) (br_consume body_offset (fst s), snd s) of
                     (Inl e, s1) \<Rightarrow> (Inl e, s1)
                   | (Inr body, s1) \<Rightarrow>
                       (Inr \<lparr>rq_method = mt, rq_path = path,
                             rq_version = from_httparse (unwrap_or (hq_version req) 1),
                             rq_headers = h, rq_body = body\<rparr>, s1)))"

definition take_response ::
  "http_alloc \<Rightarrow> 'k stream \<Rightarrow> nat \<Rightarrow> nat \<Rightarrow> hp_response
     \<Rightarrow> (buf_reader \<times> 'k, http_error fault, response) op" where
  "take_response al st max_size body_offset resp s =
     (case insert_all al (hr_headers resp) headers_new of
        Inl e \<Rightarrow> (Inl e, s)
      | Inr h \<Rightarrow>
          let len = unwrap_or (content_length h) 0
          in (case read_body al st len max_size (br_consume body_offset (fst s), snd s) of
                (Inl e, s1) \<Rightarrow> (Inl e, s1)
              | (Inr body, s1) \<Rightarrow>
                  (Inr \<lparr>rs_status = from_u16 (unwrap_or (hr_code resp) 0),
                        rs_version = from_httparse (unwrap_or (hr_version resp) 1),
                        rs_headers = h, rs_body = body\<rparr>, s1)))"

text \<open>
  Filling makes progress: the buffer keeps its length and holds more
  unconsumed bytes than before, so the parsing loops end.
\<close>

lemma kv_write_at_len [simp]: "kv_len (kv_write_at off xs v) = kv_len v" "kv_cap (kv_write_at off xs v) = kv_cap v"
  by (simp_all add: kv_write_at_def)

lemma br_fill_progress:
  assumes "br_fill st (r, k) = (Inr n, (r1, k1))"
  shows "kv_len (br_buf r1) = kv_len (br_buf r)" "br_pos r1 = 0" "br_len r1 = br_len r - br_pos r + n"
    "0 < n" "br_len r - br_pos r < kv_len (br_buf r)"
  using assms
  by (auto simp: br_fill_def br_compact_def Let_def split: if_splits sum.splits prod.splits)

lemma br_fill_measure:
  "(Inr n, (r1, k1)) = br_fill st (r, k) \<Longrightarrow>
   kv_len (br_buf r1) - (br_len r1 - br_pos r1) < kv_len (br_buf r) - (br_len r - br_pos r)"
  using br_fill_progress [of st r k n r1 k1] by simp

function parse_request ::
  "(string \<Rightarrow> hp_request hp_status) \<Rightarrow> http_alloc \<Rightarrow> 'k stream \<Rightarrow> server_config
     \<Rightarrow> (buf_reader \<times> 'k, http_error fault, request) op" where
  "parse_request hp al st cfg (r, k) =
     (case br_fill st (r, k) of
        (Inl Panic, s) \<Rightarrow> (Inl Panic, s)
      | (Inl (Fail _), s) \<Rightarrow> (Inl (Fail ConnectionClosed), s)
      | (Inr _, (r1, k1)) \<Rightarrow>
          (case br_data r1 of
             Inl e \<Rightarrow> (Inl e, (r1, k1))
           | Inr bs \<Rightarrow>
               (case hp bs of
                  Complete body_offset req \<Rightarrow> take_request al st cfg body_offset req (r1, k1)
                | Partial \<Rightarrow>
                    if length bs \<ge> max_header_size cfg then (Inl (Fail HeaderTooLarge), (r1, k1))
                    else parse_request hp al st cfg (r1, k1)
                | Invalid \<Rightarrow> (Inl (Fail BadRequest), (r1, k1)))))"
  by pat_completeness auto
termination
  by (relation "measure (\<lambda>(hp, al, st, cfg, (r, k)). kv_len (br_buf r) - (br_len r - br_pos r))")
    (auto dest: br_fill_measure)

function parse_response ::
  "(string \<Rightarrow> hp_response hp_status) \<Rightarrow> http_alloc \<Rightarrow> 'k stream \<Rightarrow> nat \<Rightarrow> nat
     \<Rightarrow> (buf_reader \<times> 'k, http_error fault, response) op" where
  "parse_response hp al st max_head max_size (r, k) =
     (case br_fill st (r, k) of
        (Inl Panic, s) \<Rightarrow> (Inl Panic, s)
      | (Inl (Fail _), s) \<Rightarrow> (Inl (Fail ConnectionClosed), s)
      | (Inr _, (r1, k1)) \<Rightarrow>
          (case br_data r1 of
             Inl e \<Rightarrow> (Inl e, (r1, k1))
           | Inr bs \<Rightarrow>
               (case hp bs of
                  Complete body_offset resp \<Rightarrow> take_response al st max_size body_offset resp (r1, k1)
                | Partial \<Rightarrow>
                    if length bs \<ge> max_head then (Inl (Fail HeaderTooLarge), (r1, k1))
                    else parse_response hp al st max_head max_size (r1, k1)
                | Invalid \<Rightarrow> (Inl (Fail BadRequest), (r1, k1)))))"
  by pat_completeness auto
termination
  by (relation "measure (\<lambda>(hp, al, st, mh, ms, (r, k)). kv_len (br_buf r) - (br_len r - br_pos r))")
    (auto dest: br_fill_measure)

declare parse_request.simps [simp del] parse_response.simps [simp del]

section \<open>Lemmas on the reader\<close>

lemma kv_write_at_rep:
  assumes "kv_rep ty xs v" "off + length ys \<le> length xs"
  shows "kv_rep ty (take off xs @ ys @ drop (off + length ys) xs) (kv_write_at off ys v)"
proof -
  have "length (take off xs @ ys @ drop (off + length ys) xs) = length xs" using assms(2) by simp
  with assms show ?thesis
    by (simp add: kv_rep_def kv_write_at_def take_map drop_map)
qed

definition br_ok :: "buf_reader \<Rightarrow> bool" where
  "br_ok r \<longleftrightarrow> kv_inv u8_ty (br_buf r) \<and> br_pos r \<le> br_len r \<and> br_len r \<le> kv_len (br_buf r)"

definition unread :: "buf_reader \<Rightarrow> string" where
  "unread r = take (br_len r - br_pos r) (drop (br_pos r) (kv_list (br_buf r)))"

lemma unread_length: "br_ok r \<Longrightarrow> length (unread r) = br_len r - br_pos r"
  using kv_len_list [of u8_ty "br_buf r"] by (auto simp: br_ok_def unread_def min_def)

lemma br_data_ok: "br_ok r \<Longrightarrow> br_data r = Inr (unread r)"
  by (simp add: br_ok_def br_data_def unread_def)

lemma br_compact_ok:
  assumes "br_ok r"
  shows "\<exists>r1. br_compact r = Inr r1 \<and> br_ok r1 \<and> unread r1 = unread r \<and> br_pos r1 = 0
    \<and> br_len r1 = length (unread r) \<and> kv_len (br_buf r1) = kv_len (br_buf r)"
proof -
  let ?xs = "kv_list (br_buf r)" and ?bs = "unread r"
  have rep: "kv_rep u8_ty ?xs (br_buf r)" and len: "kv_len (br_buf r) = length ?xs"
    using assms kv_len_list [of u8_ty "br_buf r"] by (auto simp: br_ok_def kv_inv_def)
  have bs: "length ?bs \<le> length ?xs" using assms len by (auto simp: unread_length br_ok_def)
  have "kv_rep u8_ty (?bs @ drop (length ?bs) ?xs) (kv_write_at 0 ?bs (br_buf r))"
    using kv_write_at_rep [OF rep, of 0 ?bs] bs by simp
  then show ?thesis
    using assms bs len unread_length [OF assms]
    by (auto simp: br_compact_def br_data_ok br_ok_def unread_def [of "buf_reader.make _ _ _"]
        kv_rep_inv unread_def)
qed

lemma br_consume_ok:
  assumes "br_ok r" "n \<le> length (unread r)"
  shows "br_ok (br_consume n r)" "unread (br_consume n r) = drop n (unread r)"
  using assms unread_length [OF assms(1)]
  by (auto simp: br_ok_def br_consume_def unread_def drop_take add.commute)

lemma br_reset_ok:
  assumes "br_ok r"
  shows "\<exists>r1. br_reset r = Inr r1 \<and> br_ok r1 \<and> unread r1 = unread r \<and> kv_len (br_buf r1) = kv_len (br_buf r)"
proof (cases "br_pos r < br_len r")
  case True
  then show ?thesis using br_compact_ok [OF assms] by (auto simp: br_reset_def)
next
  case False
  then show ?thesis using assms by (auto simp: br_reset_def br_ok_def unread_def)
qed

lemma br_new_ok:
  assumes "al_ok al" "br_new al n = Inr r"
  shows "br_ok r \<and> unread r = [] \<and> kv_len (br_buf r) = n"
proof -
  have ok: "krealloc_ok u8_ty (al_bytes al)" using assms(1) by (simp add: al_ok_def)
  obtain v where w: "with_capacity u8_ty (al_bytes al) n = Inr v"
    using assms(2) by (auto simp: br_new_def)
  obtain u v' where "kv_resize u8_ty (al_bytes al) n (CHR 0x00) v = (u, v')" by fastforce
  with w assms(2) have v: "with_capacity u8_ty (al_bytes al) n = Inr v"
    "kv_resize u8_ty (al_bytes al) n (CHR 0x00) v = (Inr (), v')" "r = \<lparr>br_buf = v', br_pos = 0, br_len = 0\<rparr>"
    by (auto simp: br_new_def split: sum.splits)
  have "kv_rep u8_ty [] v" using with_capacity_rep [OF ok, of n] v(1) by auto
  from kv_resize_rep [OF ok this v(2)] have "kv_rep u8_ty (replicate n (CHR 0x00)) v'" by (cases n) auto
  then show ?thesis using v(3) kv_len_list [of u8_ty v'] by (auto simp: br_ok_def unread_def kv_rep_inv)
qed

lemma written_at:
  assumes "br_ok r" "br_pos r = 0" "br_len r + length bs \<le> kv_len (br_buf r)"
  defines "r1 \<equiv> r\<lparr>br_buf := kv_write_at (br_len r) bs (br_buf r), br_len := br_len r + length bs\<rparr>"
  shows "br_ok r1" "unread r1 = unread r @ bs"
proof -
  let ?xs = "kv_list (br_buf r)"
  have rep: "kv_rep u8_ty ?xs (br_buf r)" and len: "kv_len (br_buf r) = length ?xs"
    using assms(1) kv_len_list [of u8_ty "br_buf r"] by (auto simp: br_ok_def kv_inv_def)
  let ?ys = "take (br_len r) ?xs @ bs @ drop (br_len r + length bs) ?xs"
  have "kv_rep u8_ty ?ys (kv_write_at (br_len r) bs (br_buf r))"
    using kv_write_at_rep [OF rep] assms(3) len by simp
  then have "kv_list (br_buf r1) = ?ys" "kv_inv u8_ty (br_buf r1)" by (simp_all add: r1_def kv_rep_inv)
  moreover have "take (br_len r + length bs) ?ys = take (br_len r) ?xs @ bs"
    using take_overwrite [of "br_len r" bs ?xs] assms(3) len by simp
  ultimately show "br_ok r1" "unread r1 = unread r @ bs"
    using assms(1-3) by (simp_all add: br_ok_def unread_def r1_def)
qed

context byte_stream
begin

text \<open>
  Reading into the reader: what it holds followed by what is still to arrive
  never changes.
\<close>

lemma fill_spec:
  assumes "granted c" "br_ok r" "br_fill (st c) (r, k) = (res, (r1, k1))"
  shows "br_ok r1 \<and> sent c k1 = sent c k \<and> kv_len (br_buf r1) = kv_len (br_buf r) \<and>
    (case res of
       Inr n \<Rightarrow> \<exists>bs. length bs = n \<and> 0 < n \<and> unread r1 = unread r @ bs \<and> arrives c k = bs @ arrives c k1
     | Inl e \<Rightarrow> e \<noteq> Panic \<and> unread r1 = unread r)"
proof -
  obtain r0 where r0: "(if 0 < br_pos r then br_compact r else Inr r) = (Inr r0 :: error fault + buf_reader)"
    "br_ok r0" "unread r0 = unread r" "br_pos r0 = 0" "br_len r0 = length (unread r)"
    "kv_len (br_buf r0) = kv_len (br_buf r)"
    using br_compact_ok [OF assms(2)] assms(2) unread_length [OF assms(2)] by (cases "0 < br_pos r") auto
  let ?n = "kv_len (br_buf r0) - br_len r0"
  obtain rd k2 where rd: "st_read (st c) ?n k = (rd, k2)" by fastforce
  show ?thesis
  proof (cases "br_len r0 \<ge> kv_len (br_buf r0)")
    case True
    then show ?thesis using assms(3) r0 by (auto simp: br_fill_def)
  next
    case False
    show ?thesis
    proof (cases rd)
      case (Inl e)
      then show ?thesis using assms(3) r0 False rd read_err [OF assms(1)] by (auto simp: br_fill_def)
    next
      case (Inr bs)
      have bs: "length bs \<le> ?n" "arrives c k = bs @ arrives c k2" "sent c k2 = sent c k"
        using read_ok [OF assms(1)] rd Inr by blast+
      let ?r2 = "r0\<lparr>br_buf := kv_write_at (br_len r0) bs (br_buf r0)\<rparr>"
      have r2: "br_ok (?r2\<lparr>br_len := br_len r0 + length bs\<rparr>)"
        "unread (?r2\<lparr>br_len := br_len r0 + length bs\<rparr>) = unread r @ bs"
        using written_at [OF r0(2,4), of bs] False bs(1) r0(3) by auto
      have run: "(if bs = [] then (Inl (Fail ECONNRESET), (?r2, k2))
          else (Inr (length bs), (?r2\<lparr>br_len := br_len r0 + length bs\<rparr>, k2))) = (res, (r1, k1))"
        using assms(3) r0(1) False rd Inr by (simp add: br_fill_def Let_def)
      show ?thesis
      proof (cases "bs = []")
        case True
        then have "unread r1 = unread r" "br_ok r1" "res = Inl (Fail ECONNRESET)" "k1 = k2"
          "kv_len (br_buf r1) = kv_len (br_buf r)"
          using run r2 r0(6) by auto
        then show ?thesis using bs(3) by simp
      next
        case nonempty: False
        then have "r1 = ?r2\<lparr>br_len := br_len r0 + length bs\<rparr>" "res = Inr (length bs)" "k1 = k2"
          using run by auto
        then show ?thesis using r2 bs r0(6) nonempty by auto
      qed
    qed
  qed
qed

end
text \<open>
  C23. The buffered reader loses and invents nothing: filling appends exactly
  bytes that arrived to the unconsumed data, so that data followed by what is
  still to arrive stays the same; consuming drops a prefix of it and resetting
  keeps it.  Its positions stay inside the buffer, so no slice is out of range.
\<close>

theorem buf_reader_fifo:
  assumes "conn_ok c" "br_ok r" "br_fill (c_stream c) (r, k) = (res, (r1, k1))" "n \<le> length (unread r)"
  shows "br_ok r1 \<and> res \<noteq> Inl Panic
    \<and> (isl res \<longrightarrow> unread r1 = unread r)
    \<and> (\<not> isl res \<longrightarrow> unread r1 @ c_arrives c k1 = unread r @ c_arrives c k
         \<and> length (unread r) < length (unread r1))
    \<and> br_ok (br_consume n r) \<and> unread (br_consume n r) = drop n (unread r)
    \<and> (\<exists>r2. br_reset r = Inr r2 \<and> br_ok r2 \<and> unread r2 = unread r)"
  using tcp.fill_spec [OF assms(1-3)] br_consume_ok [OF assms(2,4)] br_reset_ok [OF assms(2)]
  by (auto split: sum.splits)

theorem buf_reader_fifo_witness:
  "\<exists>r1 k1. br_fill (c_stream demo_conn) (\<lparr>br_buf = str_vec ''abcd'', br_pos = 0, br_len = 1\<rparr>, \<lparr>d_in = [''xyz''], d_out = []\<rparr>)
       = (Inr 3, (r1, k1)) \<and> br_ok r1 \<and> unread r1 @ c_arrives demo_conn k1 = ''axyz''"
proof -
  let ?r = "\<lparr>br_buf = str_vec ''abcd'', br_pos = 0, br_len = 1\<rparr>" and ?k = "\<lparr>d_in = [''xyz''], d_out = []\<rparr>"
  have r: "br_ok ?r" "unread ?r = ''a''"
    by (simp_all add: br_ok_def unread_def isize_max_def)
  obtain r1 k1 where run: "br_fill (c_stream demo_conn) (?r, ?k) = (Inr 3, (r1, k1))"
    by (simp add: br_fill_def demo_eval Let_def)
  with buf_reader_fifo [OF demo_conn_ok r(1) run, of 0] r(2) show ?thesis by (auto simp: demo_conn_def)
qed


section \<open>Lemmas on bodies and messages\<close>

lemma insert_all_spec:
  "al_ok al \<Longrightarrow> hd_ok h \<Longrightarrow>
   insert_all al ps h = Inl (Fail Internal)
   \<or> (\<exists>h'. insert_all al ps h = Inr h' \<and> hd_ok h' \<and> headers_iter h' = headers_iter h @ ps)"
proof (induction ps arbitrary: h)
  case (Cons p ps)
  from Cons.prems show ?case
  proof (cases rule: headers_insert_spec [where n = "fst p" and v = "snd p"])
    case bad
    then show ?thesis by simp
  next
    case (good h')
    with Cons.IH [OF Cons.prems(1) good(2)] show ?thesis by auto
  qed
qed simp

lemma resize_cases:
  assumes "al_ok al" "kv_inv u8_ty v" "kv_resize u8_ty (al_bytes al) n x v = (res, v')"
  shows "isl res \<or> res = Inr () \<and> kv_inv u8_ty v'
    \<and> kv_list v' = (if n \<le> length (kv_list v) then take n (kv_list v)
                    else kv_list v @ replicate (n - length (kv_list v)) x)"
  using kv_resize_rep [OF _ _ assms(3), of "kv_list v"] assms(1,2)
  by (auto simp: al_ok_def kv_inv_def [symmetric] kv_rep_inv)

context byte_stream
begin

text \<open>One round: no memory, a closed connection, or some bytes more.\<close>

lemma body_round:
  assumes "granted c" "al_ok al" "kv_inv u8_ty body" "0 < n"
  obtains (memory) k' m v where "body_loop al (st c) n body k = (Inl (Fail Internal), k')" "sent c k' = sent c k"
      "kv_inv u8_ty v" "m \<le> length (kv_list body) + n" "isl (fst (kv_resize u8_ty (al_bytes al) m (CHR 0x00) v))"
    | (closed) k' where "body_loop al (st c) n body k = (Inl (Fail ConnectionClosed), k')" "sent c k' = sent c k"
      "n \<le> length (arrives c k) \<Longrightarrow> isl (fst (st_read (st c) n k))"
    | (more) bs v k' where "body_loop al (st c) n body k = body_loop al (st c) (n - length bs) v k'" "bs \<noteq> []" "length bs \<le> n"
      "arrives c k = bs @ arrives c k'" "sent c k' = sent c k" "kv_inv u8_ty v" "kv_list v = kv_list body @ bs"
proof -
  let ?xs = "kv_list body" and ?z = "CHR 0x00"
  note rec = body_loop.simps [of al "st c" n body k]
  have len: "kv_len body = length ?xs" using kv_len_list assms(3) .
  obtain u v where v: "kv_resize u8_ty (al_bytes al) (kv_len body + n) ?z body = (u, v)" by fastforce
  show thesis
  proof (cases u)
    case (Inl e)
    then show thesis using assms(3,4) v len by (intro memory [of k body "kv_len body + n"]) (simp_all add: rec Let_def)
  next
    case (Inr w)
    then have v1: "kv_inv u8_ty v" "kv_list v = ?xs @ replicate n ?z" using resize_cases [OF assms(2,3) v] assms(4) len by auto
    have vlen: "kv_len v - kv_len body = n" using kv_len_list [OF v1(1)] v1(2) len by simp
    obtain rd k2 where rd: "st_read (st c) n k = (rd, k2)" by fastforce
    note eval = rec assms(4) v Inr vlen rd
    show thesis
    proof (cases rd)
      case e: (Inl e)
      then show thesis using eval read_err [OF assms(1)] by (intro closed [of k2]) (simp_all add: Let_def)
    next
      case bs: (Inr bs)
      have got: "length bs \<le> n" "arrives c k = bs @ arrives c k2" "sent c k2 = sent c k" "bs = [] \<Longrightarrow> arrives c k = []"
        using read_ok [OF assms(1)] rd bs assms(4) by blast+
      let ?w = "kv_write_at (kv_len body) bs v"
      have w: "kv_inv u8_ty ?w" "kv_list ?w = ?xs @ bs @ drop (length bs) (replicate n ?z)"
        using kv_write_at_rep [of u8_ty "kv_list v" v "length ?xs" bs] v1 got(1) len
        by (auto simp: kv_inv_def [symmetric] kv_rep_inv)
      obtain u2 v2 where v2: "kv_resize u8_ty (al_bytes al) (kv_len body + length bs) ?z ?w = (u2, v2)" by fastforce
      consider "bs = []" | e where "bs \<noteq> []" "u2 = Inl e" | "bs \<noteq> []" "u2 = Inr ()" by (cases u2) auto
      then show thesis
      proof cases
        case 1
        then show thesis using eval bs got by (intro closed [of k2]) (simp_all add: Let_def)
      next
        case 2
        then show thesis using eval bs got v2 w(1) len by (intro memory [of k2 ?w "kv_len body + length bs"]) (simp_all add: Let_def)
      next
        case 3
        then have "kv_inv u8_ty v2" "kv_list v2 = ?xs @ bs"
          using resize_cases [OF assms(2) w(1) v2] w(2) len got(1) by (auto split: if_splits)
        then show thesis using 3 eval bs got v2 by (intro more [of bs v2 k2]) (simp_all add: Let_def)
      qed
    qed
  qed
qed

lemma body_loop_spec:
  "granted c \<Longrightarrow> al_ok al \<Longrightarrow> kv_inv u8_ty body \<Longrightarrow> body_loop al (st c) n body k = (res, k1) \<Longrightarrow>
   sent c k1 = sent c k \<and>
   (case res of
      Inl e \<Rightarrow> e = Fail Internal \<or> e = Fail ConnectionClosed
        \<and> (n \<le> length (arrives c k) \<longrightarrow> (\<exists>m k'. isl (fst (st_read (st c) m k'))))
    | Inr b \<Rightarrow> kv_inv u8_ty b \<and> (\<exists>bs. length bs = n \<and> kv_list b = kv_list body @ bs
                                    \<and> arrives c k = bs @ arrives c k1))"
proof (induction n arbitrary: body k rule: less_induct)
  case (less n)
  show ?case
  proof (cases "0 < n")
    case False
    then have "body_loop al (st c) n body k = (Inr body, k)" by (subst body_loop.simps) simp
    then have "res = Inr body" "k1 = k" using less.prems(4) by simp_all
    with False less.prems show ?thesis by simp
  next
    case True
    show ?thesis using less.prems(1-3) True
    proof (cases rule: body_round [where k = k])
      case (memory k' m v)
      then show ?thesis using less.prems(4) by simp
    next
      case (closed k')
      then show ?thesis using less.prems(4) by auto
    next
      case (more bs v k')
      then have "n - length bs < n" using True by (cases bs) simp_all
      from less.IH [OF this less.prems(1,2) more(6)] more(1) less.prems(4)
      have rest: "sent c k1 = sent c k'" "\<And>b. res = Inr b \<Longrightarrow> kv_inv u8_ty b \<and> (\<exists>cs. length cs = n - length bs
          \<and> kv_list b = kv_list v @ cs \<and> arrives c k' = cs @ arrives c k1)"
        "\<And>e. res = Inl e \<Longrightarrow> e = Fail Internal \<or> e = Fail ConnectionClosed
          \<and> (n - length bs \<le> length (arrives c k') \<longrightarrow> (\<exists>m k'. isl (fst (st_read (st c) m k'))))"
        by auto
      show ?thesis
      proof (cases res)
        case (Inl e)
        then show ?thesis using rest(1) rest(3) [OF Inl] more by auto
      next
        case (Inr b)
        then obtain cs where "length cs = n - length bs" "kv_list b = kv_list v @ cs" "arrives c k' = cs @ arrives c k1"
          using rest(2) by blast
        then show ?thesis using Inr rest(1) rest(2) [OF Inr] more by (auto intro!: exI [of _ "bs @ cs"])
      qed
    qed
  qed
qed

end
context byte_stream
begin

text \<open>
  A body is the next bytes of what was unread and of what arrives.  The
  connection is found closed only if it ends early or a read fails.
\<close>

lemma read_body_spec:
  assumes "granted c" "al_ok al" "br_ok r" "read_body al (st c) len max_size (r, k) = (res, (r1, k1))"
  shows "br_ok r1 \<and> sent c k1 = sent c k \<and> kv_len (br_buf r1) = kv_len (br_buf r) \<and>
    (case res of
       Inl e \<Rightarrow> e = Fail Internal \<or> e = Fail PayloadTooLarge \<and> max_size < len \<or> e = Fail ConnectionClosed
         \<and> (len \<le> length (unread r @ arrives c k) \<longrightarrow> (\<exists>m k'. isl (fst (st_read (st c) m k'))))
     | Inr b \<Rightarrow> kv_inv u8_ty b \<and> length (kv_list b) = len
         \<and> unread r @ arrives c k = kv_list b @ unread r1 @ arrives c k1)"
proof (cases "len = 0 \<or> len > max_size")
  case True
  then show ?thesis using assms(3,4) by (auto simp: read_body_def split: if_splits)
next
  case False
  have ok: "krealloc_ok u8_ty (al_bytes al)" using assms(2) by (simp add: al_ok_def)
  let ?n = "min (length (unread r)) len"
  consider (bad) "with_capacity u8_ty (al_bytes al) len = Inl AllocError"
    | (good) v where "with_capacity u8_ty (al_bytes al) len = Inr v" "kv_rep u8_ty [] v"
    using with_capacity_rep [OF ok, of len] by blast
  then show ?thesis
  proof cases
    case bad
    then show ?thesis using assms(3,4) False by (auto simp: read_body_def)
  next
    case (good v)
    obtain u b where ext: "extend_from_slice u8_ty (al_bytes al) (take ?n (unread r)) v = (u, b)" by fastforce
    from extend_rep [OF ok good(2) ext] consider "isl u"
      | "u = Inr ()" "kv_inv u8_ty b" "kv_list b = take ?n (unread r)"
      by (auto simp: kv_rep_inv)
    then show ?thesis
    proof cases
      case 1
      then show ?thesis using assms(3,4) False good ext
        by (auto simp: read_body_def br_data_ok Let_def isl_def)
    next
      case 2
      obtain res' k2 where loop: "body_loop al (st c) (len - ?n) b k = (res', k2)" by fastforce
      have run: "res = res'" "r1 = br_consume ?n r" "k1 = k2"
        using assms(3,4) False good ext 2 loop by (auto simp: read_body_def br_data_ok Let_def)
      have r1: "br_ok r1" "unread r1 = drop ?n (unread r)" "kv_len (br_buf r1) = kv_len (br_buf r)"
        using br_consume_ok [OF assms(3), of ?n] run by (auto simp: br_consume_def)
      have split: "len - ?n = 0 \<or> unread r1 = []" using r1(2) by (cases "length (unread r) \<le> len") auto
      show ?thesis
      proof (cases res)
        case (Inl e)
        then show ?thesis
          using body_loop_spec [OF assms(1,2) 2(2) loop] run r1 by (auto simp: min_def split: if_splits)
      next
        case (Inr b')
        then obtain bs where bs: "length bs = len - ?n" "kv_list b' = kv_list b @ bs" "kv_inv u8_ty b'"
          "arrives c k = bs @ arrives c k1" "sent c k1 = sent c k"
          using body_loop_spec [OF assms(1,2) 2(2) loop] run by auto
        have "take ?n (unread r) @ drop ?n (unread r) = unread r" by (rule append_take_drop_id)
        then have "bs @ unread r1 = unread r1 @ bs" "take ?n (unread r) @ unread r1 = unread r"
          using split bs(1) r1(2) by auto
        then have "unread r @ arrives c k = kv_list b' @ unread r1 @ arrives c k1"
          using bs 2(3) by (metis append_assoc)
        moreover have "length (kv_list b') = len" using bs 2(3) by (simp add: min_def)
        ultimately show ?thesis using Inr r1 bs by simp
      qed
    qed
  qed
qed

text \<open>A request whose head was complete: everything in it comes from the head and the bytes after it.\<close>

lemma take_request_spec:
  assumes "granted c" "al_ok al" "br_ok r" "off \<le> length (unread r)"
    and "take_request al (st c) cfg off f (r, k) = (res, (r1, k1))"
  defines "len \<equiv> unwrap_or (Option.bind (first_value CONTENT_LENGTH (hq_headers f)) parse_usize) 0"
  shows "br_ok r1 \<and> sent c k1 = sent c k \<and> kv_len (br_buf r1) = kv_len (br_buf r) \<and>
    (case res of
       Inl e \<Rightarrow> e = Fail Internal
         \<or> e = Fail BadRequest \<and> method_parse (unwrap_or (hq_method f) []) = None
         \<or> e = Fail PayloadTooLarge \<and> max_body_size cfg < len
         \<or> e = Fail ConnectionClosed
           \<and> (off + len \<le> length (unread r @ arrives c k) \<longrightarrow> (\<exists>m k'. isl (fst (st_read (st c) m k'))))
     | Inr q \<Rightarrow> method_parse (unwrap_or (hq_method f) []) = Some (rq_method q)
         \<and> kv_list (rq_path q) = unwrap_or (hq_path f) ''/''
         \<and> rq_version q = from_httparse (unwrap_or (hq_version f) 1)
         \<and> hd_ok (rq_headers q) \<and> headers_iter (rq_headers q) = hq_headers f
         \<and> kv_inv u8_ty (rq_body q) \<and> length (kv_list (rq_body q)) = len \<and> len \<le> max_body_size cfg
         \<and> unread r @ arrives c k = take off (unread r) @ kv_list (rq_body q) @ unread r1 @ arrives c k1)"
proof -
  let ?m = "method_parse (unwrap_or (hq_method f) [])" and ?p = "unwrap_or (hq_path f) ''/''"
  have ok: "krealloc_ok u8_ty (al_bytes al)" using assms(2) by (simp add: al_ok_def)
  note r0 = br_consume_ok [OF assms(3,4)]
  consider "?m = None" | m where "?m = Some m" "from_slice u8_ty (al_bytes al) ?p = Inl AllocError"
    | m p where "?m = Some m" "from_slice u8_ty (al_bytes al) ?p = Inr p" "kv_list p = ?p"
        "insert_all al (hq_headers f) headers_new = Inl (Fail Internal)"
    | (good) m p h where "?m = Some m" "from_slice u8_ty (al_bytes al) ?p = Inr p" "kv_list p = ?p"
        "insert_all al (hq_headers f) headers_new = Inr h" "hd_ok h" "headers_iter h = hq_headers f"
    using from_slice_rep [OF ok, of ?p] insert_all_spec [OF assms(2) hd_ok_new(1), of "hq_headers f"]
    by (cases ?m) (auto simp: kv_rep_inv)
  then show ?thesis
  proof cases
    case good
    have len: "unwrap_or (content_length h) 0 = len"
      using good(6) by (simp add: len_def content_length_def headers_get_first)
    show ?thesis
    proof (cases "max_body_size cfg < len")
      case True
      then show ?thesis using assms(3,5) good len by (auto simp: take_request_def)
    next
      case False
      obtain rb s1 where rb: "read_body al (st c) len (max_body_size cfg) (br_consume off r, k) = (rb, s1)"
        by (meson surj_pair)
      have run: "(res, (r1, k1)) = (case rb of Inl e \<Rightarrow> Inl e
          | Inr b \<Rightarrow> Inr \<lparr>rq_method = m, rq_path = p,
               rq_version = from_httparse (unwrap_or (hq_version f) 1), rq_headers = h, rq_body = b\<rparr>, s1)"
        using assms(5) good len False rb by (auto simp: take_request_def Let_def split: sum.splits)
      have s1: "s1 = (r1, k1)" using run by auto
      have body: "kv_len (br_buf (br_consume off r)) = kv_len (br_buf r)" by (simp add: br_consume_def)
      have cut: "drop off (unread r) @ xs = ys \<Longrightarrow> unread r @ xs = take off (unread r) @ ys" for xs ys
        by (metis append_assoc append_take_drop_id)
      show ?thesis
        using read_body_spec [OF assms(1,2) r0(1) rb [unfolded s1]] run s1 r0(2) good body False assms(4)
        by (auto split: sum.splits intro!: cut)
    qed
  qed (use assms(3,5) in \<open>auto simp: take_request_def\<close>)
qed

end

text \<open>
  What the header parser documents for one message head: every proper prefix
  is partial, and once the head is there it is complete, whatever follows.
\<close>

definition understands :: "(string \<Rightarrow> 'f hp_status) \<Rightarrow> string \<Rightarrow> 'f \<Rightarrow> bool" where
  "understands hp head f \<longleftrightarrow> (\<forall>p. strict_prefix p head \<longrightarrow> hp p = Partial)
     \<and> (\<forall>rest. hp (head @ rest) = Complete (length head) f)"

definition no_read_error :: "'k stream \<Rightarrow> bool" where
  "no_read_error st \<longleftrightarrow> (\<forall>n k. \<not> isl (fst (st_read st n k)))"

context byte_stream
begin

lemma fill_succeeds:
  assumes "granted c" "br_ok r" "length (unread r) < kv_len (br_buf r)" "arrives c k \<noteq> []"
    "no_read_error (st c)"
  shows "\<exists>n r1 k1. br_fill (st c) (r, k) = (Inr n, (r1, k1))"
proof -
  obtain r0 where r0: "(if 0 < br_pos r then br_compact r else Inr r) = (Inr r0 :: error fault + buf_reader)"
    "br_len r0 = length (unread r)" "kv_len (br_buf r0) = kv_len (br_buf r)"
    using br_compact_ok [OF assms(2)] assms(2) unread_length [OF assms(2)] by (cases "0 < br_pos r") auto
  let ?n = "kv_len (br_buf r0) - br_len r0"
  obtain bs k1 where rd: "st_read (st c) ?n k = (Inr bs, k1)"
    using assms(5) by (cases "st_read (st c) ?n k"; cases "fst (st_read (st c) ?n k)")
      (auto simp: no_read_error_def isl_def dest!: spec [of _ ?n] spec [of _ k])
  then have "bs \<noteq> []" using read_ok [OF assms(1) rd] r0 assms(3,4) by auto
  then show ?thesis using r0 rd assms(3) by (simp add: br_fill_def Let_def)
qed

lemma fill_progress:
  assumes "granted c" "br_ok r" "length (unread r) < length head" "length head \<le> kv_len (br_buf r)"
    "no_read_error (st c)" "unread r @ arrives c k = head @ rest"
  obtains n r1 k1 where "br_fill (st c) (r, k) = (Inr n, (r1, k1))" "br_ok r1" "sent c k1 = sent c k"
    "kv_len (br_buf r1) = kv_len (br_buf r)" "unread r1 @ arrives c k1 = head @ rest"
    "length (unread r) < length (unread r1)"
proof -
  have "arrives c k \<noteq> []"
  proof
    assume "arrives c k = []"
    with assms(6) have "unread r = head @ rest" by simp
    with assms(3) show False by simp
  qed
  then obtain n r1 k1 where f: "br_fill (st c) (r, k) = (Inr n, (r1, k1))"
    using fill_succeeds [OF assms(1,2) _ _ assms(5), of k] assms(3,4) by auto
  from fill_spec [OF assms(1,2) f] obtain bs where "unread r1 = unread r @ bs" "arrives c k = bs @ arrives c k1" "bs \<noteq> []"
    "br_ok r1" "sent c k1 = sent c k" "kv_len (br_buf r1) = kv_len (br_buf r)" by auto
  with that f assms(6) show thesis by auto
qed

lemma head_or_prefix:
  "xs @ ys = head @ rest \<Longrightarrow> length xs < length head \<Longrightarrow> strict_prefix xs head"
  by (auto simp: append_eq_append_conv2 strict_prefix_def prefix_def)

lemma parse_request_reads_head:
  assumes "granted c" "understands hp head f" "no_read_error (st c)" "length head \<le> max_header_size cfg"
  shows "br_ok r \<Longrightarrow> length (unread r) < length head \<Longrightarrow> length head \<le> kv_len (br_buf r) \<Longrightarrow>
    unread r @ arrives c k = head @ rest \<Longrightarrow>
    \<exists>r0 k0. parse_request hp al (st c) cfg (r, k) = take_request al (st c) cfg (length head) f (r0, k0)
      \<and> br_ok r0 \<and> kv_len (br_buf r0) = kv_len (br_buf r) \<and> sent c k0 = sent c k
      \<and> prefix head (unread r0) \<and> unread r0 @ arrives c k0 = head @ rest"
proof (induction "length head - length (unread r)" arbitrary: r k rule: less_induct)
  case less
  obtain n r1 k1 where f: "br_fill (st c) (r, k) = (Inr n, (r1, k1))" "br_ok r1" "sent c k1 = sent c k"
    "kv_len (br_buf r1) = kv_len (br_buf r)" "unread r1 @ arrives c k1 = head @ rest"
    "length (unread r) < length (unread r1)"
    using fill_progress [OF assms(1) less.prems(1-3) assms(3) less.prems(4)] .
  show ?case
  proof (cases "length (unread r1) < length head")
    case True
    then have part: "hp (unread r1) = Partial"
      using assms(2) head_or_prefix [OF f(5)] by (simp add: understands_def)
    have "parse_request hp al (st c) cfg (r, k) = parse_request hp al (st c) cfg (r1, k1)"
      using f(1,2) part True assms(4) by (subst parse_request.simps) (simp add: br_data_ok)
    moreover have "length head - length (unread r1) < length head - length (unread r)"
      using f(6) True by linarith
    ultimately show ?thesis using less.hyps [OF _ f(2) True _ f(5)] less.prems(3) f(3,4) by simp
  next
    case False
    then obtain zs where zs: "unread r1 = head @ zs"
      using f(5) by (auto simp: append_eq_append_conv2)
    then have "parse_request hp al (st c) cfg (r, k) = take_request al (st c) cfg (length head) f (r1, k1)"
      using f(1,2) assms(2) by (subst parse_request.simps) (simp add: br_data_ok understands_def)
    then show ?thesis using f zs by (intro exI [of _ r1] exI [of _ k1]) auto
  qed
qed

lemma parse_request_spec:
  assumes "granted c" "al_ok al" "understands hp head f" "no_read_error (st c)"
    and "length head \<le> max_header_size cfg" "br_ok r" "length (unread r) < length head"
    and "length head \<le> kv_len (br_buf r)" "unread r @ arrives c k = head @ body @ rest"
    and "method_parse (unwrap_or (hq_method f) []) = Some m"
    and "unwrap_or (Option.bind (first_value CONTENT_LENGTH (hq_headers f)) parse_usize) 0 = length body"
    and "length body \<le> max_body_size cfg"
    and "parse_request hp al (st c) cfg (r, k) = (res, (r1, k1))"
  shows "br_ok r1 \<and> sent c k1 = sent c k \<and> kv_len (br_buf r1) = kv_len (br_buf r) \<and>
    (res = Inl (Fail Internal) \<or>
     (\<exists>q. res = Inr q \<and> rq_method q = m \<and> kv_list (rq_path q) = unwrap_or (hq_path f) ''/''
        \<and> rq_version q = from_httparse (unwrap_or (hq_version f) 1)
        \<and> hd_ok (rq_headers q) \<and> headers_iter (rq_headers q) = hq_headers f
        \<and> kv_inv u8_ty (rq_body q) \<and> kv_list (rq_body q) = body
        \<and> unread r1 @ arrives c k1 = rest))"
proof -
  obtain r0 k0 where r0: "parse_request hp al (st c) cfg (r, k) = take_request al (st c) cfg (length head) f (r0, k0)"
    "br_ok r0" "kv_len (br_buf r0) = kv_len (br_buf r)" "sent c k0 = sent c k" "prefix head (unread r0)"
    "unread r0 @ arrives c k0 = head @ body @ rest"
    using parse_request_reads_head [OF assms(1,3,4,5,6,7,8,9), of al] by auto
  have off: "length head \<le> length (unread r0)" "take (length head) (unread r0) = head"
    using r0(5) by (auto simp: prefix_def)
  note spec = take_request_spec [OF assms(1,2) r0(2) off(1) assms(13) [unfolded r0(1)], unfolded assms(10,11) off(2) r0(6)]
  show ?thesis
  proof (cases res)
    case (Inl e)
    then show ?thesis using spec r0(3,4) assms(4,12) by (auto simp: no_read_error_def)
  next
    case (Inr q)
    then show ?thesis using spec r0(3,4) by auto
  qed
qed

end

section \<open>Nothing is lost for lack of memory\<close>

lemma insert_all_small:
  assumes "al_ok al" "al_total al"
  shows "hd_ok h \<Longrightarrow> kv_cap h \<le> 2 * length (kv_list h) \<Longrightarrow> small (length (kv_list h) + length ps) \<Longrightarrow>
    \<forall>p \<in> set ps. small (length (fst p)) \<and> small (length (snd p)) \<Longrightarrow>
    \<exists>h'. insert_all al ps h = Inr h'"
proof (induction ps arbitrary: h)
  case (Cons p ps)
  then obtain h' where h': "headers_insert al (fst p) (snd p) h = (Inr (), h')"
    "kv_cap h' \<le> 2 * length (kv_list h')" "length (kv_list h') = Suc (length (kv_list h))"
    using headers_insert_small [OF assms Cons.prems(1,2), of "fst p" "snd p"] by (auto simp: small_def)
  then have "hd_ok h'" using headers_insert_spec [OF assms(1) Cons.prems(1), of "fst p" "snd p"] by auto
  with h' Cons show ?case by auto
qed simp

lemma resize_small:
  assumes "al_ok al" "al_total al" "kv_inv u8_ty v" "small n"
  shows "\<exists>v'. kv_resize u8_ty (al_bytes al) n x v = (Inr (), v')"
  using assms by (intro resize_total [where xs = "kv_list v"])
    (auto simp: al_ok_def al_total_def small_def u8_ty_def isize_max_def kv_inv_def)

context byte_stream
begin

lemma body_loop_small:
  "granted c \<Longrightarrow> al_ok al \<Longrightarrow> al_total al \<Longrightarrow> kv_inv u8_ty body \<Longrightarrow> small (length (kv_list body) + n) \<Longrightarrow>
   fst (body_loop al (st c) n body k) \<noteq> Inl (Fail Internal)"
proof (induction n arbitrary: body k rule: less_induct)
  case (less n)
  show ?case
  proof (cases "0 < n")
    case False
    then show ?thesis by (subst body_loop.simps) simp
  next
    case True
    show ?thesis using less.prems(1,2,4) True
    proof (cases rule: body_round [where k = k])
      case (memory k' m v)
      then have "small m" using less.prems(5) by (simp add: small_def)
      then obtain v' where "kv_resize u8_ty (al_bytes al) m (CHR 0x00) v = (Inr (), v')"
        using resize_small [OF less.prems(2,3) memory(3)] by metis
      then show ?thesis using memory(5) by simp
    next
      case (closed k')
      then show ?thesis by simp
    next
      case (more bs v k')
      then have "n - length bs < n" using True by (cases bs) simp_all
      moreover have "small (length (kv_list v) + (n - length bs))" using more less.prems(5) by (simp add: small_def)
      ultimately show ?thesis using less.IH [of "n - length bs" v k'] less.prems(1-3) more by simp
    qed
  qed
qed

lemma read_body_small:
  assumes "granted c" "al_ok al" "al_total al" "br_ok r" "small len"
  shows "fst (read_body al (st c) len max_size (r, k)) \<noteq> Inl (Fail Internal)"
proof (cases "len = 0 \<or> len > max_size")
  case True
  then show ?thesis by (auto simp: read_body_def)
next
  case False
  have ok: "krealloc_ok u8_ty (al_bytes al)" "krealloc_total (al_bytes al)"
    using assms(2,3) by (simp_all add: al_ok_def al_total_def)
  let ?n = "min (length (unread r)) len"
  obtain v where v: "with_capacity u8_ty (al_bytes al) len = Inr v" "kv_rep u8_ty [] v"
    using with_capacity_total [OF ok(2), of u8_ty len] with_capacity_rep [OF ok(1), of len] assms(5)
    by (auto simp: small_def u8_ty_def isize_max_def)
  have "?n \<le> 2 ^ 40" using assms(5) by (simp add: small_def min_le_iff_disj)
  then obtain b where b: "extend_from_slice u8_ty (al_bytes al) (take ?n (unread r)) v = (Inr (), b)"
    using extend_total [OF ok v(2), of "take ?n (unread r)"] by (auto simp: u8_ty_def isize_max_def)
  then have "kv_inv u8_ty b" "kv_list b = take ?n (unread r)"
    using extend_rep [OF ok(1) v(2) b] by (auto simp: kv_rep_inv)
  then have "fst (body_loop al (st c) (len - ?n) b k) \<noteq> Inl (Fail Internal)"
    using body_loop_small [OF assms(1-3), of b "len - ?n" k] assms(5) by (simp add: min_def)
  then show ?thesis
    using False v b assms(4) by (auto simp: read_body_def br_data_ok Let_def split: prod.splits)
qed

lemma take_request_small:
  assumes "granted c" "al_ok al" "al_total al" "br_ok r" "off \<le> length (unread r)"
    and "small (length (unwrap_or (hq_path f) ''/''))" "small (length (hq_headers f))"
    and "\<forall>p \<in> set (hq_headers f). small (length (fst p)) \<and> small (length (snd p))"
    and "small (max_body_size cfg)"
  shows "fst (take_request al (st c) cfg off f (r, k)) \<noteq> Inl (Fail Internal)"
proof -
  obtain p where p: "from_slice u8_ty (al_bytes al) (unwrap_or (hq_path f) ''/'') = Inr p"
    using from_slice_small [OF assms(2,3,6)] ..
  obtain h where h: "insert_all al (hq_headers f) headers_new = Inr h"
    using insert_all_small [OF assms(2,3) hd_ok_new(1), of "hq_headers f"] assms(7,8)
    by (auto simp: headers_new_def kv_new_def kv_list_def)
  let ?len = "unwrap_or (content_length h) 0"
  have "fst (read_body al (st c) ?len (max_body_size cfg) (br_consume off r, k)) \<noteq> Inl (Fail Internal)"
    if "\<not> max_body_size cfg < ?len"
    using that assms(9) read_body_small [OF assms(1-3) br_consume_ok(1) [OF assms(4,5)]]
    by (simp add: small_def)
  then show ?thesis
    using p h by (auto simp: take_request_def Let_def of_option_def split: sum.splits prod.splits option.splits)
qed

end

end
