(* ===== verification/Http_Server.thy ===== *)
theory Http_Server
  imports Http_Parse
begin

text \<open>
  The server's connection loop, \<open>rko-util/src/http/server.rs\<close>, and the
  client, \<open>client.rs\<close>.  The handler is a parameter.  A connection that is
  kept alive may last as long as the peer sends, so the loop runs on fuel;
  more fuel than bytes to arrive is enough for it to end.
\<close>

section \<open>The server\<close>

datatype 'k served = OutOfFuel | Crashed | Closed 'k

definition keepalive :: "request \<Rightarrow> bool" where
  "keepalive q = (case rq_version q of
     Http11 \<Rightarrow> \<not> is_connection_close (rq_headers q)
   | Http10 \<Rightarrow> is_connection_keepalive (rq_headers q))"

fun handle_loop ::
  "nat \<Rightarrow> (string \<Rightarrow> hp_request hp_status) \<Rightarrow> http_alloc \<Rightarrow> 'k stream \<Rightarrow> (request \<Rightarrow> response) \<Rightarrow> server_config
     \<Rightarrow> buf_reader \<times> 'k \<Rightarrow> 'k served" where
  "handle_loop 0 hp al st handler cfg s = OutOfFuel"
| "handle_loop (Suc n) hp al st handler cfg s =
     (case parse_request hp al st cfg s of
        (Inl Panic, _) \<Rightarrow> Crashed
      | (Inl (Fail e), (r, k)) \<Rightarrow>
          if e = ConnectionClosed then Closed k
          else Closed (snd (write_response al st (to_response al e) k))
      | (Inr q, (r, k)) \<Rightarrow>
          (case write_response al st (handler q) k of
             (Inl _, k1) \<Rightarrow> Closed k1
           | (Inr _, k1) \<Rightarrow>
               if \<not> keepalive q then Closed k1
               else (case (br_reset r :: unit fault + buf_reader) of
                       Inl _ \<Rightarrow> Crashed
                     | Inr r1 \<Rightarrow> handle_loop n hp al st handler cfg (r1, k1))))"

definition handle_connection ::
  "nat \<Rightarrow> (string \<Rightarrow> hp_request hp_status) \<Rightarrow> http_alloc \<Rightarrow> 'k stream \<Rightarrow> (request \<Rightarrow> response) \<Rightarrow> server_config
     \<Rightarrow> 'k \<Rightarrow> 'k served" where
  "handle_connection fuel hp al st handler cfg k =
     (case br_new al (max_header_size cfg) of
        Inl _ \<Rightarrow> Closed k
      | Inr r \<Rightarrow> handle_loop fuel hp al st handler cfg (r, k))"

text \<open>
  The accept loop hands every accepted socket to a task of its own and stops
  at the first error; a task that cannot be spawned is dropped with its
  connection.  The results of accepting and of spawning are given as lists.
\<close>

fun accept_loop :: "(error + nat) list \<Rightarrow> bool list \<Rightarrow> nat list" where
  "accept_loop (Inr stream # accepts) (spawned # spawns) =
     (if spawned then stream # accept_loop accepts spawns else accept_loop accepts spawns)"
| "accept_loop _ _ = []"


section \<open>The client\<close>

definition host_buf :: "http_alloc \<Rightarrow> request \<Rightarrow> socket_addr option \<Rightarrow> error + char kvec" where
  "host_buf al req addr = (case addr of
     Some a \<Rightarrow> build al 32 (format_host al a)
   | None \<Rightarrow> (case headers_get (rq_headers req) HOST of
       Some h \<Rightarrow> map_err (\<lambda>_. ENOMEM) (from_slice u8_ty (al_bytes al) h)
     | None \<Rightarrow> Inr kv_new))"

definition send_on_inner ::
  "(string \<Rightarrow> hp_response hp_status) \<Rightarrow> http_alloc \<Rightarrow> 'k stream \<Rightarrow> request \<Rightarrow> socket_addr option
     \<Rightarrow> ('k, error fault, response) op" where
  "send_on_inner hp al st req addr k =
     (case host_buf al req addr of
        Inl e \<Rightarrow> (Inl (Fail e), k)
      | Inr host \<Rightarrow>
          (case write_request al st req (kv_list host) k of
             (Inl _, k1) \<Rightarrow> (Inl (Fail EIO), k1)
           | (Inr _, k1) \<Rightarrow>
               (case br_new al 8192 of
                  Inl _ \<Rightarrow> (Inl (Fail ENOMEM), k1)
                | Inr r \<Rightarrow>
                    (case parse_response hp al st 8192 (1024 * 1024) (r, k1) of
                       (Inl Panic, (_, k2)) \<Rightarrow> (Inl Panic, k2)
                     | (Inl (Fail e), (_, k2)) \<Rightarrow> (Inl (Fail (to_error e)), k2)
                     | (Inr resp, (_, k2)) \<Rightarrow> (Inr resp, k2)))))"

definition client_send ::
  "(string \<Rightarrow> hp_response hp_status) \<Rightarrow> http_alloc \<Rightarrow> 'k sock_api \<Rightarrow> bool \<Rightarrow> ('k \<Rightarrow> 'k) list \<Rightarrow> socket_addr \<Rightarrow> request
     \<Rightarrow> 'k \<Rightarrow> (error fault + response) option \<times> 'k" where
  "client_send hp al api cb wakes addr req k =
     (case async_connect api cb wakes addr k of
        (None, k1) \<Rightarrow> (None, k1)
      | (Some (Inl e), k1) \<Rightarrow> (Some (Inl (Fail e)), k1)
      | (Some (Inr sock), k1) \<Rightarrow>
          (case send_on_inner hp al (tcp_stream api cb sock) req (Some addr) k1 of
             (res, k2) \<Rightarrow> (Some res, sock_release api sock k2)))"

definition send_on ::
  "(string \<Rightarrow> hp_response hp_status) \<Rightarrow> http_alloc \<Rightarrow> 'k stream \<Rightarrow> request \<Rightarrow> ('k, error fault, response) op" where
  "send_on hp al st req = send_on_inner hp al st req None"


section \<open>Parsing is safe\<close>

text \<open>What the header parser documents for every buffer: a complete head lies inside it.\<close>

definition hp_sound :: "(string \<Rightarrow> 'f hp_status) \<Rightarrow> bool" where
  "hp_sound hp \<longleftrightarrow> (\<forall>bs off f. hp bs = Complete off f \<longrightarrow> 0 < off \<and> off \<le> length bs)"

context byte_stream
begin

lemma take_request_safe:
  assumes "granted c" "al_ok al" "br_ok r" "0 < off" "off \<le> length (unread r)"
    and "take_request al (st c) cfg off f (r, k) = (res, (r1, k1))"
  shows "br_ok r1 \<and> sent c k1 = sent c k \<and> res \<noteq> Inl Panic \<and>
    (\<forall>q. res = Inr q \<longrightarrow> length (unread r1 @ arrives c k1) < length (unread r @ arrives c k))"
proof (cases res)
  case (Inl e)
  then show ?thesis using take_request_spec [OF assms(1,2,3,5,6)] by auto
next
  case (Inr q)
  then have "unread r @ arrives c k = take off (unread r) @ kv_list (rq_body q) @ unread r1 @ arrives c k1"
    using take_request_spec [OF assms(1,2,3,5,6)] by simp
  from arg_cong [where f = length, OF this] show ?thesis
    using Inr take_request_spec [OF assms(1,2,3,5,6)] assms(4,5) by (auto simp: min_def)
qed

lemma parse_request_safe:
  assumes "granted c" "al_ok al" "hp_sound hp"
  shows "br_ok r \<Longrightarrow> parse_request hp al (st c) cfg (r, k) = (res, (r1, k1)) \<Longrightarrow>
    br_ok r1 \<and> sent c k1 = sent c k \<and> res \<noteq> Inl Panic \<and>
    (\<forall>q. res = Inr q \<longrightarrow> length (unread r1 @ arrives c k1) < length (unread r @ arrives c k))"
proof (induction "kv_len (br_buf r) - length (unread r)" arbitrary: r k rule: less_induct)
  case less
  obtain fr r2 k2 where f: "br_fill (st c) (r, k) = (fr, (r2, k2))" by (metis surj_pair)
  note spec = fill_spec [OF assms(1) less.prems(1) f]
  show ?case
  proof (cases fr)
    case (Inl e)
    then have "e \<noteq> Panic" using spec by simp
    then have "res = Inl (Fail ConnectionClosed)" "r1 = r2" "k1 = k2"
      using less.prems(2) f Inl by (cases e; simp add: parse_request.simps)+
    then show ?thesis using spec by simp
  next
    case (Inr n)
    then obtain bs where bs: "unread r2 = unread r @ bs" "arrives c k = bs @ arrives c k2" "bs \<noteq> []"
      "br_ok r2" "sent c k2 = sent c k" "kv_len (br_buf r2) = kv_len (br_buf r)"
      using spec by auto
    have same: "length (unread r2 @ arrives c k2) = length (unread r @ arrives c k)" using bs(1,2) by simp
    show ?thesis
    proof (cases "hp (unread r2)")
      case (Complete off g)
      then have "take_request al (st c) cfg off g (r2, k2) = (res, (r1, k1))"
        using less.prems(2) f Inr bs(4) by (simp add: parse_request.simps br_data_ok)
      moreover have "0 < off" "off \<le> length (unread r2)" using Complete assms(3) by (auto simp: hp_sound_def)
      ultimately show ?thesis using take_request_safe [OF assms(1,2) bs(4)] same bs(5) by metis
    next
      case Partial
      show ?thesis
      proof (cases "length (unread r2) \<ge> max_header_size cfg")
        case True
        then show ?thesis using less.prems(2) f Inr Partial bs(4,5)
          by (auto simp: parse_request.simps br_data_ok)
      next
        case False
        then have "parse_request hp al (st c) cfg (r2, k2) = (res, (r1, k1))"
          using less.prems(2) f Inr Partial bs(4) by (simp add: parse_request.simps [of _ _ _ _ r] br_data_ok)
        moreover have "length (unread r2) \<le> kv_len (br_buf r2)"
          using unread_length [OF bs(4)] bs(4) by (auto simp: br_ok_def)
        then have "kv_len (br_buf r2) - length (unread r2) < kv_len (br_buf r) - length (unread r)"
          using bs(1,3,6) by (cases bs) (auto simp: Suc_le_lessD)
        ultimately show ?thesis using less.hyps [OF _ bs(4)] same bs(5) by metis
      qed
    next
      case Invalid
      then show ?thesis using less.prems(2) f Inr bs(4,5) by (auto simp: parse_request.simps br_data_ok)
    qed
  qed
qed

end


section \<open>A connection\<close>

definition message :: "response \<Rightarrow> string" where
  "message resp = response_text resp @ kv_list (rs_body resp)"

text \<open>Complete rounds of a connection: a request read, its response written, the connection kept.\<close>

inductive rounds ::
  "(string \<Rightarrow> hp_request hp_status) \<Rightarrow> http_alloc \<Rightarrow> 'k stream \<Rightarrow> (request \<Rightarrow> response) \<Rightarrow> server_config
     \<Rightarrow> buf_reader \<times> 'k \<Rightarrow> request list \<Rightarrow> buf_reader \<times> 'k \<Rightarrow> bool"
  for hp al st handler cfg where
  none: "rounds hp al st handler cfg s [] s"
| more: "parse_request hp al st cfg s = (Inr q, (r, k)) \<Longrightarrow>
     write_response al st (handler q) k = (Inr (), k1) \<Longrightarrow> keepalive q \<Longrightarrow> (br_reset r :: unit fault + buf_reader) = Inr r1 \<Longrightarrow>
     rounds hp al st handler cfg (r1, k1) qs s' \<Longrightarrow> rounds hp al st handler cfg s (q # qs) s'"

text \<open>How a connection ends, after its last complete round.\<close>

definition last_words ::
  "(string \<Rightarrow> hp_request hp_status) \<Rightarrow> http_alloc \<Rightarrow> 'k stream \<Rightarrow> (request \<Rightarrow> response) \<Rightarrow> server_config
     \<Rightarrow> buf_reader \<times> 'k \<Rightarrow> string \<Rightarrow> bool" where
  "last_words hp al st handler cfg s tail = (case parse_request hp al st cfg s of
     (Inl (Fail ConnectionClosed), _) \<Rightarrow> tail = []
   | (Inl (Fail e), _) \<Rightarrow> prefix tail (message (to_response al e))
   | (Inl Panic, _) \<Rightarrow> False
   | (Inr q, (r, k)) \<Rightarrow> prefix tail (message (handler q))
       \<and> (keepalive q \<longrightarrow> isl (fst (write_response al st (handler q) k))))"

lemma to_response_body: "al_ok al \<Longrightarrow> kv_inv u8_ty (rs_body (to_response al e))"
  using from_slice_rep [of u8_ty "al_bytes al" "snd (error_text e)"]
  by (auto simp: to_response_def al_ok_def kv_rep_inv Let_def split: prod.splits)

lemma write_response_sent:
  assumes "al_ok al" "conn_ok c" "kv_inv u8_ty (rs_body resp)" "write_response al (c_stream c) resp k = (r, k')"
  obtains tail where "c_sent c k' = c_sent c k @ tail" "prefix tail (message resp)"
    "r = Inr () \<Longrightarrow> tail = message resp" "r = Inr () \<Longrightarrow> c_arrives c k' = c_arrives c k"
proof -
  obtain m where "c_sent c k' = c_sent c k @ take m (message resp)"
    "r = Inr () \<longrightarrow> c_sent c k' = c_sent c k @ message resp \<and> c_arrives c k' = c_arrives c k"
    using write_response_spec [OF assms] by (auto simp: message_def)
  then show thesis using that [of "take m (message resp)"] take_is_prefix by auto
qed

lemma handle_loop_spec:
  assumes "al_ok al" "conn_ok c" "hp_sound hp" "\<forall>q. kv_inv u8_ty (rs_body (handler q))"
  shows "br_ok r \<Longrightarrow> length (unread r @ c_arrives c k) < n \<Longrightarrow>
    \<exists>k' qs s tail. handle_loop n hp al (c_stream c) handler cfg (r, k) = Closed k'
      \<and> rounds hp al (c_stream c) handler cfg (r, k) qs s
      \<and> last_words hp al (c_stream c) handler cfg s tail
      \<and> c_sent c k' = c_sent c k @ concat (map (message \<circ> handler) qs) @ tail"
proof (induction n arbitrary: r k)
  case (Suc n)
  obtain res r1 k1 where p: "parse_request hp al (c_stream c) cfg (r, k) = (res, (r1, k1))"
    by (metis surj_pair)
  note safe = tcp.parse_request_safe [OF assms(2,1,3) Suc.prems(1) p]
  show ?case
  proof (cases res)
    case (Inl fe)
    then obtain e where e: "res = Inl (Fail e)" using safe by (cases fe) auto
    show ?thesis
    proof (cases "e = ConnectionClosed")
      case True
      then show ?thesis using p e safe
        by (intro exI [of _ k1] exI [of _ "[]"] exI [of _ "(r, k)"]) (auto simp: last_words_def intro: rounds.none)
    next
      case False
      obtain wr k2 where w: "write_response al (c_stream c) (to_response al e) k1 = (wr, k2)" by fastforce
      obtain tail where "c_sent c k2 = c_sent c k1 @ tail" "prefix tail (message (to_response al e))"
        using write_response_sent [OF assms(1,2) to_response_body [OF assms(1)] w] by blast
      then show ?thesis using p e False w safe
        by (intro exI [of _ k2] exI [of _ "[]"] exI [of _ "(r, k)"] exI [of _ tail])
          (auto simp: last_words_def intro: rounds.none split: http_error.splits)
    qed
  next
    case (Inr q)
    obtain wr k2 where w: "write_response al (c_stream c) (handler q) k1 = (wr, k2)" by fastforce
    obtain tail where tail: "c_sent c k2 = c_sent c k1 @ tail" "prefix tail (message (handler q))"
      "wr = Inr () \<Longrightarrow> tail = message (handler q)" "wr = Inr () \<Longrightarrow> c_arrives c k2 = c_arrives c k1"
      using write_response_sent [OF assms(1,2) assms(4) [rule_format] w] by blast
    show ?thesis
    proof (cases "isl wr \<or> \<not> keepalive q")
      case True
      then have "handle_loop (Suc n) hp al (c_stream c) handler cfg (r, k) = Closed k2"
        using p Inr w by (auto split: sum.splits)
      then show ?thesis using p Inr w tail True safe
        by (intro exI [of _ k2] exI [of _ "[]"] exI [of _ "(r, k)"] exI [of _ tail])
          (auto simp: last_words_def intro: rounds.none)
    next
      case False
      then have wr: "wr = Inr ()" "keepalive q" by (cases wr; simp)+
      obtain r2 where r2: "(br_reset r1 :: unit fault + buf_reader) = Inr r2" "br_ok r2" "unread r2 = unread r1"
        using br_reset_ok [of r1] safe by auto
      have "length (unread r2 @ c_arrives c k2) < n" using safe Inr tail(4) wr(1) r2(3) Suc.prems(2) by auto
      from Suc.IH [OF r2(2) this] obtain k' qs s tl where
        "handle_loop n hp al (c_stream c) handler cfg (r2, k2) = Closed k'"
        "rounds hp al (c_stream c) handler cfg (r2, k2) qs s"
        "last_words hp al (c_stream c) handler cfg s tl"
        "c_sent c k' = c_sent c k2 @ concat (map (message \<circ> handler) qs) @ tl" by blast
      then show ?thesis using p Inr w wr r2(1) tail(1,3) safe
        by (intro exI [of _ k'] exI [of _ "q # qs"] exI [of _ s] exI [of _ tl]) (auto simp: comp_def intro: rounds.more)
    qed
  qed
qed simp

text \<open>
  C3. A connection always ends and never panics, whatever bytes arrive: with
  more fuel than bytes to arrive the loop closes the connection.  What was sent
  by then is, in order, the complete response to every request of the rounds
  that were completed, then at most one message more: a prefix of the response
  to the last request, of an error response, or nothing if the peer left.
\<close>

theorem server_answers_in_order:
  assumes "al_ok al" "conn_ok c" "hp_sound hp" "\<forall>q. kv_inv u8_ty (rs_body (handler q))"
    and "br_new al (max_header_size cfg) = Inr r" "length (c_arrives c k) < fuel"
  shows "\<exists>k' qs s tail. handle_connection fuel hp al (c_stream c) handler cfg k = Closed k'
    \<and> rounds hp al (c_stream c) handler cfg (r, k) qs s
    \<and> last_words hp al (c_stream c) handler cfg s tail
    \<and> c_sent c k' = c_sent c k @ concat (map (message \<circ> handler) qs) @ tail"
  using handle_loop_spec [OF assms(1-4), of r k fuel cfg] br_new_ok [OF assms(1,5)] assms(5,6)
  by (simp add: handle_connection_def)


section \<open>Pipelining\<close>

text \<open>
  A request that already lies whole in the reader is not parsed: the loop
  reads from the connection before it looks at what it holds, so when nothing
  more arrives the connection is closed with the request unanswered.  Requests
  that a client pipelines behind the first are lost in this way.
\<close>

theorem buffered_request_unanswered:
  assumes "conn_ok c" "br_ok r" "c_arrives c k = []"
  shows "fst (parse_request hp al (c_stream c) cfg (r, k)) = Inl (Fail ConnectionClosed)
    \<and> (\<exists>k'. handle_loop (Suc n) hp al (c_stream c) handler cfg (r, k) = Closed k' \<and> c_sent c k' = c_sent c k)"
proof -
  obtain fr r1 k1 where f: "br_fill (c_stream c) (r, k) = (fr, (r1, k1))" by (metis surj_pair)
  then obtain e where "fr = Inl (Fail e)" "c_sent c k1 = c_sent c k"
    using tcp.fill_spec [OF assms(1,2) f] assms(3) by (cases fr rule: sum.exhaust; auto elim: fault.exhaust)
  then show ?thesis using f by (simp add: parse_request.simps)
qed

section \<open>Demonstrations\<close>

lemma demo_reader: "\<exists>r. br_new demo_al 200 = Inr r"
proof -
  obtain v where v: "with_capacity u8_ty (al_bytes demo_al) 200 = Inr v"
    by (auto simp: with_capacity_def demo_al_def kv_eval)
  moreover have "kv_inv u8_ty v"
    using with_capacity_rep [of u8_ty "al_bytes demo_al" 200] demo_al_ok v by (auto simp: al_ok_def kv_rep_inv)
  ultimately show ?thesis using resize_small [OF demo_al_ok demo_al_total, of v 200 "CHR 0x00"]
    by (auto simp: br_new_def small_def)
qed

definition demo_cfg :: server_config where
  "demo_cfg = default_config\<lparr>max_header_size := 200\<rparr>"

text \<open>A parser for which the head of a request is a line feed.\<close>

definition line_hp :: "string \<Rightarrow> hp_request hp_status" where
  "line_hp bs = (if bs = [] then Partial else if hd bs = CHR 0x0A
     then Complete 1 \<lparr>hq_method = Some ''GET'', hq_path = Some ''/'', hq_version = Some 1, hq_headers = []\<rparr>
     else Invalid)"

lemma line_hp_sound: "hp_sound line_hp"
  by (auto simp: hp_sound_def line_hp_def split: if_splits)
  (simp add: Suc_le_eq)

theorem server_answers_in_order_witness:
  "\<exists>r k' qs s tail. handle_connection 3 line_hp demo_al (c_stream demo_conn) (\<lambda>_. demo_response) demo_cfg
       \<lparr>d_in = [[CHR 0x0A], ''?''], d_out = []\<rparr> = Closed k'
    \<and> rounds line_hp demo_al (c_stream demo_conn) (\<lambda>_. demo_response) demo_cfg
       (r, \<lparr>d_in = [[CHR 0x0A], ''?''], d_out = []\<rparr>) qs s
    \<and> last_words line_hp demo_al (c_stream demo_conn) (\<lambda>_. demo_response) demo_cfg s tail
    \<and> d_out k' = concat (map (\<lambda>_. message demo_response) qs) @ tail"
proof -
  obtain r where r: "br_new demo_al (max_header_size demo_cfg) = Inr r"
    using demo_reader by (auto simp: demo_cfg_def)
  have "length (c_arrives demo_conn \<lparr>d_in = [[CHR 0x0A], ''?''], d_out = []\<rparr>) < 3"
    by (simp add: demo_conn_def)
  moreover have "c_sent demo_conn = d_out" by (simp add: demo_conn_def)
  ultimately show ?thesis
    using server_answers_in_order [OF demo_al_ok demo_conn_ok line_hp_sound _ r, of "\<lambda>_. demo_response"
        "\<lparr>d_in = [[CHR 0x0A], ''?''], d_out = []\<rparr>" 3] demo_bodies(2)
    by (simp add: comp_def) blast
qed

theorem buffered_request_unanswered_witness:
  "line_hp [CHR 0x0A] \<noteq> Invalid
     \<and> fst (parse_request line_hp demo_al (c_stream demo_conn) demo_cfg
         (\<lparr>br_buf = str_vec [CHR 0x0A, CHR 0x0A], br_pos = 1, br_len = 2\<rparr>, \<lparr>d_in = [], d_out = []\<rparr>))
       = Inl (Fail ConnectionClosed)"
proof -
  have "br_ok \<lparr>br_buf = str_vec [CHR 0x0A, CHR 0x0A], br_pos = 1, br_len = 2\<rparr>"
    by (simp add: br_ok_def isize_max_def)
  from buffered_request_unanswered [OF demo_conn_ok this, of "\<lparr>d_in = [], d_out = []\<rparr>"]
  show ?thesis by (simp add: line_hp_def demo_conn_def)
qed

end
