(* ===== verification/Uring_Codec.thy ===== *)
theory Uring_Codec
  imports Http_Wire
begin

text \<open>
  The binary form in which a request is handed to user space:
  \<open>serialize_request\<close> and the structures \<open>RequestHdr\<close> and
  \<open>HeaderEntry\<close> of \<open>rko-util/src/http/uring.rs\<close>, and a decoder that
  states what a reader of that form finds.
\<close>

section \<open>Serialisation\<close>

text \<open>A number as bytes in memory, least significant first.\<close>

definition le_chars :: "nat \<Rightarrow> nat \<Rightarrow> string" where
  "le_chars n x = map char_of (le_digits n x)"

record request_hdr =
  rh_req_id :: "64 word"
  rh_method :: "8 word"
  rh_version :: "8 word"
  rh_header_count :: "16 word"
  rh_path_len :: "32 word"
  rh_body_len :: "32 word"
  rh_total_len :: "32 word"

definition hdr_bytes :: "request_hdr \<Rightarrow> string" where
  "hdr_bytes h = le_chars 8 (unat (rh_req_id h)) @ le_chars 1 (unat (rh_method h)) @ le_chars 1 (unat (rh_version h))
     @ le_chars 2 (unat (rh_header_count h)) @ le_chars 4 (unat (rh_path_len h)) @ le_chars 4 (unat (rh_body_len h))
     @ le_chars 4 (unat (rh_total_len h))"

record header_entry =
  he_name_len :: "16 word"
  he_value_len :: "16 word"

definition entry_bytes :: "header_entry \<Rightarrow> string" where
  "entry_bytes e = le_chars 2 (unat (he_name_len e)) @ le_chars 2 (unat (he_value_len e))"

fun method_to_u8 :: "http_method \<Rightarrow> 8 word" where
  "method_to_u8 Get = 0"
| "method_to_u8 Head = 1"
| "method_to_u8 Post = 2"
| "method_to_u8 Put = 3"
| "method_to_u8 Delete = 4"
| "method_to_u8 Options = 5"
| "method_to_u8 Patch = 6"

text \<open>Bytes pushed one by one, with the outcome of every push ignored.\<close>

definition push_all :: "http_alloc \<Rightarrow> string \<Rightarrow> char kvec \<Rightarrow> char kvec" where
  "push_all al xs v = fold (\<lambda>b v. snd (kv_push u8_ty (al_bytes al) b v)) xs v"

definition push_header :: "http_alloc \<Rightarrow> string \<times> string \<Rightarrow> char kvec \<Rightarrow> char kvec" where
  "push_header al p v = (case p of (name, value) \<Rightarrow>
     let entry = \<lparr>he_name_len = of_nat (length name), he_value_len = of_nat (length value)\<rparr>
     in push_all al value (push_all al name (push_all al (entry_bytes entry) v)))"

definition headers_size :: "(string \<times> string) list \<Rightarrow> nat" where
  "headers_size hs = sum_list (map (\<lambda>(name, value). 4 + length name + length value) hs)"

definition serialize_request :: "http_alloc \<Rightarrow> 64 word \<Rightarrow> request \<Rightarrow> error + char kvec" where
  "serialize_request al req_id req =
     (let path = kv_list (rq_path req); body = kv_list (rq_body req); hs = headers_iter (rq_headers req);
          total = (24 + length path + headers_size hs + length body) mod 2 ^ 64
      in case with_capacity u8_ty (al_bytes al) total of
           Inl _ \<Rightarrow> Inl ENOMEM
         | Inr buf \<Rightarrow>
             let hdr = \<lparr>rh_req_id = req_id, rh_method = method_to_u8 (rq_method req),
                        rh_version = (case rq_version req of Http10 \<Rightarrow> 10 | Http11 \<Rightarrow> 11),
                        rh_header_count = of_nat (length hs), rh_path_len = of_nat (length path),
                        rh_body_len = of_nat (length body), rh_total_len = of_nat total\<rparr>
             in Inr (push_all al body (fold (push_header al) hs (push_all al path (push_all al (hdr_bytes hdr) buf)))))"


section \<open>What is written\<close>

definition entry_text :: "string \<times> string \<Rightarrow> string" where
  "entry_text p = le_chars 2 (length (fst p)) @ le_chars 2 (length (snd p)) @ fst p @ snd p"

definition serial_text :: "64 word \<Rightarrow> request \<Rightarrow> string" where
  "serial_text req_id req =
     (let path = kv_list (rq_path req); body = kv_list (rq_body req); hs = headers_iter (rq_headers req)
      in le_chars 8 (unat req_id) @ le_chars 1 (unat (method_to_u8 (rq_method req)))
         @ le_chars 1 (case rq_version req of Http10 \<Rightarrow> 10 | Http11 \<Rightarrow> 11)
         @ le_chars 2 (length hs) @ le_chars 4 (length path) @ le_chars 4 (length body)
         @ le_chars 4 (24 + length path + headers_size hs + length body)
         @ path @ concat (map entry_text hs) @ body)"

lemma length_le_chars [simp]: "length (le_chars n x) = n"
  by (simp add: le_chars_def length_le_digits)

lemma le_digits_mod: "le_digits n (x mod 256 ^ n) = le_digits n x"
proof (induction n arbitrary: x)
  case (Suc n)
  have "x mod (256 * 256 ^ n) mod 256 = x mod 256" by (simp add: mod_mult2_eq)
  moreover have "x mod (256 * 256 ^ n) div 256 = x div 256 mod 256 ^ n" by (simp add: mod_mult2_eq)
  ultimately show ?case using Suc.IH [of "x div 256"] by simp
qed simp

lemma le_chars_mod: "le_chars n (x mod 256 ^ n) = le_chars n x"
  by (simp add: le_chars_def le_digits_mod)

lemma le_chars_word:
  "le_chars 2 (unat (of_nat x :: 16 word)) = le_chars 2 x" "le_chars 4 (unat (of_nat x :: 32 word)) = le_chars 4 x"
  using le_chars_mod [of 2 x] le_chars_mod [of 4 x] by (simp_all add: unat_of_nat)

lemma push_all_room:
  "kv_rep u8_ty xs v \<Longrightarrow> length xs + length ys \<le> kv_cap v \<Longrightarrow>
     kv_rep u8_ty (xs @ ys) (push_all al ys v) \<and> kv_cap (push_all al ys v) = kv_cap v"
proof (induction ys arbitrary: xs v)
  case (Cons y ys)
  then obtain v1 where "kv_push u8_ty (al_bytes al) y v = (Inr (), v1)" "kv_rep u8_ty (xs @ [y]) v1" "kv_cap v1 = kv_cap v"
    using kv_push_room [of u8_ty xs v "al_bytes al" y] by auto
  then show ?case using Cons.IH [of "xs @ [y]" v1] Cons.prems(2) by (simp add: push_all_def)
qed (simp add: push_all_def)

lemma push_header_room:
  assumes "kv_rep u8_ty xs v" "length xs + length (entry_text p) \<le> kv_cap v"
  shows "kv_rep u8_ty (xs @ entry_text p) (push_header al p v) \<and> kv_cap (push_header al p v) = kv_cap v"
proof -
  obtain name val where p: "p = (name, val)" by fastforce
  let ?e = "\<lparr>he_name_len = of_nat (length name), he_value_len = of_nat (length val)\<rparr>"
  have e: "entry_bytes ?e = le_chars 2 (length name) @ le_chars 2 (length val)"
    by (simp add: entry_bytes_def le_chars_word)
  let ?v1 = "push_all al (entry_bytes ?e) v"
  have v1: "kv_rep u8_ty (xs @ entry_bytes ?e) ?v1" "kv_cap ?v1 = kv_cap v"
    using push_all_room [OF assms(1), of "entry_bytes ?e" al] assms(2) p e by (simp_all add: entry_text_def)
  let ?v2 = "push_all al name ?v1"
  have v2: "kv_rep u8_ty ((xs @ entry_bytes ?e) @ name) ?v2" "kv_cap ?v2 = kv_cap v"
    using push_all_room [OF v1(1), of name al] assms(2) p e v1(2) by (simp_all add: entry_text_def)
  from push_all_room [OF v2(1), of val al] assms(2) p e v2(2) show ?thesis
    by (simp add: push_header_def entry_text_def)
qed

lemma push_headers_room:
  "kv_rep u8_ty xs v \<Longrightarrow> length xs + length (concat (map entry_text hs)) \<le> kv_cap v \<Longrightarrow>
     kv_rep u8_ty (xs @ concat (map entry_text hs)) (fold (push_header al) hs v)
     \<and> kv_cap (fold (push_header al) hs v) = kv_cap v"
proof (induction hs arbitrary: xs v)
  case (Cons h hs)
  then have "kv_rep u8_ty (xs @ entry_text h) (push_header al h v)" "kv_cap (push_header al h v) = kv_cap v"
    using push_header_room [of xs v h al] by auto
  then show ?case using Cons.IH [of "xs @ entry_text h" "push_header al h v"] Cons.prems(2) by simp
qed simp

lemma length_entries: "length (concat (map entry_text hs)) = headers_size hs"
  by (induction hs) (auto simp: headers_size_def entry_text_def)

lemma serialize_spec:
  assumes "al_ok al" "length (serial_text req_id req) < 2 ^ 64" "serialize_request al req_id req = Inr v"
  shows "kv_rep u8_ty (serial_text req_id req) v"
proof -
  let ?path = "kv_list (rq_path req)" and ?body = "kv_list (rq_body req)" and ?hs = "headers_iter (rq_headers req)"
  define total where "total = 24 + length ?path + headers_size ?hs + length ?body"
  have total: "total < 2 ^ 64" using assms(2) by (simp add: serial_text_def length_entries Let_def total_def)
  define hdr where "hdr = \<lparr>rh_req_id = req_id, rh_method = method_to_u8 (rq_method req),
    rh_version = (case rq_version req of Http10 \<Rightarrow> 10 | Http11 \<Rightarrow> 11),
    rh_header_count = of_nat (length ?hs), rh_path_len = of_nat (length ?path),
    rh_body_len = of_nat (length ?body), rh_total_len = of_nat total\<rparr>"
  obtain buf where buf: "with_capacity u8_ty (al_bytes al) total = Inr buf"
    and v: "v = push_all al ?body (fold (push_header al) ?hs (push_all al ?path (push_all al (hdr_bytes hdr) buf)))"
    using assms(3) total by (auto simp: serialize_request_def Let_def hdr_def total_def split: sum.splits)
  have room: "kv_rep u8_ty [] buf" "total \<le> kv_cap buf"
    using with_capacity_rep [of u8_ty "al_bytes al" total] assms(1) buf by (auto simp: al_ok_def)
  have len: "length (hdr_bytes hdr) = 24" by (simp add: hdr_bytes_def)
  have v1: "kv_rep u8_ty (hdr_bytes hdr) (push_all al (hdr_bytes hdr) buf)"
    "kv_cap (push_all al (hdr_bytes hdr) buf) = kv_cap buf"
    using push_all_room [OF room(1), of "hdr_bytes hdr" al] room(2) len by (simp_all add: total_def)
  let ?v2 = "push_all al ?path (push_all al (hdr_bytes hdr) buf)"
  have v2: "kv_rep u8_ty (hdr_bytes hdr @ ?path) ?v2" "kv_cap ?v2 = kv_cap buf"
    using push_all_room [OF v1(1), of ?path al] v1(2) room(2) len by (simp_all add: total_def)
  let ?v3 = "fold (push_header al) ?hs ?v2"
  have v3: "kv_rep u8_ty ((hdr_bytes hdr @ ?path) @ concat (map entry_text ?hs)) ?v3" "kv_cap ?v3 = kv_cap buf"
    using push_headers_room [OF v2(1), of ?hs al] v2(2) room(2) len by (simp_all add: length_entries total_def)
  have "kv_rep u8_ty (((hdr_bytes hdr @ ?path) @ concat (map entry_text ?hs)) @ ?body) v"
    using push_all_room [OF v3(1), of ?body al] v3(2) room(2) len v by (simp add: length_entries total_def)
  moreover have "unat (case rq_version req of Http10 \<Rightarrow> 10 | Http11 \<Rightarrow> (11 :: 8 word)) = (case rq_version req of Http10 \<Rightarrow> 10 | Http11 \<Rightarrow> 11)"
    by (cases "rq_version req") simp_all
  ultimately show ?thesis
    by (simp add: serial_text_def hdr_def hdr_bytes_def le_chars_word Let_def flip: total_def)
qed


section \<open>Reading it back\<close>

record decoded =
  de_req_id :: nat
  de_method :: nat
  de_version :: nat
  de_total_len :: nat
  de_path :: string
  de_headers :: "(string \<times> string) list"
  de_body :: string

definition take_le :: "nat \<Rightarrow> string \<Rightarrow> (nat \<times> string) option" where
  "take_le n s = (if n \<le> length s then Some (le_val (map of_char (take n s)), drop n s) else None)"

definition take_str :: "nat \<Rightarrow> string \<Rightarrow> (string \<times> string) option" where
  "take_str n s = (if n \<le> length s then Some (take n s, drop n s) else None)"

fun take_headers :: "nat \<Rightarrow> string \<Rightarrow> ((string \<times> string) list \<times> string) option" where
  "take_headers 0 s = Some ([], s)"
| "take_headers (Suc n) s =
     (case take_le 2 s of None \<Rightarrow> None | Some (nl, s1) \<Rightarrow>
      case take_le 2 s1 of None \<Rightarrow> None | Some (vl, s2) \<Rightarrow>
      case take_str nl s2 of None \<Rightarrow> None | Some (name, s3) \<Rightarrow>
      case take_str vl s3 of None \<Rightarrow> None | Some (value, s4) \<Rightarrow>
      map_option (\<lambda>(hs, r). ((name, value) # hs, r)) (take_headers n s4))"

definition decode :: "string \<Rightarrow> decoded option" where
  "decode s =
     (case take_le 8 s of None \<Rightarrow> None | Some (i, s) \<Rightarrow>
      case take_le 1 s of None \<Rightarrow> None | Some (m, s) \<Rightarrow>
      case take_le 1 s of None \<Rightarrow> None | Some (w, s) \<Rightarrow>
      case take_le 2 s of None \<Rightarrow> None | Some (hc, s) \<Rightarrow>
      case take_le 4 s of None \<Rightarrow> None | Some (pl, s) \<Rightarrow>
      case take_le 4 s of None \<Rightarrow> None | Some (bl, s) \<Rightarrow>
      case take_le 4 s of None \<Rightarrow> None | Some (t, s) \<Rightarrow>
      case take_str pl s of None \<Rightarrow> None | Some (p, s) \<Rightarrow>
      case take_headers hc s of None \<Rightarrow> None | Some (hs, s) \<Rightarrow>
      if length s = bl
      then Some \<lparr>de_req_id = i, de_method = m, de_version = w, de_total_len = t, de_path = p, de_headers = hs, de_body = s\<rparr>
      else None)"

lemma take_le_chars [simp]: "take_le n (le_chars n x @ s) = Some (x mod 256 ^ n, s)"
proof -
  have "map of_char (le_chars n x) = le_digits n x"
    unfolding le_chars_def by (auto simp: map_idI le_digits_byte o_def)
  then show ?thesis by (simp add: take_le_def)
qed

lemma take_str_append [simp]: "n = length p \<Longrightarrow> take_str n (p @ s) = Some (p, s)"
  by (simp add: take_str_def)

lemma take_headers_entries:
  "\<forall>(n, v) \<in> set hs. length n < 2 ^ 16 \<and> length v < 2 ^ 16 \<Longrightarrow>
     take_headers (length hs) (concat (map entry_text hs) @ s) = Some (hs, s)"
  by (induction hs) (auto simp: entry_text_def)

text \<open>The requests whose counts and lengths fit the fields, and what their bytes say.\<close>

definition fits_fields :: "request \<Rightarrow> bool" where
  "fits_fields req \<longleftrightarrow> length (headers_iter (rq_headers req)) < 2 ^ 16
     \<and> (\<forall>(n, v) \<in> set (headers_iter (rq_headers req)). length n < 2 ^ 16 \<and> length v < 2 ^ 16)
     \<and> length (kv_list (rq_path req)) < 2 ^ 32 \<and> length (kv_list (rq_body req)) < 2 ^ 32"

definition decoded_request :: "64 word \<Rightarrow> request \<Rightarrow> decoded" where
  "decoded_request req_id req =
     \<lparr>de_req_id = unat req_id, de_method = unat (method_to_u8 (rq_method req)),
      de_version = (case rq_version req of Http10 \<Rightarrow> 10 | Http11 \<Rightarrow> 11),
      de_total_len = length (serial_text req_id req) mod 2 ^ 32, de_path = kv_list (rq_path req),
      de_headers = headers_iter (rq_headers req), de_body = kv_list (rq_body req)\<rparr>"

lemma decode_serial_text:
  assumes "fits_fields req"
  shows "decode (serial_text req_id req) = Some (decoded_request req_id req)"
proof -
  have len: "length (serial_text req_id req) =
      24 + length (kv_list (rq_path req)) + headers_size (headers_iter (rq_headers req)) + length (kv_list (rq_body req))"
    by (simp add: serial_text_def Let_def length_entries)
  have "unat req_id < 256 ^ 8" using unsigned_less [of req_id] by simp
  moreover have "unat (method_to_u8 (rq_method req)) < 256" using unsigned_less [of "method_to_u8 (rq_method req)"] by simp
  moreover have "(case rq_version req of Http10 \<Rightarrow> 10 | Http11 \<Rightarrow> 11) < (256 :: nat)" by (cases "rq_version req") simp_all
  ultimately show ?thesis
    unfolding decode_def decoded_request_def len using assms
    by (simp add: serial_text_def Let_def take_headers_entries fits_fields_def)
qed

lemma headers_size_bound:
  "\<forall>(n, v) \<in> set hs. length n < k \<and> length v < k \<Longrightarrow> headers_size hs \<le> length hs * (4 + 2 * k)"
  by (induction hs) (auto simp: headers_size_def)

lemma serial_text_bound:
  assumes "fits_fields req"
  shows "length (serial_text req_id req) < 2 ^ 40"
proof -
  let ?hs = "headers_iter (rq_headers req)"
  have "headers_size ?hs \<le> length ?hs * (4 + 2 * 2 ^ 16)"
    using assms unfolding fits_fields_def by (blast intro: headers_size_bound)
  also have "\<dots> \<le> 2 ^ 16 * (4 + 2 * 2 ^ 16)" using assms by (simp add: fits_fields_def)
  finally show ?thesis using assms by (simp add: serial_text_def Let_def length_entries fits_fields_def)
qed

text \<open>
  Whenever the counts and lengths of a request fit the fields, serialising it
  fails only when the allocator refuses, and otherwise the bytes decode to the
  request, with nothing left over.
\<close>

lemma serialize_decodes:
  assumes "al_ok al" "fits_fields req" "serialize_request al req_id req = Inr v"
  shows "kv_inv u8_ty v" "kv_list v = serial_text req_id req" "decode (kv_list v) = Some (decoded_request req_id req)"
proof -
  have "length (serial_text req_id req) < 2 ^ 64" using serial_text_bound [OF assms(2)] by (rule less_trans) simp
  from serialize_spec [OF assms(1) this assms(3)] show "kv_inv u8_ty v" "kv_list v = serial_text req_id req"
    by (simp_all add: kv_rep_inv)
  then show "decode (kv_list v) = Some (decoded_request req_id req)" using decode_serial_text [OF assms(2)] by simp
qed

lemma serialize_succeeds:
  assumes "al_total al" "fits_fields req"
  shows "\<exists>v. serialize_request al req_id req = Inr v"
proof -
  let ?n = "24 + length (kv_list (rq_path req)) + headers_size (headers_iter (rq_headers req)) + length (kv_list (rq_body req))"
  have "length (serial_text req_id req) = ?n" by (simp add: serial_text_def Let_def length_entries)
  then have n: "?n < 2 ^ 40" using serial_text_bound [OF assms(2), of req_id] by simp
  then have "\<exists>v. with_capacity u8_ty (al_bytes al) ?n = Inr v"
    using assms(1) by (intro with_capacity_total) (simp_all add: al_total_def u8_ty_def isize_max_def)
  then show ?thesis using n by (auto simp: serialize_request_def Let_def)
qed

end
