(* ===== verification/Http_Uring.thy ===== *)
theory Http_Uring
  imports Uring_Codec Interleaving
begin

text \<open>
  The io_uring interface of the HTTP server, \<open>rko-util/src/http/uring.rs\<close>:
  the handler's queues, routes and pending requests, its eight commands, and
  the bridge that turns every HTTP request into an entry of a queue and waits
  for the reply.  A vector of the handler is the list of its elements; whether
  growing it succeeds is part of the environment of a command.
\<close>

section \<open>State\<close>

record buffered_request =
  bf_req_id :: "64 word"
  bf_data :: "char kvec"

record request_queue =
  q_id :: "32 word"
  q_max_pending :: "32 word"
  q_buffered :: "buffered_request list"

text \<open>A sender is named by the bridge call whose channel it belongs to.\<close>

record pending_request =
  pe_req_id :: "64 word"
  pe_response_tx :: nat

record uring_handler =
  u_queues :: "(32 word \<times> request_queue) list"
  u_routes :: "(string \<times> 32 word) list"
  u_pending :: "pending_request list"
  u_next_req_id :: "64 word"
  u_next_queue_id :: "32 word"
  u_server :: "socket_addr option"
  u_executor :: bool

definition uring_new :: uring_handler where
  "uring_new = \<lparr>u_queues = [], u_routes = [], u_pending = [], u_next_req_id = 1, u_next_queue_id = 1,
     u_server = None, u_executor = False\<rparr>"

text \<open>
  What a command meets outside the handler: whether a temporary buffer can be
  allocated and a vector can grow, how many bytes a copy from or to user space
  leaves behind, user memory, and how creating the executor, the bridge and the
  server ends.
\<close>

record uring_env =
  ev_room :: bool
  ev_grow :: bool
  ev_left :: nat
  ev_mem :: "64 word \<Rightarrow> char"
  ev_executor :: bool
  ev_bridge :: bool
  ev_server :: "error + unit"

definition user_slice :: "uring_env \<Rightarrow> 64 word \<Rightarrow> nat \<Rightarrow> string" where
  "user_slice ev a n = map (\<lambda>i. ev_mem ev (a + of_nat i)) [0..<n]"


section \<open>Command payloads\<close>

definition field_at :: "nat \<Rightarrow> nat \<Rightarrow> string \<Rightarrow> nat" where
  "field_at i n p = le_val (map of_char (take n (drop i p)))"

record cmd_server_addr =
  sa_addr :: "32 word"
  sa_port :: "16 word"

definition get_server_addr :: "string \<Rightarrow> cmd_server_addr" where
  "get_server_addr p = \<lparr>sa_addr = of_nat (field_at 0 4 p), sa_port = of_nat (field_at 4 2 p)\<rparr>"

definition get_max_pending :: "string \<Rightarrow> 32 word" where
  "get_max_pending p = of_nat (field_at 0 4 p)"

record cmd_url =
  cu_queue_id :: "32 word"
  cu_url_len :: "32 word"
  cu_url_addr :: "64 word"

definition get_url :: "string \<Rightarrow> cmd_url" where
  "get_url p = \<lparr>cu_queue_id = of_nat (field_at 0 4 p), cu_url_len = of_nat (field_at 4 4 p),
     cu_url_addr = of_nat (field_at 8 8 p)\<rparr>"

record cmd_recv =
  cr_queue_id :: "32 word"
  cr_buf_len :: "32 word"
  cr_buf_addr :: "64 word"

definition get_recv :: "string \<Rightarrow> cmd_recv" where
  "get_recv p = \<lparr>cr_queue_id = of_nat (field_at 0 4 p), cr_buf_len = of_nat (field_at 4 4 p),
     cr_buf_addr = of_nat (field_at 8 8 p)\<rparr>"

record cmd_send =
  cs_req_id :: "64 word"
  cs_status_code :: "16 word"
  cs_header_count :: "16 word"
  cs_body_len :: "32 word"
  cs_buf_addr :: "64 word"

definition get_send :: "string \<Rightarrow> cmd_send" where
  "get_send p = \<lparr>cs_req_id = of_nat (field_at 0 8 p), cs_status_code = of_nat (field_at 8 2 p),
     cs_header_count = of_nat (field_at 10 2 p), cs_body_len = of_nat (field_at 12 4 p),
     cs_buf_addr = of_nat (field_at 16 8 p)\<rparr>"


section \<open>Commands\<close>

definition from_be :: "nat \<Rightarrow> nat \<Rightarrow> nat" where
  "from_be n x = le_val (rev (le_digits n x))"

definition cmd_server_start :: "uring_env \<Rightarrow> cmd_server_addr \<Rightarrow> uring_handler \<Rightarrow> int \<times> uring_handler" where
  "cmd_server_start ev p u =
     (let raw = from_be 4 (unat (sa_addr p));
          addr = new_v4 (Ipv4Addr (of_nat (raw div 2 ^ 24)) (of_nat (raw div 2 ^ 16)) (of_nat (raw div 2 ^ 8)) (of_nat raw))
                   (of_nat (from_be 2 (unat (sa_port p))))
      in if \<not> ev_executor ev then (to_errno ENOMEM, u)
         else if \<not> ev_bridge ev then (to_errno ENOMEM, u)
         else case ev_server ev of
           Inl e \<Rightarrow> (to_errno e, u)
         | Inr _ \<Rightarrow> (0, u\<lparr>u_server := Some addr, u_executor := True\<rparr>))"

definition cmd_server_stop :: "uring_handler \<Rightarrow> int \<times> uring_handler" where
  "cmd_server_stop u = (0, u\<lparr>u_server := None, u_executor := False\<rparr>)"

definition cmd_create_queue :: "uring_env \<Rightarrow> 32 word \<Rightarrow> uring_handler \<Rightarrow> int \<times> uring_handler" where
  "cmd_create_queue ev wanted u =
     (let max_pending = (if wanted = 0 then 256 else wanted);
          i = u_next_queue_id u;
          u1 = u\<lparr>u_next_queue_id := i + 1\<rparr>;
          queue = \<lparr>q_id = i, q_max_pending = max_pending, q_buffered = []\<rparr>
      in if \<not> ev_grow ev then (to_errno ENOMEM, u1)
         else (sint i, u1\<lparr>u_queues := u_queues u1 @ [(i, queue)]\<rparr>))"

definition cmd_destroy_queue :: "32 word \<Rightarrow> uring_handler \<Rightarrow> int \<times> uring_handler" where
  "cmd_destroy_queue i u =
     (case find_index (\<lambda>(j, _). j = i) (u_queues u) of
        Some k \<Rightarrow> (0, u\<lparr>u_queues := remove_at k (u_queues u)\<rparr>)
      | None \<Rightarrow> (to_errno ENOENT, u))"

text \<open>The insertion sort of the routes: an entry moves up while it is longer than the one above.\<close>

fun sink :: "nat \<Rightarrow> (string \<times> 32 word) list \<Rightarrow> (string \<times> 32 word) list" where
  "sink 0 rs = rs"
| "sink (Suc j) rs =
     (if length (fst (rs ! j)) < length (fst (rs ! Suc j)) then sink j (rs[Suc j := rs ! j, j := rs ! Suc j]) else rs)"

definition sort_routes :: "(string \<times> 32 word) list \<Rightarrow> (string \<times> 32 word) list" where
  "sort_routes rs = fold sink [1..<length rs] rs"

definition cmd_add_url :: "uring_env \<Rightarrow> cmd_url \<Rightarrow> uring_handler \<Rightarrow> int \<times> uring_handler" where
  "cmd_add_url ev p u =
     (if \<not> list_ex (\<lambda>(j, _). j = cu_queue_id p) (u_queues u) then (to_errno ENOENT, u)
      else if \<not> ev_room ev then (to_errno ENOMEM, u)
      else let url = user_slice ev (cu_url_addr p) (unat (cu_url_len p)) in
        if list_ex (\<lambda>(pre, _). pre = url) (u_routes u) then (to_errno EEXIST, u)
        else if \<not> ev_grow ev then (to_errno ENOMEM, u)
        else (0, u\<lparr>u_routes := sort_routes (u_routes u @ [(url, cu_queue_id p)])\<rparr>))"

definition cmd_remove_url :: "uring_env \<Rightarrow> cmd_url \<Rightarrow> uring_handler \<Rightarrow> int \<times> uring_handler" where
  "cmd_remove_url ev p u =
     (let url = user_slice ev (cu_url_addr p) (unat (cu_url_len p)) in
      case find_index (\<lambda>(pre, _). pre = url) (u_routes u) of
        Some k \<Rightarrow> (0, u\<lparr>u_routes := remove_at k (u_routes u)\<rparr>)
      | None \<Rightarrow> (to_errno ENOENT, u))"

text \<open>
  Receiving: the result, the bytes that reach the user's buffer and the
  handler.  A request leaves its queue before it is copied.
\<close>

definition cmd_recv_request :: "uring_env \<Rightarrow> cmd_recv \<Rightarrow> uring_handler \<Rightarrow> int \<times> string \<times> uring_handler" where
  "cmd_recv_request ev p u =
     (case find_index (\<lambda>(j, _). j = cr_queue_id p) (u_queues u) of
        None \<Rightarrow> (to_errno ENOENT, [], u)
      | Some k \<Rightarrow>
          let (i, q) = u_queues u ! k in
          (case q_buffered q of
             [] \<Rightarrow> (to_errno EAGAIN, [], u)
           | b # rest \<Rightarrow>
               let data = kv_list (bf_data b);
                   copy_len = min (length data) (unat (cr_buf_len p));
                   u' = u\<lparr>u_queues := (u_queues u)[k := (i, q\<lparr>q_buffered := rest\<rparr>)]\<rparr>
               in if ev_left ev \<noteq> 0 then (to_errno EFAULT, take (copy_len - ev_left ev) data, u')
                  else (sint (of_nat copy_len :: 32 word), take copy_len data, u')))"

text \<open>A copy from user space into an initialised vector.\<close>

definition kv_fill :: "'a list \<Rightarrow> 'a kvec \<Rightarrow> 'a kvec" where
  "kv_fill xs v = v\<lparr>kv_ptr := map Some xs @ drop (length xs) (kv_ptr v)\<rparr>"

text \<open>
  Replying: the result, what becomes of a sender (the response it carries, or
  nothing when it is dropped) and the handler.
\<close>

definition response_body :: "http_alloc \<Rightarrow> uring_env \<Rightarrow> cmd_send \<Rightarrow> error + char kvec" where
  "response_body al ev p =
     (if cs_body_len p > 0 \<and> cs_buf_addr p \<noteq> 0 then
        (case with_capacity u8_ty (al_bytes al) (unat (cs_body_len p)) of
           Inl _ \<Rightarrow> Inl ENOMEM
         | Inr buf \<Rightarrow>
             let buf = snd (kv_resize u8_ty (al_bytes al) (unat (cs_body_len p)) (CHR 0x00) buf) in
             if ev_left ev \<noteq> 0 then Inl EFAULT
             else Inr (kv_fill (user_slice ev (cs_buf_addr p) (unat (cs_body_len p))) buf))
      else Inr kv_new)"

definition cmd_send_response ::
  "http_alloc \<Rightarrow> uring_env \<Rightarrow> cmd_send \<Rightarrow> uring_handler \<Rightarrow> int \<times> (nat \<times> response option) option \<times> uring_handler" where
  "cmd_send_response al ev p u =
     (case find_index (\<lambda>r. pe_req_id r = cs_req_id p) (u_pending u) of
        None \<Rightarrow> (to_errno ENOENT, None, u)
      | Some k \<Rightarrow>
          let sender = pe_response_tx (u_pending u ! k);
              u' = u\<lparr>u_pending := remove_at k (u_pending u)\<rparr>
          in case response_body al ev p of
               Inl e \<Rightarrow> (to_errno e, Some (sender, None), u')
             | Inr body \<Rightarrow>
                 (case sb_body body (sb_set_status (from_u16 (cs_status_code p)) sb_new) of
                    Inl _ \<Rightarrow> (to_errno ENOMEM, Some (sender, None), u')
                  | Inr response \<Rightarrow> (0, Some (sender, Some response), u')))"

definition url_matches :: "string \<Rightarrow> string \<Rightarrow> bool" where
  "url_matches path pre \<longleftrightarrow> pre = ''/*'' \<or> take (length pre) path = pre"

definition route :: "uring_handler \<Rightarrow> string \<Rightarrow> 32 word option" where
  "route u path = map_option snd (find (\<lambda>(pre, _). url_matches path pre) (u_routes u))"

definition alloc_req_id :: "uring_handler \<Rightarrow> 64 word \<times> uring_handler" where
  "alloc_req_id u = (u_next_req_id u, u\<lparr>u_next_req_id := u_next_req_id u + 1\<rparr>)"

text \<open>
  The two halves of \<open>enqueue_serialized\<close>, one per lock.  A sender that cannot
  be stored is dropped.
\<close>

definition enqueue_pending :: "uring_env \<Rightarrow> 64 word \<Rightarrow> nat \<Rightarrow> uring_handler \<Rightarrow> bool \<times> uring_handler" where
  "enqueue_pending ev req_id tx u =
     (if ev_grow ev then (True, u\<lparr>u_pending := u_pending u @ [\<lparr>pe_req_id = req_id, pe_response_tx = tx\<rparr>]\<rparr>)
      else (False, u))"

definition enqueue_buffered :: "uring_env \<Rightarrow> 32 word \<Rightarrow> 64 word \<Rightarrow> char kvec \<Rightarrow> uring_handler \<Rightarrow> uring_handler" where
  "enqueue_buffered ev queue_id req_id data u =
     (case find_index (\<lambda>(j, _). j = queue_id) (u_queues u) of
        None \<Rightarrow> u
      | Some k \<Rightarrow>
          let (i, q) = u_queues u ! k in
          if (of_nat (length (q_buffered q)) :: 32 word) < q_max_pending q \<and> ev_grow ev
          then u\<lparr>u_queues := (u_queues u)[k := (i, q\<lparr>q_buffered := q_buffered q @ [\<lparr>bf_req_id = req_id, bf_data = data\<rparr>]\<rparr>)]\<rparr>
          else u)"

datatype cmd_effect = NoEffect | Wrote string | Replied nat "response option"

definition dispatch ::
  "http_alloc \<Rightarrow> uring_env \<Rightarrow> 32 word \<Rightarrow> string \<Rightarrow> uring_handler \<Rightarrow> int \<times> cmd_effect \<times> uring_handler" where
  "dispatch al ev opc p u =
     (if opc = 0 then (case cmd_server_start ev (get_server_addr p) u of (r, u') \<Rightarrow> (r, NoEffect, u'))
      else if opc = 1 then (case cmd_server_stop u of (r, u') \<Rightarrow> (r, NoEffect, u'))
      else if opc = 2 then (case cmd_create_queue ev (get_max_pending p) u of (r, u') \<Rightarrow> (r, NoEffect, u'))
      else if opc = 3 then (case cmd_destroy_queue (of_nat (field_at 0 4 p)) u of (r, u') \<Rightarrow> (r, NoEffect, u'))
      else if opc = 4 then (case cmd_add_url ev (get_url p) u of (r, u') \<Rightarrow> (r, NoEffect, u'))
      else if opc = 5 then (case cmd_remove_url ev (get_url p) u of (r, u') \<Rightarrow> (r, NoEffect, u'))
      else if opc = 6 then (case cmd_recv_request ev (get_recv p) u of (r, bs, u') \<Rightarrow> (r, Wrote bs, u'))
      else if opc = 7 then (case cmd_send_response al ev (get_send p) u of
        (r, None, u') \<Rightarrow> (r, NoEffect, u') | (r, Some (t, x), u') \<Rightarrow> (r, Replied t x, u'))
      else (to_errno EINVAL, NoEffect, u))"


section \<open>The bridge\<close>

datatype bridge_pc =
    BCalled
  | BRoute "64 word"
  | BSerialize "64 word" "32 word option"
  | BPoll "64 word" "32 word option" "error + char kvec"
  | BEnqueue "64 word" "32 word" "char kvec"
  | BBuffer "64 word" "32 word" "char kvec"
  | BWait "64 word"
  | BDone "64 word" response
  | BDropped "64 word"

text \<open>The one-shot channel of a call, as its two halves see it.\<close>

datatype chan = ChNone | ChOpen | ChSent response | ChClosed

record bridge =
  bg_req :: request
  bg_pc :: bridge_pc
  bg_chan :: chan

definition empty_response :: "status_code \<Rightarrow> response" where
  "empty_response s = \<lparr>rs_status = s, rs_version = Http11, rs_headers = headers_new, rs_body = kv_new\<rparr>"

text \<open>
  One step of the \<open>t\<close>-th call of \<open>handle\<close>: the three statements before the
  future, its first poll up to each lock, and the wait for the reply.
\<close>

definition bridge_step :: "http_alloc \<Rightarrow> uring_env \<Rightarrow> nat \<Rightarrow> bridge \<Rightarrow> uring_handler \<Rightarrow> (bridge \<times> uring_handler) option" where
  "bridge_step al ev t b u = (case bg_pc b of
     BCalled \<Rightarrow> (case alloc_req_id u of (i, u') \<Rightarrow> Some (b\<lparr>bg_pc := BRoute i\<rparr>, u'))
   | BRoute i \<Rightarrow> Some (b\<lparr>bg_pc := BSerialize i (route u (kv_list (rq_path (bg_req b))))\<rparr>, u)
   | BSerialize i q \<Rightarrow> Some (b\<lparr>bg_pc := BPoll i q (serialize_request al i (bg_req b))\<rparr>, u)
   | BPoll i None _ \<Rightarrow> Some (b\<lparr>bg_pc := BDone i (empty_response NOT_FOUND)\<rparr>, u)
   | BPoll i (Some q) (Inl _) \<Rightarrow> Some (b\<lparr>bg_pc := BDone i (empty_response INTERNAL_SERVER_ERROR)\<rparr>, u)
   | BPoll i (Some q) (Inr data) \<Rightarrow>
       Some (if ev_room ev then b\<lparr>bg_pc := BEnqueue i q data, bg_chan := ChOpen\<rparr>
             else b\<lparr>bg_pc := BDone i (empty_response INTERNAL_SERVER_ERROR)\<rparr>, u)
   | BEnqueue i q data \<Rightarrow>
       (case enqueue_pending ev i t u of (stored, u') \<Rightarrow>
          Some (b\<lparr>bg_pc := BBuffer i q data, bg_chan := if stored then bg_chan b else ChClosed\<rparr>, u'))
   | BBuffer i q data \<Rightarrow> Some (b\<lparr>bg_pc := BWait i\<rparr>, enqueue_buffered ev q i data u)
   | BWait i \<Rightarrow> (case bg_chan b of
         ChSent r \<Rightarrow> Some (b\<lparr>bg_pc := BDone i r\<rparr>, u)
       | ChClosed \<Rightarrow> Some (b\<lparr>bg_pc := BDone i (empty_response GATEWAY_TIMEOUT)\<rparr>, u)
       | _ \<Rightarrow> None)
   | _ \<Rightarrow> None)"

record world =
  w_uring :: uring_handler
  w_calls :: "bridge list"

definition world_new :: world where
  "world_new = \<lparr>w_uring = uring_new, w_calls = []\<rparr>"

datatype uring_label = Arrive request | Call nat uring_env | DropCall nat | Cmd uring_env "32 word" string

definition deliver :: "nat \<Rightarrow> response option \<Rightarrow> bridge list \<Rightarrow> bridge list" where
  "deliver t x bs = (if t < length bs
     then bs[t := (bs ! t)\<lparr>bg_chan := case x of Some r \<Rightarrow> ChSent r | None \<Rightarrow> ChClosed\<rparr>] else bs)"

fun drop_call :: "bridge_pc \<Rightarrow> bridge_pc option" where
  "drop_call (BPoll i _ _) = Some (BDropped i)"
| "drop_call (BWait i) = Some (BDropped i)"
| "drop_call _ = None"

fun world_step :: "http_alloc \<Rightarrow> world \<Rightarrow> uring_label \<Rightarrow> world option" where
  "world_step al w (Arrive req) = Some (w\<lparr>w_calls := w_calls w @ [\<lparr>bg_req = req, bg_pc = BCalled, bg_chan = ChNone\<rparr>]\<rparr>)"
| "world_step al w (Call t ev) =
     (if t < length (w_calls w)
      then map_option (\<lambda>(b, u). w\<lparr>w_uring := u, w_calls := (w_calls w)[t := b]\<rparr>)
             (bridge_step al ev t (w_calls w ! t) (w_uring w))
      else None)"
| "world_step al w (DropCall t) =
     (if t < length (w_calls w)
      then map_option (\<lambda>pc. w\<lparr>w_calls := (w_calls w)[t := (w_calls w ! t)\<lparr>bg_pc := pc\<rparr>]\<rparr>) (drop_call (bg_pc (w_calls w ! t)))
      else None)"
| "world_step al w (Cmd ev opc p) =
     (case dispatch al ev opc p (w_uring w) of (_, e, u) \<Rightarrow>
        Some (w\<lparr>w_uring := u, w_calls := case e of Replied t x \<Rightarrow> deliver t x (w_calls w) | _ \<Rightarrow> w_calls w\<rparr>))"

section \<open>Routes\<close>

abbreviation longer_first :: "(string \<times> 32 word) list \<Rightarrow> bool" where
  "longer_first \<equiv> sorted_wrt (\<lambda>a b. length (fst b) \<le> length (fst a))"

lemma sink_insert:
  assumes "longer_first rs"
  shows "sink (length rs) (rs @ r # rest) =
    takeWhile (\<lambda>a. length (fst r) \<le> length (fst a)) rs @ r # dropWhile (\<lambda>a. length (fst r) \<le> length (fst a)) rs @ rest"
  using assms
proof (induction rs arbitrary: rest rule: rev_induct)
  case (snoc a rs)
  have swap: "(rs @ a # r # rest)[Suc (length rs) := a, length rs := r] = rs @ r # a # rest"
    by (simp add: list_update_append)
  show ?case
  proof (cases "length (fst a) < length (fst r)")
    case True
    then show ?thesis using snoc swap
      by (simp add: nth_append takeWhile_append dropWhile_append sorted_wrt_append)
  next
    case False
    then have "\<forall>b \<in> set (rs @ [a]). length (fst r) \<le> length (fst b)"
      using snoc.prems by (auto simp: sorted_wrt_append)
    then show ?thesis using False by (simp add: nth_append takeWhile_append2 dropWhile_append2 takeWhile_eq_all_conv [THEN iffD2])
  qed
qed simp

lemma sorted_split:
  assumes "longer_first rs"
  obtains as bs where "rs = as @ bs" "takeWhile (\<lambda>a. n \<le> length (fst a)) rs = as"
    "dropWhile (\<lambda>a. n \<le> length (fst a)) rs = bs"
    "\<forall>a \<in> set as. n \<le> length (fst a)" "\<forall>b \<in> set bs. length (fst b) < n"
proof -
  let ?P = "\<lambda>a. n \<le> length (fst a)"
  obtain as bs where ab: "takeWhile ?P rs = as" "dropWhile ?P rs = bs" by blast
  then have rs: "rs = as @ bs" by (metis takeWhile_dropWhile_id)
  have "\<forall>b \<in> set bs. length (fst b) < n"
  proof (cases bs)
    case (Cons c cs)
    then have "\<not> ?P c" using hd_dropWhile [of ?P rs] ab(2) by simp
    moreover have "longer_first (c # cs)" using assms rs Cons by (simp add: sorted_wrt_append)
    ultimately show ?thesis using Cons by auto
  qed simp
  then show ?thesis using that [OF rs ab] ab(1) by (auto dest: set_takeWhileD)
qed

lemma sink_prefix:
  assumes "k < length rs" "longer_first (take k rs)"
  shows "mset (sink k rs) = mset rs \<and> longer_first (take (Suc k) (sink k rs))"
proof -
  let ?x = "rs ! k" and ?rest = "drop (Suc k) rs"
  have rs: "take k rs @ ?x # ?rest = rs" using assms(1) by (simp add: id_take_nth_drop [symmetric])
  obtain as bs where ab: "take k rs = as @ bs" "takeWhile (\<lambda>a. length (fst ?x) \<le> length (fst a)) (take k rs) = as"
      "dropWhile (\<lambda>a. length (fst ?x) \<le> length (fst a)) (take k rs) = bs"
      "\<forall>a \<in> set as. length (fst ?x) \<le> length (fst a)" "\<forall>b \<in> set bs. length (fst b) < length (fst ?x)"
    using sorted_split [OF assms(2)] .
  have eq: "sink k rs = as @ ?x # bs @ ?rest"
    using sink_insert [OF assms(2), of ?x ?rest] assms(1) unfolding rs ab(2,3) by simp
  have "mset rs = mset (take k rs) + mset (?x # ?rest)" by (metis mset_append rs)
  then have m: "mset (sink k rs) = mset rs" unfolding eq ab(1) by simp
  have "longer_first (as @ ?x # bs)" using assms(2) ab(4,5) unfolding ab(1) by (auto simp: sorted_wrt_append)
  moreover have "length (as @ ?x # bs) = Suc k"
    using arg_cong [OF ab(1), of length] assms(1) by simp
  then have "take (Suc k) ((as @ ?x # bs) @ ?rest) = as @ ?x # bs" by (metis append_eq_conv_conj)
  ultimately show ?thesis using m unfolding eq by simp
qed

lemma sort_routes_upto:
  "k \<le> length rs \<Longrightarrow> mset (fold sink [1..<k] rs) = mset rs \<and> longer_first (take k (fold sink [1..<k] rs))"
proof (induction k)
  case (Suc k)
  let ?s = "fold sink [1..<k] rs"
  show ?case
  proof (cases k)
    case 0
    then show ?thesis by (cases rs) auto
  next
    case (Suc j)
    have "length ?s = length rs" using Suc.IH Suc.prems by (metis Suc_leD mset_eq_length)
    then have "mset (sink k ?s) = mset ?s \<and> longer_first (take (Suc k) (sink k ?s))"
      using Suc.IH Suc.prems by (intro sink_prefix) auto
    moreover have "fold sink [1..<Suc k] rs = sink k ?s" using Suc by simp
    ultimately show ?thesis using Suc.IH Suc.prems by auto
  qed
qed simp

lemma sort_routes_sorts: "mset (sort_routes rs) = mset rs" "longer_first (sort_routes rs)"
proof -
  have *: "mset (sort_routes rs) = mset rs \<and> longer_first (take (length rs) (sort_routes rs))"
    unfolding sort_routes_def by (rule sort_routes_upto) simp
  then show "mset (sort_routes rs) = mset rs" ..
  then have "length (sort_routes rs) = length rs" by (rule mset_eq_length)
  then show "longer_first (sort_routes rs)" using * by simp
qed

definition routes_ok :: "uring_handler \<Rightarrow> bool" where
  "routes_ok u \<longleftrightarrow> longer_first (u_routes u) \<and> distinct (map fst (u_routes u))"

text \<open>The registered prefixes, as a map.\<close>

definition route_map :: "uring_handler \<Rightarrow> string \<Rightarrow> 32 word option" where
  "route_map u = map_of (u_routes u)"

lemma map_of_mset: "mset xs = mset ys \<Longrightarrow> distinct (map fst xs) \<Longrightarrow> map_of xs = map_of ys"
  using map_of_inject_set [of xs ys] by (metis mset_eq_imp_distinct_iff mset_eq_setD mset_map)

lemma longest_unique_find:
  assumes "longer_first rs" "find (\<lambda>(pre, _). P pre) rs = Some (p, q)" "(p', q') \<in> set rs" "P p'"
  shows "length p' \<le> length p"
  using assms
proof (induction rs)
  case (Cons r rs)
  then show ?case by (cases r) (auto split: if_splits)
qed simp

lemma errno_values:
  "to_errno ENOENT = - 2" "to_errno EAGAIN = - 11" "to_errno ENOMEM = - 12" "to_errno EFAULT = - 14"
  "to_errno EEXIST = - 17" "to_errno EINVAL = - 22"
  by (simp_all add: errno_defs)

lemma add_url_cases:
  fixes ev p u
  defines "url \<equiv> user_slice ev (cu_url_addr p) (unat (cu_url_len p))"
  obtains (bad) r where "cmd_add_url ev p u = (r, u)" "r \<noteq> 0"
  | (good) "cmd_add_url ev p u = (0, u\<lparr>u_routes := sort_routes (u_routes u @ [(url, cu_queue_id p)])\<rparr>)"
      "url \<notin> fst ` set (u_routes u)"
proof (cases "fst (cmd_add_url ev p u) = 0")
  case True
  have "\<not> list_ex (\<lambda>(pre, _). pre = url) (u_routes u) \<Longrightarrow> url \<notin> fst ` set (u_routes u)"
    by (auto simp: list_ex_iff)
  then show ?thesis using good True by (simp add: cmd_add_url_def Let_def errno_values flip: url_def split: if_splits)
next
  case False
  then show ?thesis using bad [of "fst (cmd_add_url ev p u)"]
    by (simp add: cmd_add_url_def Let_def errno_values flip: url_def split: if_splits)
qed

lemma add_url_routes:
  fixes ev p
  defines "url \<equiv> user_slice ev (cu_url_addr p) (unat (cu_url_len p))"
  assumes "routes_ok u" "cmd_add_url ev p u = (r, u')"
  shows "routes_ok u' \<and> (r = 0 \<longrightarrow> route_map u url = None \<and> route_map u' = (route_map u)(url \<mapsto> cu_queue_id p))
    \<and> (r \<noteq> 0 \<longrightarrow> u' = u)"
proof (cases rule: add_url_cases [of ev p u])
  case (bad r)
  then show ?thesis using assms(2,3) by simp
next
  case good
  let ?rs = "u_routes u @ [(url, cu_queue_id p)]"
  have new: "r = 0" "u' = u\<lparr>u_routes := sort_routes ?rs\<rparr>" "url \<notin> fst ` set (u_routes u)"
    using good assms(3) by (simp_all add: url_def)
  then have d: "distinct (map fst ?rs)" using assms(2) by (simp add: routes_ok_def)
  have "mset (map fst (sort_routes ?rs)) = mset (map fst ?rs)" by (simp add: sort_routes_sorts(1))
  then have d': "distinct (map fst (sort_routes ?rs))" using d mset_eq_imp_distinct_iff by blast
  have "map_of (sort_routes ?rs) = map_of ?rs" using map_of_mset [OF sort_routes_sorts(1) d'] .
  moreover have "map_of ?rs = (map_of (u_routes u))(url \<mapsto> cu_queue_id p)"
    using new(3) by (auto simp: map_add_def fun_eq_iff map_of_eq_None_iff [symmetric] split: option.splits)
  ultimately show ?thesis using new d' sort_routes_sorts(2)
    by (simp add: routes_ok_def route_map_def map_of_eq_None_iff)
qed

lemma map_of_remove_at:
  assumes "distinct (map fst rs)" "k < length rs" "fst (rs ! k) = a"
  shows "map_of (remove_at k rs) = (map_of rs)(a := None)"
  using assms
proof (induction k arbitrary: rs)
  case 0
  then show ?case by (cases rs) (auto simp: fun_eq_iff map_of_eq_None_iff)
next
  case (Suc k)
  then obtain r rs' where "rs = r # rs'" by (cases rs) auto
  moreover have "fst (rs' ! k) \<in> fst ` set rs'" using calculation Suc.prems(2) by simp
  ultimately show ?case using Suc.IH [of rs'] Suc.prems by (cases r) (auto simp: fun_eq_iff)
qed

lemma sorted_wrt_remove_at: "sorted_wrt P xs \<Longrightarrow> sorted_wrt P (remove_at k xs)"
proof (induction k arbitrary: xs)
  case 0
  then show ?case by (cases xs) auto
next
  case (Suc k)
  then show ?case by (cases xs) (auto simp: remove_at_def [of _ "[]"] dest: subsetD [OF set_remove_at])
qed

lemma remove_at_map: "map f (remove_at k xs) = remove_at k (map f xs)"
  by (simp add: remove_at_def take_map drop_map)

lemma distinct_remove_at: "distinct xs \<Longrightarrow> distinct (remove_at k xs)"
  by (auto simp: remove_at_def set_take_disj_set_drop_if_distinct)

lemma remove_url_routes:
  fixes ev p
  defines "url \<equiv> user_slice ev (cu_url_addr p) (unat (cu_url_len p))"
  assumes "routes_ok u" "cmd_remove_url ev p u = (r, u')"
  shows "routes_ok u' \<and> (r = 0 \<longrightarrow> route_map u url \<noteq> None \<and> route_map u' = (route_map u)(url := None))
    \<and> (r \<noteq> 0 \<longrightarrow> route_map u url = None \<and> u' = u)"
proof (cases "find_index (\<lambda>(pre, _). pre = url) (u_routes u)")
  case None
  then have "url \<notin> fst ` set (u_routes u)" by (auto simp: find_index_None)
  then show ?thesis using assms(2,3) None
    by (simp add: cmd_remove_url_def errno_values route_map_def map_of_eq_None_iff flip: url_def)
next
  case (Some k)
  then have k: "k < length (u_routes u)" "fst (u_routes u ! k) = url" by (auto simp: find_index_Some split: prod.splits)
  then have "url \<in> fst ` set (u_routes u)" by (metis image_eqI nth_mem)
  moreover have "r = 0" "u' = u\<lparr>u_routes := remove_at k (u_routes u)\<rparr>"
    using assms(3) Some by (simp_all add: cmd_remove_url_def flip: url_def)
  ultimately show ?thesis using assms(2) map_of_remove_at [OF _ k]
    by (simp add: routes_ok_def route_map_def sorted_wrt_remove_at remove_at_map distinct_remove_at map_of_eq_None_iff)
qed

lemma dispatch_cases:
  assumes "dispatch al ev opc p u = (r, e, u')"
  obtains (start) "cmd_server_start ev (get_server_addr p) u = (r, u')" "e = NoEffect"
  | (stop) "cmd_server_stop u = (r, u')" "e = NoEffect"
  | (create) "cmd_create_queue ev (get_max_pending p) u = (r, u')" "e = NoEffect"
  | (destroy) "cmd_destroy_queue (of_nat (field_at 0 4 p)) u = (r, u')" "e = NoEffect"
  | (add) "cmd_add_url ev (get_url p) u = (r, u')" "e = NoEffect"
  | (remove) "cmd_remove_url ev (get_url p) u = (r, u')" "e = NoEffect"
  | (recv) bs where "cmd_recv_request ev (get_recv p) u = (r, bs, u')" "e = Wrote bs"
  | (send) "cmd_send_response al ev (get_send p) u = (r, None, u')" "e = NoEffect"
  | (reply) t x where "cmd_send_response al ev (get_send p) u = (r, Some (t, x), u')" "e = Replied t x"
  | (bad) "u' = u" "e = NoEffect"
  using assms unfolding dispatch_def
  by (auto split: if_splits prod.splits option.splits)

lemma commands_keep:
  "cmd_server_start ev sa u = (r, u') \<Longrightarrow> u_routes u' = u_routes u \<and> u_pending u' = u_pending u \<and> u_queues u' = u_queues u \<and> u_next_req_id u' = u_next_req_id u"
  "cmd_server_stop u = (r, u') \<Longrightarrow> u_routes u' = u_routes u \<and> u_pending u' = u_pending u \<and> u_queues u' = u_queues u \<and> u_next_req_id u' = u_next_req_id u"
  "cmd_create_queue ev m u = (r, u') \<Longrightarrow> u_routes u' = u_routes u \<and> u_pending u' = u_pending u \<and> u_next_req_id u' = u_next_req_id u"
  "cmd_destroy_queue i u = (r, u') \<Longrightarrow> u_routes u' = u_routes u \<and> u_pending u' = u_pending u \<and> u_next_req_id u' = u_next_req_id u"
  "cmd_add_url ev cu u = (r, u') \<Longrightarrow> u_queues u' = u_queues u \<and> u_pending u' = u_pending u \<and> u_next_req_id u' = u_next_req_id u"
  "cmd_remove_url ev cu u = (r, u') \<Longrightarrow> u_queues u' = u_queues u \<and> u_pending u' = u_pending u \<and> u_next_req_id u' = u_next_req_id u"
  "cmd_recv_request ev cr u = (r, bs, u') \<Longrightarrow> u_routes u' = u_routes u \<and> u_pending u' = u_pending u \<and> u_next_req_id u' = u_next_req_id u"
  "cmd_send_response al ev cs u = (r, x, u') \<Longrightarrow> u_routes u' = u_routes u \<and> u_queues u' = u_queues u \<and> u_next_req_id u' = u_next_req_id u"
  by (auto simp: cmd_server_start_def cmd_server_stop_def cmd_create_queue_def cmd_destroy_queue_def cmd_add_url_def
      cmd_remove_url_def cmd_recv_request_def cmd_send_response_def Let_def
      split: if_splits option.splits sum.splits prod.splits list.splits)

lemma dispatch_routes:
  assumes "routes_ok u" "dispatch al ev opc p u = (r, e, u')"
  shows "routes_ok u'"
  using assms(2)
proof (cases rule: dispatch_cases)
  case add
  then show ?thesis using add_url_routes [OF assms(1) add(1)] by simp
next
  case remove
  then show ?thesis using remove_url_routes [OF assms(1) remove(1)] by simp
qed (use assms(1) in \<open>auto dest!: commands_keep simp: routes_ok_def\<close>)

lemma bridge_routes: "bridge_step al ev t b u = Some (b', u') \<Longrightarrow> routes_ok u' \<longleftrightarrow> routes_ok u"
  by (auto simp: bridge_step_def alloc_req_id_def enqueue_pending_def enqueue_buffered_def routes_ok_def
      split: bridge_pc.splits option.splits sum.splits chan.splits if_splits prod.splits)

lemma world_routes: "routes_ok (w_uring w) \<Longrightarrow> world_step al w l = Some w' \<Longrightarrow> routes_ok (w_uring w')"
  by (cases l) (auto split: if_splits prod.splits dest: bridge_routes dispatch_routes)

interpretation uro: kept "world_step al" world_new "\<lambda>w. routes_ok (w_uring w)" for al
  by unfold_locales (simp add: world_new_def uring_new_def routes_ok_def, fact world_routes)

text \<open>A registered prefix that matches, and is as long as any other that does.\<close>

definition longest_match :: "(string \<Rightarrow> 32 word option) \<Rightarrow> string \<Rightarrow> string \<Rightarrow> bool" where
  "longest_match m path pre \<longleftrightarrow> pre \<in> dom m \<and> url_matches path pre
     \<and> (\<forall>pre' \<in> dom m. url_matches path pre' \<longrightarrow> length pre' \<le> length pre)"

lemma route_longest:
  assumes "routes_ok u"
  shows "route u path = None \<longleftrightarrow> (\<forall>pre \<in> dom (route_map u). \<not> url_matches path pre)"
    "route u path = Some q \<Longrightarrow> \<exists>pre. longest_match (route_map u) path pre \<and> route_map u pre = Some q"
proof -
  have map: "route_map u pre = Some q' \<longleftrightarrow> (pre, q') \<in> set (u_routes u)" for pre q'
    using assms by (simp add: routes_ok_def route_map_def map_of_eq_Some_iff)
  show "route u path = None \<longleftrightarrow> (\<forall>pre \<in> dom (route_map u). \<not> url_matches path pre)"
    by (fastforce simp: route_def find_None_iff dom_def map)
  assume "route u path = Some q"
  then obtain pre where f: "find (\<lambda>(pre, _). url_matches path pre) (u_routes u) = Some (pre, q)"
    by (auto simp: route_def)
  then have "(pre, q) \<in> set (u_routes u)" "url_matches path pre" by (auto simp: find_Some_iff) (metis nth_mem)
  moreover have "length pre' \<le> length pre" if "(pre', q') \<in> set (u_routes u)" "url_matches path pre'" for pre' q'
    using longest_unique_find [OF _ f that] assms by (simp add: routes_ok_def)
  ultimately show "\<exists>pre. longest_match (route_map u) path pre \<and> route_map u pre = Some q"
    unfolding longest_match_def dom_def by (auto simp: map intro!: exI [of _ pre])
qed

text \<open>
  C16. The vector of routes is a map from prefixes to queues.  After any
  interleaving of commands and requests, a path is routed to a queue that is
  registered for a longest matching prefix, the wildcard counting as two
  bytes, and to none exactly when no prefix matches; ADD_URL returns 0 exactly
  when it adds the new prefix with its queue, and changes nothing otherwise;
  REMOVE_URL returns 0 exactly when it removes a registered prefix.
\<close>

theorem uring_routes_refine:
  assumes "reachable (world_step al) world_new w"
  defines "u \<equiv> w_uring w"
  shows "(route u path = None \<longleftrightarrow> (\<forall>pre \<in> dom (route_map u). \<not> url_matches path pre))
    \<and> (\<forall>q. route u path = Some q \<longrightarrow> (\<exists>pre. longest_match (route_map u) path pre \<and> route_map u pre = Some q))
    \<and> (\<forall>r u'. cmd_add_url ev p u = (r, u') \<longrightarrow>
         (if r = 0 then route_map u (user_slice ev (cu_url_addr p) (unat (cu_url_len p))) = None
            \<and> route_map u' = (route_map u)(user_slice ev (cu_url_addr p) (unat (cu_url_len p)) \<mapsto> cu_queue_id p)
          else u' = u))
    \<and> (\<forall>r u'. cmd_remove_url ev p u = (r, u') \<longrightarrow>
         (if r = 0 then route_map u (user_slice ev (cu_url_addr p) (unat (cu_url_len p))) \<noteq> None
            \<and> route_map u' = (route_map u)(user_slice ev (cu_url_addr p) (unat (cu_url_len p)) := None)
          else route_map u (user_slice ev (cu_url_addr p) (unat (cu_url_len p))) = None \<and> u' = u))"
proof -
  have ok: "routes_ok u" unfolding u_def using uro.reached [OF assms(1)] .
  show ?thesis
    using route_longest [OF ok] add_url_routes [OF ok] remove_url_routes [OF ok] by (auto split: if_splits)
qed


section \<open>Requests and replies\<close>

fun pc_id :: "bridge_pc \<Rightarrow> 64 word option" where
  "pc_id BCalled = None"
| "pc_id (BRoute i) = Some i"
| "pc_id (BSerialize i q) = Some i"
| "pc_id (BPoll i q s) = Some i"
| "pc_id (BEnqueue i q d) = Some i"
| "pc_id (BBuffer i q d) = Some i"
| "pc_id (BWait i) = Some i"
| "pc_id (BDone i r) = Some i"
| "pc_id (BDropped i) = Some i"

abbreviation call_id :: "bridge \<Rightarrow> 64 word option" where
  "call_id b \<equiv> pc_id (bg_pc b)"

text \<open>Whether a call may have put its request into a queue.\<close>

fun pc_past :: "bridge_pc \<Rightarrow> bool" where
  "pc_past (BWait i) = True"
| "pc_past (BDone i r) = True"
| "pc_past (BDropped i) = True"
| "pc_past _ = False"

text \<open>What a call has computed so far, and how far its channel is.\<close>

fun pc_ok :: "http_alloc \<Rightarrow> request \<Rightarrow> chan \<Rightarrow> bridge_pc \<Rightarrow> bool" where
  "pc_ok al req c BCalled \<longleftrightarrow> c = ChNone"
| "pc_ok al req c (BRoute i) \<longleftrightarrow> c = ChNone"
| "pc_ok al req c (BSerialize i q) \<longleftrightarrow> c = ChNone"
| "pc_ok al req c (BPoll i q s) \<longleftrightarrow> c = ChNone \<and> s = serialize_request al i req"
| "pc_ok al req c (BEnqueue i q d) \<longleftrightarrow> c = ChOpen \<and> serialize_request al i req = Inr d"
| "pc_ok al req c (BBuffer i q d) \<longleftrightarrow> c \<noteq> ChNone \<and> serialize_request al i req = Inr d"
| "pc_ok al req c (BWait i) \<longleftrightarrow> c \<noteq> ChNone"
| "pc_ok al req c (BDone i r) \<longleftrightarrow> c \<noteq> ChOpen"
| "pc_ok al req c (BDropped i) \<longleftrightarrow> True"

fun enqueuing :: "bridge_pc \<Rightarrow> bool" where
  "enqueuing (BEnqueue i q d) = True"
| "enqueuing _ = False"

text \<open>The calls whose sender is in the vector of pending requests.\<close>

definition held :: "bridge \<Rightarrow> bool" where
  "held b \<longleftrightarrow> bg_chan b = ChOpen \<and> \<not> enqueuing (bg_pc b)"

definition calls_ok :: "http_alloc \<Rightarrow> bridge list \<Rightarrow> bool" where
  "calls_ok al bs \<longleftrightarrow> (\<forall>b \<in> set bs. pc_ok al (bg_req b) (bg_chan b) (bg_pc b))"

definition senders_ok :: "bridge list \<Rightarrow> pending_request list \<Rightarrow> bool" where
  "senders_ok bs ps \<longleftrightarrow> distinct (map pe_response_tx ps)
     \<and> pe_response_tx ` set ps = {t. t < length bs \<and> held (bs ! t)}
     \<and> (\<forall>p \<in> set ps. call_id (bs ! pe_response_tx p) = Some (pe_req_id p))"

definition ids_ok :: "64 word option list \<Rightarrow> 64 word \<Rightarrow> bool" where
  "ids_ok xs n \<longleftrightarrow> (let k = length (filter (\<lambda>x. x \<noteq> None) xs) in
     n = of_nat (Suc k)
     \<and> (\<forall>t < length xs. \<forall>i. xs ! t = Some i \<longrightarrow> 0 < unat i \<and> unat i \<le> k)
     \<and> (\<forall>t < length xs. \<forall>t' < length xs. \<forall>i. xs ! t = Some i \<longrightarrow> xs ! t' = Some i \<longrightarrow> t = t'))"

definition queue_ok :: "http_alloc \<Rightarrow> bridge list \<Rightarrow> request_queue \<Rightarrow> bool" where
  "queue_ok al bs q \<longleftrightarrow> length (q_buffered q) \<le> unat (q_max_pending q)
     \<and> (\<forall>b \<in> set (q_buffered q). \<exists>c \<in> set bs. call_id c = Some (bf_req_id b) \<and> pc_past (bg_pc c)
          \<and> serialize_request al (bf_req_id b) (bg_req c) = Inr (bf_data b))"

definition queued :: "uring_handler \<Rightarrow> 64 word list" where
  "queued u = concat (map (\<lambda>(_, q). map bf_req_id (q_buffered q)) (u_queues u))"

definition queues_ok :: "http_alloc \<Rightarrow> bridge list \<Rightarrow> uring_handler \<Rightarrow> bool" where
  "queues_ok al bs u \<longleftrightarrow> (\<forall>(_, q) \<in> set (u_queues u). queue_ok al bs q)"

definition world_ok :: "http_alloc \<Rightarrow> world \<Rightarrow> bool" where
  "world_ok al w \<longleftrightarrow> calls_ok al (w_calls w) \<and> senders_ok (w_calls w) (u_pending (w_uring w))
     \<and> queues_ok al (w_calls w) (w_uring w)
     \<and> (length (w_calls w) < 2 ^ 64 \<longrightarrow> ids_ok (map pc_id (map bg_pc (w_calls w))) (u_next_req_id (w_uring w)) \<and> distinct (queued (w_uring w)))"

text \<open>A step of a call keeps its identity and goes forward.\<close>

lemma bridge_step_call:
  assumes "pc_ok al (bg_req b) (bg_chan b) (bg_pc b)" "bridge_step al ev t b u = Some (b', u')"
  shows "bg_req b' = bg_req b" "pc_ok al (bg_req b') (bg_chan b') (bg_pc b')"
    "pc_past (bg_pc b) \<Longrightarrow> pc_past (bg_pc b')" "call_id b \<noteq> None \<Longrightarrow> call_id b' = call_id b"
  using assms
  by (auto simp: bridge_step_def alloc_req_id_def enqueue_pending_def
      split: bridge_pc.splits option.splits sum.splits chan.splits if_splits prod.splits)

definition forward :: "bridge \<Rightarrow> bridge \<Rightarrow> bool" where
  "forward b b' \<longleftrightarrow> bg_req b' = bg_req b \<and> (pc_past (bg_pc b) \<longrightarrow> pc_past (bg_pc b'))
     \<and> (call_id b \<noteq> None \<longrightarrow> call_id b' = call_id b)"

lemma forward_refl [simp]: "forward b b"
  by (simp add: forward_def)

lemma forward_keeps:
  "forward c c' \<Longrightarrow> call_id c = Some i \<Longrightarrow> pc_past (bg_pc c) \<Longrightarrow> serialize_request al i (bg_req c) = Inr d \<Longrightarrow>
     call_id c' = Some i \<and> pc_past (bg_pc c') \<and> serialize_request al i (bg_req c') = Inr d"
  by (simp add: forward_def)

lemma calls_ok_update: "calls_ok al bs \<Longrightarrow> pc_ok al (bg_req b) (bg_chan b) (bg_pc b) \<Longrightarrow> calls_ok al (bs[t := b])"
  unfolding calls_ok_def by (blast dest: subsetD [OF set_update_subset_insert])

lemma senders_ok_update:
  assumes "senders_ok bs ps" "t < length bs" "held b \<longleftrightarrow> held (bs ! t)" "forward (bs ! t) b"
  shows "senders_ok (bs[t := b]) ps"
proof -
  have "{s. s < length (bs[t := b]) \<and> held (bs[t := b] ! s)} = {s. s < length bs \<and> held (bs ! s)}"
    using assms(2,3) by (auto simp: nth_list_update)
  moreover have "call_id (bs[t := b] ! pe_response_tx p) = Some (pe_req_id p)" if "p \<in> set ps" for p
  proof -
    have "call_id (bs ! pe_response_tx p) = Some (pe_req_id p)" using assms(1) that by (simp add: senders_ok_def)
    then show ?thesis using assms(2,4) by (cases "pe_response_tx p = t") (auto simp: forward_def)
  qed
  ultimately show ?thesis using assms(1) by (simp add: senders_ok_def)
qed

lemma senders_ok_add:
  assumes "senders_ok bs ps" "t < length bs" "\<not> held (bs ! t)" "held b" "call_id b = Some i"
  shows "senders_ok (bs[t := b]) (ps @ [\<lparr>pe_req_id = i, pe_response_tx = t\<rparr>])"
proof -
  have t: "t \<notin> pe_response_tx ` set ps" using assms(1,3) by (auto simp: senders_ok_def)
  have "{s. s < length (bs[t := b]) \<and> held (bs[t := b] ! s)} = insert t {s. s < length bs \<and> held (bs ! s)}"
    using assms(2,4) by (auto simp: nth_list_update)
  moreover have "call_id (bs[t := b] ! pe_response_tx p) = Some (pe_req_id p)" if "p \<in> set ps" for p
    using that t assms(1) by (cases "pe_response_tx p = t") (auto simp: senders_ok_def)
  ultimately show ?thesis using assms(1,2,5) t by (simp add: senders_ok_def)
qed

lemma senders_ok_remove:
  assumes "senders_ok bs ps" "k < length ps" "pe_response_tx (ps ! k) = t" "\<not> held b"
  shows "senders_ok (bs[t := b]) (remove_at k ps)"
proof -
  have m: "mset ps = add_mset (ps ! k) (mset (remove_at k ps))" using mset_remove_at [OF assms(2)] by simp
  then have set: "set ps = insert (ps ! k) (set (remove_at k ps))" by (metis set_mset_add_mset_insert set_mset_mset)
  have d: "distinct (map pe_response_tx ps)" using assms(1) by (simp add: senders_ok_def)
  have "mset (map pe_response_tx ps) = add_mset t (mset (map pe_response_tx (remove_at k ps)))"
    using arg_cong [OF m, of "image_mset pe_response_tx"] assms(3) by simp
  then have t: "t \<notin> pe_response_tx ` set (remove_at k ps)"
    using d mset_eq_imp_distinct_iff [of "map pe_response_tx ps" "t # map pe_response_tx (remove_at k ps)"] by simp
  have "t \<in> pe_response_tx ` set ps" using assms(2,3) by force
  then have "t < length bs" using assms(1) by (auto simp: senders_ok_def)
  then have "{s. s < length (bs[t := b]) \<and> held (bs[t := b] ! s)} = {s. s < length bs \<and> held (bs ! s)} - {t}"
    using assms(4) by (auto simp: nth_list_update)
  also have "\<dots> = pe_response_tx ` set ps - {t}" using assms(1) by (simp add: senders_ok_def)
  also have "\<dots> = pe_response_tx ` set (remove_at k ps)" using t assms(3) unfolding set by auto
  finally have "pe_response_tx ` set (remove_at k ps) = {s. s < length (bs[t := b]) \<and> held (bs[t := b] ! s)}" ..
  moreover have "call_id (bs[t := b] ! pe_response_tx p) = Some (pe_req_id p)" if "p \<in> set (remove_at k ps)" for p
    using that t assms(1) set by (cases "pe_response_tx p = t") (auto simp: senders_ok_def)
  ultimately show ?thesis using d by (simp add: senders_ok_def remove_at_map distinct_remove_at)
qed

lemma queue_ok_update:
  assumes "queue_ok al bs q" "forward (bs ! t) b"
  shows "queue_ok al (bs[t := b]) q"
proof -
  have fwd: "\<exists>c' \<in> set (bs[t := b]). forward c c'" if c: "c \<in> set bs" for c
  proof -
    obtain s where s: "s < length bs" "bs ! s = c" using c by (metis in_set_conv_nth)
    have "bs[t := b] ! s \<in> set (bs[t := b])" using s(1) by (intro nth_mem) simp
    moreover have "forward c (bs[t := b] ! s)"
    proof (cases "s = t")
      case True
      then have "bs[t := b] ! s = b" using s(1) by simp
      then show ?thesis using assms(2) s(2) True by metis
    next
      case False
      then have "bs[t := b] ! s = c" using s(2) by simp
      then show ?thesis by (metis forward_refl)
    qed
    ultimately show ?thesis by metis
  qed
  show ?thesis unfolding queue_ok_def
  proof (intro conjI ballI)
    show "length (q_buffered q) \<le> unat (q_max_pending q)" using assms(1) by (simp add: queue_ok_def)
    fix x assume "x \<in> set (q_buffered q)"
    then obtain c where "c \<in> set bs" "call_id c = Some (bf_req_id x)" "pc_past (bg_pc c)"
        "serialize_request al (bf_req_id x) (bg_req c) = Inr (bf_data x)"
      using assms(1) by (auto simp: queue_ok_def)
    then show "\<exists>c \<in> set (bs[t := b]). call_id c = Some (bf_req_id x) \<and> pc_past (bg_pc c)
        \<and> serialize_request al (bf_req_id x) (bg_req c) = Inr (bf_data x)"
      using fwd [of c] forward_keeps by blast
  qed
qed

lemma queue_ok_arrive: "queue_ok al bs q \<Longrightarrow> queue_ok al (bs @ [b]) q"
  by (auto simp: queue_ok_def)

lemma filter_update:
  assumes "t < length xs" "\<not> P (xs ! t)" "P y"
  shows "length (filter P (xs[t := y])) = Suc (length (filter P xs))"
  using assms
proof (induction xs arbitrary: t)
  case (Cons x xs)
  then show ?case by (cases t) simp_all
qed simp

lemma ids_ok_new:
  assumes "ids_ok xs n" "t < length xs" "xs ! t = None" "length xs < 2 ^ 64"
  shows "ids_ok (xs[t := Some n]) (n + 1)"
proof -
  define k where "k = length (filter (\<lambda>x. x \<noteq> None) xs)"
  have k': "length (filter (\<lambda>x. x \<noteq> None) (xs[t := Some n])) = Suc k"
    using assms(2,3) unfolding k_def by (intro filter_update) simp_all
  then have "Suc k < 2 ^ 64" using assms(4) length_filter_le [of "\<lambda>x. x \<noteq> None" "xs[t := Some n]"] by simp
  have ok: "n = of_nat (Suc k)" "\<And>s i. s < length xs \<Longrightarrow> xs ! s = Some i \<Longrightarrow> 0 < unat i \<and> unat i \<le> k"
    "\<And>s s' i. s < length xs \<Longrightarrow> s' < length xs \<Longrightarrow> xs ! s = Some i \<Longrightarrow> xs ! s' = Some i \<Longrightarrow> s = s'"
    using assms(1) unfolding ids_ok_def Let_def k_def by blast+
  have n: "unat n = Suc k" using \<open>Suc k < 2 ^ 64\<close> unfolding ok(1) by (simp add: unat_of_nat del: of_nat_Suc)
  have old: "s < length xs \<Longrightarrow> xs ! s \<noteq> Some n" for s using ok(2) [of s n] n by auto
  have "n + 1 = of_nat (Suc (Suc k))" unfolding ok(1) by simp
  moreover have "0 < unat i \<and> unat i \<le> Suc k" if "s < length xs" "xs[t := Some n] ! s = Some i" for s i
    using that ok(2) [of s i] n assms(2) by (cases "s = t") auto
  moreover have "s = s'" if "s < length xs" "s' < length xs" "xs[t := Some n] ! s = Some i" "xs[t := Some n] ! s' = Some i" for s s' i
    using that ok(3) [of s s' i] old assms(2) by (cases "s = t"; cases "s' = t") auto
  ultimately show ?thesis unfolding ids_ok_def Let_def k' by simp
qed

lemma ids_ok_arrive: "ids_ok xs n \<Longrightarrow> ids_ok (xs @ [None]) n"
  by (auto simp: ids_ok_def Let_def nth_append less_Suc_eq)

lemma bridge_cases:
  assumes "pc_ok al (bg_req b) (bg_chan b) (bg_pc b)" "bridge_step al ev t b u = Some (b', u')"
  obtains (new) "bg_pc b = BCalled" "b' = b\<lparr>bg_pc := BRoute (u_next_req_id u)\<rparr>" "u' = u\<lparr>u_next_req_id := u_next_req_id u + 1\<rparr>"
  | (here) "u' = u" "held b' \<longleftrightarrow> held b" "call_id b' = call_id b"
  | (store) i q d where "bg_pc b = BEnqueue i q d" "b' = b\<lparr>bg_pc := BBuffer i q d\<rparr>" "bg_chan b = ChOpen"
      "u' = u\<lparr>u_pending := u_pending u @ [\<lparr>pe_req_id = i, pe_response_tx = t\<rparr>]\<rparr>"
  | (buffer) i q d where "bg_pc b = BBuffer i q d" "b' = b\<lparr>bg_pc := BWait i\<rparr>" "u' = enqueue_buffered ev q i d u"
      "serialize_request al i (bg_req b) = Inr d"
proof (cases "bg_pc b")
  case BCalled
  then show ?thesis using assms(2) new by (simp add: bridge_step_def alloc_req_id_def)
next
  case (BEnqueue i q d)
  then show ?thesis using assms store [of i q d] here
    by (auto simp: bridge_step_def enqueue_pending_def held_def split: if_splits)
next
  case (BBuffer i q d)
  then show ?thesis using assms buffer [of i q d] by (simp add: bridge_step_def)
next
  case (BPoll i q s)
  then show ?thesis using assms here
    by (auto simp: bridge_step_def held_def split: option.splits sum.splits if_splits)
next
  case (BWait i)
  then show ?thesis using assms here by (auto simp: bridge_step_def held_def split: chan.splits)
qed (use assms here in \<open>auto simp: bridge_step_def held_def\<close>)

lemma bridge_step_forward:
  assumes "pc_ok al (bg_req b) (bg_chan b) (bg_pc b)" "bridge_step al ev t b u = Some (b', u')"
  shows "forward b b'"
  using bridge_step_call [OF assms] by (simp add: forward_def)

text \<open>One element of a vector replaced: what becomes of the concatenation.\<close>

lemma concat_update:
  assumes "k < length xs"
  shows "mset (concat (map f (xs[k := y]))) + mset (f (xs ! k)) = mset (concat (map f xs)) + mset (f y)"
proof -
  have "xs = take k xs @ xs ! k # drop (Suc k) xs" using assms by (rule id_take_nth_drop)
  then have "mset (concat (map f xs)) = mset (concat (map f (take k xs @ xs ! k # drop (Suc k) xs)))" by metis
  moreover have "xs[k := y] = take k xs @ y # drop (Suc k) xs" using assms by (rule upd_conv_take_nth_drop)
  ultimately show ?thesis by simp
qed

lemma distinct_concat_remove_at:
  assumes "distinct (concat (map f xs))"
  shows "distinct (concat (map f (remove_at k xs)))"
proof (cases "k < length xs")
  case True
  have "xs = take k xs @ xs ! k # drop (Suc k) xs" using True by (rule id_take_nth_drop)
  then have "distinct (concat (map f (take k xs @ xs ! k # drop (Suc k) xs)))" using assms by metis
  then show ?thesis by (auto simp: remove_at_def)
qed (use assms in \<open>simp add: remove_at_def\<close>)

lemma queues_ok_update: "queues_ok al bs u \<Longrightarrow> forward (bs ! t) b \<Longrightarrow> queues_ok al (bs[t := b]) u"
  unfolding queues_ok_def using queue_ok_update by fastforce

lemma queues_ok_set:
  assumes "queues_ok al bs u" "queue_ok al bs q"
  shows "queues_ok al bs (u\<lparr>u_queues := (u_queues u)[k := (j, q)]\<rparr>)"
  using assms unfolding queues_ok_def
  by (auto dest!: subsetD [OF set_update_subset_insert])

lemma queues_ok_nth: "queues_ok al bs u \<Longrightarrow> k < length (u_queues u) \<Longrightarrow> queue_ok al bs (snd (u_queues u ! k))"
  unfolding queues_ok_def by (metis (no_types, lifting) case_prod_beta nth_mem)

lemma enqueue_cases:
  obtains (no) "enqueue_buffered ev i n d u = u"
  | (yes) k j q where "k < length (u_queues u)" "u_queues u ! k = (j, q)" "length (q_buffered q) mod 2 ^ 32 < unat (q_max_pending q)"
      "enqueue_buffered ev i n d u =
         u\<lparr>u_queues := (u_queues u)[k := (j, q\<lparr>q_buffered := q_buffered q @ [\<lparr>bf_req_id = n, bf_data = d\<rparr>]\<rparr>)]\<rparr>"
proof (cases "find_index (\<lambda>(j, _). j = i) (u_queues u)")
  case None
  then show ?thesis using no by (simp add: enqueue_buffered_def)
next
  case (Some k)
  obtain j q where jq: "u_queues u ! k = (j, q)" by fastforce
  have "k < length (u_queues u)" using Some by (simp add: find_index_Some)
  then show ?thesis using no yes [of k j q] Some jq
    by (cases "length (q_buffered q) mod 2 ^ 32 < unat (q_max_pending q) \<and> ev_grow ev")
      (auto simp: enqueue_buffered_def word_less_nat_alt unat_of_nat)
qed

lemma enqueue_queues:
  assumes "queues_ok al bs u" "c \<in> set bs" "call_id c = Some n" "pc_past (bg_pc c)" "serialize_request al n (bg_req c) = Inr d"
  shows "queues_ok al bs (enqueue_buffered ev i n d u)"
proof (cases rule: enqueue_cases [of ev i n d u])
  case (yes k j q)
  have q: "queue_ok al bs q" using queues_ok_nth [OF assms(1) yes(1)] yes(2) by simp
  then have "length (q_buffered q) \<le> unat (q_max_pending q)" by (simp add: queue_ok_def)
  moreover have "unat (q_max_pending q) < 2 ^ 32" using unsigned_less [of "q_max_pending q"] by simp
  ultimately have "length (q_buffered q) < unat (q_max_pending q)" using yes(3) by simp
  then show ?thesis unfolding yes(4) using q assms by (intro queues_ok_set) (auto simp: queue_ok_def)
qed (use assms in simp)

lemma enqueue_queued:
  assumes "distinct (queued u)" "n \<notin> set (queued u)"
  shows "distinct (queued (enqueue_buffered ev i n d u))"
proof (cases rule: enqueue_cases [of ev i n d u])
  case (yes k j q)
  have "mset (queued (enqueue_buffered ev i n d u)) = add_mset n (mset (queued u))"
    unfolding yes(4) queued_def
    using concat_update [OF yes(1), of "\<lambda>(_, q). map bf_req_id (q_buffered q)"
      "(j, q\<lparr>q_buffered := q_buffered q @ [\<lparr>bf_req_id = n, bf_data = d\<rparr>]\<rparr>)"] yes(2) by simp
  then show ?thesis using assms mset_eq_imp_distinct_iff [of _ "n # queued u"] by simp
qed (use assms in simp)

text \<open>The four kinds of step keep the world in order.\<close>

lemma queued_past:
  assumes "queues_ok al bs u" "n \<in> set (queued u)"
  obtains s where "s < length bs" "call_id (bs ! s) = Some n" "pc_past (bg_pc (bs ! s))"
proof -
  obtain j q b where "(j, q) \<in> set (u_queues u)" "b \<in> set (q_buffered q)" "n = bf_req_id b"
    using assms(2) by (auto simp: queued_def)
  then obtain c where "c \<in> set bs" "call_id c = Some n" "pc_past (bg_pc c)"
    using assms(1) by (fastforce simp: queues_ok_def queue_ok_def)
  then show ?thesis using that by (metis in_set_conv_nth)
qed

lemma ids_unique:
  assumes "ids_ok (map pc_id (map bg_pc bs)) n" "s < length bs" "t < length bs" "call_id (bs ! s) = Some i" "call_id (bs ! t) = Some i"
  shows "s = t"
  using assms by (simp add: ids_ok_def Let_def)

lemma call_step_ok:
  assumes "world_ok al w" "t < length (w_calls w)" "bridge_step al ev t (w_calls w ! t) (w_uring w) = Some (b, u)"
  shows "world_ok al \<lparr>w_uring = u, w_calls = (w_calls w)[t := b]\<rparr>"
proof -
  let ?bs = "w_calls w" and ?u = "w_uring w"
  let ?b = "?bs ! t"
  note ok = assms(1) [unfolded world_ok_def]
  have pc: "pc_ok al (bg_req ?b) (bg_chan ?b) (bg_pc ?b)" using ok assms(2) by (simp add: calls_ok_def)
  have fwd: "forward ?b b" using bridge_step_forward [OF pc assms(3)] .
  have calls: "calls_ok al (?bs[t := b])" using ok bridge_step_call(2) [OF pc assms(3)] by (simp add: calls_ok_update)
  have queues: "queues_ok al (?bs[t := b]) ?u" using ok fwd by (simp add: queues_ok_update)
  have ids: "map pc_id (map bg_pc (?bs[t := b])) = (map pc_id (map bg_pc ?bs))[t := call_id b]" by (simp add: map_update)
  have same: "map pc_id (map bg_pc (?bs[t := b])) = map pc_id (map bg_pc ?bs)" if "call_id b = call_id ?b"
    using that assms(2) unfolding ids by (simp add: list_update_same_conv)
  show ?thesis using pc assms(3)
  proof (cases rule: bridge_cases)
    case new
    have "senders_ok (?bs[t := b]) (u_pending ?u)"
      using ok fwd assms(2) new pc by (intro senders_ok_update) (auto simp: held_def)
    moreover have "ids_ok (map pc_id (map bg_pc (?bs[t := b]))) (u_next_req_id ?u + 1)" if "length ?bs < 2 ^ 64"
      unfolding ids using ids_ok_new [of "map pc_id (map bg_pc ?bs)" "u_next_req_id ?u" t] ok that assms(2) new by simp
    ultimately show ?thesis using ok calls queues new by (simp add: world_ok_def queues_ok_def queued_def)
  next
    case here
    have "senders_ok (?bs[t := b]) (u_pending ?u)" using ok fwd assms(2) here by (intro senders_ok_update) auto
    then show ?thesis using ok calls queues here same by (simp add: world_ok_def)
  next
    case (store i q d)
    have "senders_ok (?bs[t := b]) (u_pending u)"
      unfolding store(4) using ok assms(2) store by (auto intro!: senders_ok_add simp: held_def)
    then show ?thesis using ok calls queues store same by (simp add: world_ok_def queues_ok_def queued_def)
  next
    case (buffer i q d)
    have id: "call_id ?b = Some i" "call_id b = Some i" "pc_past (bg_pc b)" "bg_req b = bg_req ?b" "\<not> pc_past (bg_pc ?b)"
      using buffer by simp_all
    have "b \<in> set (?bs[t := b])" using assms(2) by (simp add: set_update_memI)
    then have "queues_ok al (?bs[t := b]) u"
      unfolding buffer(3) using enqueue_queues [OF queues _ id(2,3)] id(4) buffer(4) by simp
    moreover have "senders_ok (?bs[t := b]) (u_pending ?u)"
      using ok fwd assms(2) buffer by (intro senders_ok_update) (auto simp: held_def)
    moreover have "distinct (queued u)" if len: "length ?bs < 2 ^ 64"
      unfolding buffer(3)
    proof (rule enqueue_queued)
      show "distinct (queued ?u)" using ok len by simp
      show "i \<notin> set (queued ?u)"
      proof
        assume "i \<in> set (queued ?u)"
        then obtain s where "s < length ?bs" "call_id (?bs ! s) = Some i" "pc_past (bg_pc (?bs ! s))"
          using ok by (auto elim: queued_past)
        then show False using ids_unique [of ?bs] ok len assms(2) id by metis
      qed
    qed
    moreover have "u_pending u = u_pending ?u" "u_next_req_id u = u_next_req_id ?u"
      unfolding buffer(3) by (cases rule: enqueue_cases [of ev q i d ?u]; simp)+
    ultimately show ?thesis using ok calls same id by (simp add: world_ok_def)
  qed
qed

lemma drop_call_ok:
  assumes "world_ok al w" "t < length (w_calls w)" "drop_call (bg_pc (w_calls w ! t)) = Some pc"
  shows "world_ok al (w\<lparr>w_calls := (w_calls w)[t := (w_calls w ! t)\<lparr>bg_pc := pc\<rparr>]\<rparr>)"
proof -
  let ?bs = "w_calls w"
  let ?b = "(?bs ! t)\<lparr>bg_pc := pc\<rparr>"
  note ok = assms(1) [unfolded world_ok_def]
  have "pc_ok al (bg_req (?bs ! t)) (bg_chan (?bs ! t)) (bg_pc (?bs ! t))" using ok assms(2) by (simp add: calls_ok_def)
  then have pc: "pc_ok al (bg_req ?b) (bg_chan ?b) (bg_pc ?b)" "held ?b \<longleftrightarrow> held (?bs ! t)" "forward (?bs ! t) ?b"
      "call_id ?b = call_id (?bs ! t)"
    using assms(3) by (auto simp: forward_def held_def elim!: drop_call.elims)
  have "map pc_id (map bg_pc (?bs[t := ?b])) = map pc_id (map bg_pc ?bs)"
    using pc(4) assms(2) by (simp add: map_update list_update_same_conv)
  then show ?thesis
    using ok pc assms(2) by (simp add: world_ok_def calls_ok_update senders_ok_update queues_ok_update)
qed

lemma arrive_ok:
  assumes "world_ok al w"
  shows "world_ok al (w\<lparr>w_calls := w_calls w @ [\<lparr>bg_req = req, bg_pc = BCalled, bg_chan = ChNone\<rparr>]\<rparr>)"
proof -
  let ?b = "\<lparr>bg_req = req, bg_pc = BCalled, bg_chan = ChNone\<rparr>" and ?bs = "w_calls w" and ?ps = "u_pending (w_uring w)"
  note ok = assms [unfolded world_ok_def]
  have "{t. t < length (?bs @ [?b]) \<and> held ((?bs @ [?b]) ! t)} = {t. t < length ?bs \<and> held (?bs ! t)}"
    by (auto simp: nth_append held_def less_Suc_eq)
  moreover have "call_id ((?bs @ [?b]) ! pe_response_tx p) = Some (pe_req_id p)" if "p \<in> set ?ps" for p
  proof -
    have "pe_response_tx p \<in> {t. t < length ?bs \<and> held (?bs ! t)}" using ok that by (auto simp: senders_ok_def)
    then show ?thesis using ok that by (simp add: senders_ok_def nth_append)
  qed
  ultimately have "senders_ok (?bs @ [?b]) ?ps" using ok by (simp add: senders_ok_def)
  then show ?thesis
    using ok by (auto simp: world_ok_def calls_ok_def queues_ok_def queue_ok_arrive ids_ok_arrive)
qed

lemma held_replied:
  assumes "held b" "pc_ok al (bg_req b) (bg_chan b) (bg_pc b)" "c \<noteq> ChOpen" "c \<noteq> ChNone"
  shows "pc_ok al (bg_req b) c (bg_pc b)" "\<not> held (b\<lparr>bg_chan := c\<rparr>)"
  using assms by (cases "bg_pc b"; simp add: held_def)+

lemma send_cases:
  assumes "cmd_send_response al ev p u = (r, e, u')"
  obtains (none) "r = to_errno ENOENT" "e = None" "u' = u" "\<forall>x \<in> set (u_pending u). pe_req_id x \<noteq> cs_req_id p"
  | (some) k x where "k < length (u_pending u)" "pe_req_id (u_pending u ! k) = cs_req_id p"
      "e = Some (pe_response_tx (u_pending u ! k), x)" "u' = u\<lparr>u_pending := remove_at k (u_pending u)\<rparr>"
      "if x = None then r < 0 else r = 0"
      "x = map_option (\<lambda>body. (empty_response (StatusCode (cs_status_code p)))\<lparr>rs_body := body\<rparr>)
             (case response_body al ev p of Inl _ \<Rightarrow> None | Inr body \<Rightarrow> Some body)"
proof (cases "find_index (\<lambda>r. pe_req_id r = cs_req_id p) (u_pending u)")
  case None
  moreover have "\<forall>x \<in> set (u_pending u). pe_req_id x \<noteq> cs_req_id p" using None by (simp add: find_index_None)
  ultimately show ?thesis using assms none by (simp add: cmd_send_response_def)
next
  case (Some k)
  then have k: "k < length (u_pending u)" "pe_req_id (u_pending u ! k) = cs_req_id p" by (simp_all add: find_index_Some)
  have neg: "response_body al ev p = Inl err \<Longrightarrow> to_errno err < 0" for err
    by (auto simp: response_body_def Let_def errno_values split: if_splits sum.splits)
  show ?thesis
  proof (cases "response_body al ev p")
    case (Inl err)
    then show ?thesis using some [OF k, of None] neg [OF Inl] Some assms by (simp add: cmd_send_response_def Let_def)
  next
    case (Inr body)
    then show ?thesis
      using some [OF k, of "Some ((empty_response (StatusCode (cs_status_code p)))\<lparr>rs_body := body\<rparr>)"] Some assms
      by (simp add: cmd_send_response_def Let_def sb_body_def sb_set_status_def sb_new_def from_u16_def empty_response_def)
  qed
qed

lemma send_ok:
  assumes "world_ok al w" "cmd_send_response al ev p (w_uring w) = (r, Some (t, x), u)"
  shows "world_ok al \<lparr>w_uring = u, w_calls = deliver t x (w_calls w)\<rparr>"
  using assms(2)
proof (cases rule: send_cases)
  case (some k y)
  let ?bs = "w_calls w"
  let ?c = "case x of Some r \<Rightarrow> ChSent r | None \<Rightarrow> ChClosed"
  let ?b = "(?bs ! t)\<lparr>bg_chan := ?c\<rparr>"
  note ok = assms(1) [unfolded world_ok_def]
  have c: "?c \<noteq> ChOpen" "?c \<noteq> ChNone" by (simp_all split: option.split)
  have t: "pe_response_tx (u_pending (w_uring w) ! k) = t" using some(3) by simp
  then have "t \<in> pe_response_tx ` set (u_pending (w_uring w))" using some(1) by force
  then have held: "t < length ?bs" "held (?bs ! t)" using ok by (auto simp: senders_ok_def)
  then have "pc_ok al (bg_req (?bs ! t)) (bg_chan (?bs ! t)) (bg_pc (?bs ! t))" using ok by (simp add: calls_ok_def)
  note replied = held_replied [OF held(2) this c]
  have "senders_ok (?bs[t := ?b]) (u_pending u)"
    unfolding some(4) using ok some(1) t replied(2) by (simp add: senders_ok_remove)
  moreover have "calls_ok al (?bs[t := ?b])" using ok replied(1) by (simp add: calls_ok_update)
  moreover have "queues_ok al (?bs[t := ?b]) u"
    using ok queues_ok_update [of al ?bs "w_uring w" t ?b] some(4) by (simp add: forward_def queues_ok_def)
  moreover have "map pc_id (map bg_pc (?bs[t := ?b])) = map pc_id (map bg_pc ?bs)"
    using held(1) by (simp add: map_update list_update_same_conv)
  ultimately show ?thesis using ok held(1) some(4) by (simp add: world_ok_def deliver_def queued_def)
qed simp

lemma recv_cases:
  assumes "cmd_recv_request ev p u = (r, bs, u')"
  obtains (none) "r < 0" "bs = []" "u' = u"
  | (some) k j q b rest where "k < length (u_queues u)" "u_queues u ! k = (j, q)" "j = cr_queue_id p" "q_buffered q = b # rest"
      "\<forall>i < k. fst (u_queues u ! i) \<noteq> cr_queue_id p"
      "u' = u\<lparr>u_queues := (u_queues u)[k := (j, q\<lparr>q_buffered := rest\<rparr>)]\<rparr>"
      "if ev_left ev = 0 then r = sint (of_nat (min (length (kv_list (bf_data b))) (unat (cr_buf_len p))) :: 32 word)
          \<and> bs = take (unat (cr_buf_len p)) (kv_list (bf_data b))
       else r = to_errno EFAULT"
proof (cases "find_index (\<lambda>(j, _). j = cr_queue_id p) (u_queues u)")
  case None
  then show ?thesis using assms none by (simp add: cmd_recv_request_def errno_values)
next
  case (Some k)
  obtain j q where jq: "u_queues u ! k = (j, q)" by fastforce
  have k: "k < length (u_queues u)" "j = cr_queue_id p" "\<forall>i < k. fst (u_queues u ! i) \<noteq> cr_queue_id p"
    using Some jq by (auto simp: find_index_Some split_beta)
  show ?thesis
  proof (cases "q_buffered q")
    case Nil
    then show ?thesis using assms none Some jq by (simp add: cmd_recv_request_def errno_values)
  next
    case (Cons b rest)
    then show ?thesis using assms some [OF k(1) jq k(2) Cons k(3)] Some jq
      by (auto simp: cmd_recv_request_def Let_def min_def split: if_splits)
  qed
qed

lemma recv_queued:
  assumes "k < length (u_queues u)" "u_queues u ! k = (j, q)" "q_buffered q = b # rest"
  shows "add_mset (bf_req_id b) (mset (queued (u\<lparr>u_queues := (u_queues u)[k := (j, q\<lparr>q_buffered := rest\<rparr>)]\<rparr>))) = mset (queued u)"
  unfolding queued_def
  using concat_update [OF assms(1), of "\<lambda>(_, q). map bf_req_id (q_buffered q)" "(j, q\<lparr>q_buffered := rest\<rparr>)"] assms(2,3) by simp

lemma recv_ok:
  assumes "world_ok al w" "cmd_recv_request ev p (w_uring w) = (r, bs, u)"
  shows "world_ok al (w\<lparr>w_uring := u\<rparr>)"
  using assms(2)
proof (cases rule: recv_cases)
  case (some k j q b rest)
  note ok = assms(1) [unfolded world_ok_def]
  let ?q = "q\<lparr>q_buffered := rest\<rparr>"
  have "queue_ok al (w_calls w) q" using ok queues_ok_nth [of al "w_calls w" "w_uring w" k] some(1,2) by simp
  then have "queue_ok al (w_calls w) ?q" using some(4) by (simp add: queue_ok_def)
  then have "queues_ok al (w_calls w) u" unfolding some(6) using ok by (simp add: queues_ok_set)
  moreover have "add_mset (bf_req_id b) (mset (queued u)) = mset (queued (w_uring w))"
    unfolding some(6) using recv_queued [OF some(1,2,4)] .
  then have "distinct (queued (w_uring w)) \<Longrightarrow> distinct (queued u)"
    using mset_eq_imp_distinct_iff [of "queued (w_uring w)" "bf_req_id b # queued u"] by simp
  ultimately show ?thesis using ok some(6) by (simp add: world_ok_def)
qed (use assms in simp)

lemma create_ok:
  assumes "world_ok al w" "cmd_create_queue ev m (w_uring w) = (r, u)"
  shows "world_ok al (w\<lparr>w_uring := u\<rparr>)"
proof -
  have "queue_ok al (w_calls w) \<lparr>q_id = i, q_max_pending = n, q_buffered = []\<rparr>" for i n by (simp add: queue_ok_def)
  then show ?thesis using assms
    by (auto simp: cmd_create_queue_def Let_def world_ok_def queues_ok_def queued_def split: if_splits)
qed

lemma destroy_ok:
  assumes "world_ok al w" "cmd_destroy_queue i (w_uring w) = (r, u)"
  shows "world_ok al (w\<lparr>w_uring := u\<rparr>)"
proof (cases "find_index (\<lambda>(j, _). j = i) (u_queues (w_uring w))")
  case None
  then show ?thesis using assms by (auto simp: cmd_destroy_queue_def)
next
  case (Some k)
  note ok = assms(1) [unfolded world_ok_def]
  have u: "u = w_uring w\<lparr>u_queues := remove_at k (u_queues (w_uring w))\<rparr>" using assms(2) Some by (simp add: cmd_destroy_queue_def)
  have "queues_ok al (w_calls w) u"
    using ok subsetD [OF set_remove_at] unfolding u queues_ok_def by fastforce
  moreover have "distinct (queued u)" if "distinct (queued (w_uring w))"
    using distinct_concat_remove_at [OF that [unfolded queued_def]] unfolding u queued_def by simp
  ultimately show ?thesis using ok u by (simp add: world_ok_def)
qed

lemma world_ok_frame:
  assumes "world_ok al w" "u_queues u = u_queues (w_uring w)" "u_pending u = u_pending (w_uring w)"
    "u_next_req_id u = u_next_req_id (w_uring w)"
  shows "world_ok al (w\<lparr>w_uring := u\<rparr>)"
  using assms by (simp add: world_ok_def queues_ok_def queued_def)

lemma world_step_ok:
  assumes "world_ok al w" "world_step al w l = Some w'"
  shows "world_ok al w'"
proof (cases l)
  case (Call t ev)
  then show ?thesis using assms call_step_ok [OF assms(1)] by (cases w) (auto split: if_splits)
next
  case (Cmd ev opc p)
  obtain r e u where d: "dispatch al ev opc p (w_uring w) = (r, e, u)" by (metis surj_pair)
  have w': "w' = w\<lparr>w_uring := u, w_calls := case e of Replied t x \<Rightarrow> deliver t x (w_calls w) | _ \<Rightarrow> w_calls w\<rparr>"
    using assms(2) Cmd d by simp
  from d show ?thesis
  proof (cases rule: dispatch_cases)
    case (reply t x)
    then show ?thesis using send_ok [OF assms(1) reply(1)] w' by (cases w) simp
  next
    case send
    then have "u = w_uring w" by (cases rule: send_cases) simp_all
    then show ?thesis using w' send assms(1) by simp
  next
    case (recv bs)
    then show ?thesis using recv_ok [OF assms(1) recv(1)] w' by simp
  next
    case create
    then show ?thesis using create_ok [OF assms(1) create(1)] w' by simp
  next
    case destroy
    then show ?thesis using destroy_ok [OF assms(1) destroy(1)] w' by simp
  qed (use w' world_ok_frame [OF assms(1), of u] in \<open>auto dest!: commands_keep\<close>)
qed (use assms arrive_ok [OF assms(1)] drop_call_ok [OF assms(1)] in \<open>auto split: if_splits\<close>)

interpretation uw: kept "world_step al" world_new "world_ok al" for al
  by unfold_locales
    (simp add: world_new_def uring_new_def world_ok_def calls_ok_def senders_ok_def queues_ok_def queued_def ids_ok_def, fact world_step_ok)

lemma distinct_removed:
  assumes "distinct (map f xs)" "k < length xs"
  shows "f (xs ! k) \<notin> f ` set (remove_at k xs)"
proof -
  have "mset (map f xs) = mset (f (xs ! k) # map f (remove_at k xs))"
    using arg_cong [OF mset_remove_at [OF assms(2)], of "image_mset f"] by simp
  then have "distinct (f (xs ! k) # map f (remove_at k xs))" using assms(1) mset_eq_imp_distinct_iff by blast
  then show ?thesis by simp
qed

lemma unique_pending:
  assumes "world_ok al w" "length (w_calls w) < 2 ^ 64" "p \<in> set (u_pending (w_uring w))" "p' \<in> set (u_pending (w_uring w))"
    and "pe_req_id p = pe_req_id p'"
  shows "p = p'"
proof -
  note ok = assms(1) [unfolded world_ok_def]
  have at: "pe_response_tx x < length (w_calls w) \<and> call_id (w_calls w ! pe_response_tx x) = Some (pe_req_id x)"
    if "x \<in> set (u_pending (w_uring w))" for x
    using ok that by (auto simp: senders_ok_def)
  have "pe_response_tx p = pe_response_tx p'"
    using ids_unique [of "w_calls w"] ok assms(2,5) at [OF assms(3)] at [OF assms(4)] by metis
  then show ?thesis using assms(5) by (simp add: pending_request.equality)
qed

lemma kv_fill_rep:
  assumes "kv_rep ty ys v" "length xs = length ys"
  shows "kv_rep ty xs (kv_fill xs v)"
  using assms by (simp add: kv_rep_def kv_fill_def)

lemma resize_in_room:
  assumes "krealloc_ok ty kr" "kv_rep ty [] v" "n \<le> kv_cap v" "n \<le> usize_max"
  shows "kv_rep ty (replicate n x) (snd (kv_resize ty kr n x v))"
proof -
  obtain r v' where res: "kv_resize ty kr n x v = (r, v')" by fastforce
  have "r \<noteq> Inl AllocError"
  proof (cases "n = 0")
    case False
    have "reserve ty kr n v = (Inr (), v)" using assms(2-4) by (simp add: reserve_def checked_add_def kv_rep_def)
    then show ?thesis using res assms(2) False fill_loop_rep [OF assms(2), of n x]  assms(3)
      by (auto simp: kv_resize_def sthen_def sbind_def kv_rep_def)
  qed (use res assms(2) in \<open>auto simp: kv_resize_def sbind_def sret_def kv_truncate_def kv_rep_def\<close>)
  then show ?thesis using kv_resize_rep [OF assms(1,2) res] res by (auto split: if_splits)
qed

lemma response_body_spec:
  assumes "al_ok al" "response_body al ev p = Inr body"
  shows "kv_inv u8_ty body \<and> kv_list body =
    (if cs_body_len p > 0 \<and> cs_buf_addr p \<noteq> 0 then user_slice ev (cs_buf_addr p) (unat (cs_body_len p)) else [])"
proof (cases "cs_body_len p > 0 \<and> cs_buf_addr p \<noteq> 0")
  case True
  let ?n = "unat (cs_body_len p)" and ?xs = "user_slice ev (cs_buf_addr p) (unat (cs_body_len p))"
  obtain buf where buf: "with_capacity u8_ty (al_bytes al) ?n = Inr buf"
    and body: "body = kv_fill ?xs (snd (kv_resize u8_ty (al_bytes al) ?n (CHR 0x00) buf))"
    using assms(2) True by (auto simp: response_body_def Let_def split: sum.splits if_splits)
  have kr: "krealloc_ok u8_ty (al_bytes al)" using assms(1) by (simp add: al_ok_def)
  have rep: "kv_rep u8_ty [] buf" "?n \<le> kv_cap buf" using with_capacity_rep [OF kr, of ?n] buf by auto
  have "?n < 2 ^ 32" using unsigned_less [of "cs_body_len p"] by simp
  then have "?n \<le> usize_max" by (simp add: usize_max_def)
  from resize_in_room [OF kr rep this] have "kv_rep u8_ty ?xs body"
    unfolding body by (rule kv_fill_rep) (simp add: user_slice_def)
  then show ?thesis using True by (simp add: kv_rep_inv)
next
  case False
  then show ?thesis using assms(2) by (auto simp: response_body_def kv_inv_def kv_rep_def kv_new_def kv_list_def)
qed

text \<open>Every call that waits has its answer, or a sender through which it can be answered.\<close>

lemma waiting_answerable:
  assumes "world_ok al w" "t < length (w_calls w)" "bg_pc (w_calls w ! t) = BWait i"
  shows "(\<exists>r. bg_chan (w_calls w ! t) = ChSent r) \<or> bg_chan (w_calls w ! t) = ChClosed
    \<or> \<lparr>pe_req_id = i, pe_response_tx = t\<rparr> \<in> set (u_pending (w_uring w))"
proof (cases "bg_chan (w_calls w ! t)")
  case ChOpen
  note ok = assms(1) [unfolded world_ok_def]
  have "t \<in> pe_response_tx ` set (u_pending (w_uring w))"
    using ok assms(2,3) ChOpen by (simp add: senders_ok_def held_def)
  then obtain p where p: "p \<in> set (u_pending (w_uring w))" "pe_response_tx p = t" by blast
  then have "pe_req_id p = i" using ok assms(3) by (auto simp: senders_ok_def)
  then have "p = \<lparr>pe_req_id = i, pe_response_tx = t\<rparr>" using p(2) by (simp add: pending_request.equality)
  then show ?thesis using p(1) by simp
next
  case ChNone
  then show ?thesis using assms by (auto simp: world_ok_def calls_ok_def dest!: bspec [OF _ nth_mem])
qed simp_all

text \<open>
  C7. Replies reach exactly the request they name.  After any interleaving of
  commands, HTTP requests and cancelled connections (fewer than 2^64 requests
  in all): a call of the bridge that waits has its answer already or a pending
  sender under its own id; SEND_RESPONSE with an id that is not pending returns
  ENOENT and changes nothing; otherwise it takes the sender of the only call
  with that id, so that a second reply to that id gets ENOENT, and either hands
  that call a response with the given status and the bytes of the user's
  buffer and returns 0, or drops the sender and returns an error.
\<close>

theorem uring_replies:
  assumes "al_ok al" "reachable (world_step al) world_new w" "length (w_calls w) < 2 ^ 64"
  defines "calls \<equiv> w_calls w" and "u \<equiv> w_uring w"
  shows "(t < length calls \<and> bg_pc (calls ! t) = BWait i \<longrightarrow>
      (\<exists>r. bg_chan (calls ! t) = ChSent r) \<or> bg_chan (calls ! t) = ChClosed
      \<or> \<lparr>pe_req_id = i, pe_response_tx = t\<rparr> \<in> set (u_pending u))
    \<and> (case cmd_send_response al ev p u of
        (r, None, u') \<Rightarrow> r = to_errno ENOENT \<and> u' = u \<and> (\<forall>q \<in> set (u_pending u). pe_req_id q \<noteq> cs_req_id p)
      | (r, Some (s, x), u') \<Rightarrow> s < length calls \<and> call_id (calls ! s) = Some (cs_req_id p) \<and> bg_chan (calls ! s) = ChOpen
          \<and> (\<forall>s' < length calls. call_id (calls ! s') = Some (cs_req_id p) \<longrightarrow> s' = s)
          \<and> fst (cmd_send_response al ev' p u') = to_errno ENOENT
          \<and> (case x of None \<Rightarrow> r < 0
             | Some resp \<Rightarrow> r = 0 \<and> rs_status resp = StatusCode (cs_status_code p)
                 \<and> kv_list (rs_body resp) = (if cs_body_len p > 0 \<and> cs_buf_addr p \<noteq> 0
                      then user_slice ev (cs_buf_addr p) (unat (cs_body_len p)) else [])))"
proof -
  have ok: "world_ok al w" using uw.reached [OF assms(2)] .
  note w = ok [unfolded world_ok_def]
  have wait: "t < length calls \<and> bg_pc (calls ! t) = BWait i \<longrightarrow>
      (\<exists>r. bg_chan (calls ! t) = ChSent r) \<or> bg_chan (calls ! t) = ChClosed
      \<or> \<lparr>pe_req_id = i, pe_response_tx = t\<rparr> \<in> set (u_pending u)"
    using waiting_answerable [OF ok] unfolding calls_def u_def by blast
  obtain r e u' where run: "cmd_send_response al ev p u = (r, e, u')" by (metis surj_pair)
  from run show ?thesis
  proof (cases rule: send_cases)
    case none
    then show ?thesis using run wait by simp
  next
    case (some k x)
    let ?p = "u_pending u ! k"
    have p: "?p \<in> set (u_pending u)" using some(1) by simp
    then have s: "pe_response_tx ?p < length calls" "held (calls ! pe_response_tx ?p)"
        "call_id (calls ! pe_response_tx ?p) = Some (cs_req_id p)"
      using w some(2) unfolding calls_def u_def by (auto simp: senders_ok_def)
    have once: "s' = pe_response_tx ?p" if "s' < length calls" "call_id (calls ! s') = Some (cs_req_id p)" for s'
      using ids_unique [of calls "u_next_req_id u"] w assms(3) that s(1,3) unfolding calls_def u_def by metis
    have "pe_req_id q \<noteq> cs_req_id p" if "q \<in> set (u_pending u')" for q
    proof
      assume "pe_req_id q = cs_req_id p"
      then have "q = ?p" using unique_pending [OF ok assms(3), of q ?p] p that some(2,4) subsetD [OF set_remove_at, of q k]
        unfolding u_def by simp
      then have "pe_response_tx ?p \<in> pe_response_tx ` set (remove_at k (u_pending u))" using that some(4) by auto
      then show False using w some(1) unfolding calls_def u_def by (simp add: senders_ok_def distinct_removed)
    qed
    then have "find_index (\<lambda>r. pe_req_id r = cs_req_id p) (u_pending u') = None" by (simp add: find_index_None)
    then have again: "fst (cmd_send_response al ev' p u') = to_errno ENOENT" by (simp add: cmd_send_response_def)
    from some(5,6) have "case x of None \<Rightarrow> r < 0 | Some resp \<Rightarrow> r = 0 \<and> rs_status resp = StatusCode (cs_status_code p)
        \<and> kv_list (rs_body resp) = (if cs_body_len p > 0 \<and> cs_buf_addr p \<noteq> 0
             then user_slice ev (cs_buf_addr p) (unat (cs_body_len p)) else [])"
      using response_body_spec [OF assms(1)]
      by (auto simp: empty_response_def split: option.splits sum.splits)
    moreover have "bg_chan (calls ! pe_response_tx ?p) = ChOpen" using s(2) by (simp add: held_def)
    ultimately show ?thesis unfolding run some(3) case_prod_conv option.case using wait s(1,3) once again by blast
  qed
qed

text \<open>
  C8. RECV_REQUEST hands user space the requests the server parsed.  After any
  interleaving of commands, HTTP requests and cancelled connections (fewer than
  2^64 requests in all), no queue holds more than its limit, and a command that
  succeeds delivers the oldest request of the queue, which is the request of a
  call of the bridge that has enqueued it and leaves the queues for good: the
  buffer holds its serialised form, cut at the buffer's length, and when the
  buffer is large enough its bytes decode to the id, method, version, path,
  headers and body of that call's request.
\<close>

theorem uring_delivers:
  assumes "al_ok al" "reachable (world_step al) world_new w" "length (w_calls w) < 2 ^ 64"
    and "\<forall>b \<in> set (w_calls w). fits_fields (bg_req b)"
    and "cmd_recv_request ev p (w_uring w) = (r, bs, u)" "ev_left ev = 0" "0 \<le> r"
  shows "(\<forall>(_, q) \<in> set (u_queues (w_uring w)). length (q_buffered q) \<le> unat (q_max_pending q))
    \<and> (\<exists>t < length (w_calls w). \<exists>i. call_id (w_calls w ! t) = Some i \<and> pc_past (bg_pc (w_calls w ! t))
        \<and> i \<in> set (queued (w_uring w)) \<and> i \<notin> set (queued u)
        \<and> (\<exists>q rest. (cr_queue_id p, q) \<in> set (u_queues (w_uring w)) \<and> map bf_req_id (q_buffered q) = i # rest)
        \<and> bs = take (unat (cr_buf_len p)) (serial_text i (bg_req (w_calls w ! t)))
        \<and> (length (serial_text i (bg_req (w_calls w ! t))) \<le> unat (cr_buf_len p) \<longrightarrow>
             decode bs = Some (decoded_request i (bg_req (w_calls w ! t)))))"
proof -
  note ok = uw.reached [OF assms(2), unfolded world_ok_def]
  have "\<forall>(_, q) \<in> set (u_queues (w_uring w)). length (q_buffered q) \<le> unat (q_max_pending q)"
    using ok by (auto simp: queues_ok_def queue_ok_def)
  moreover have "\<exists>t < length (w_calls w). \<exists>i. call_id (w_calls w ! t) = Some i \<and> pc_past (bg_pc (w_calls w ! t))
        \<and> i \<in> set (queued (w_uring w)) \<and> i \<notin> set (queued u)
        \<and> (\<exists>q rest. (cr_queue_id p, q) \<in> set (u_queues (w_uring w)) \<and> map bf_req_id (q_buffered q) = i # rest)
        \<and> bs = take (unat (cr_buf_len p)) (serial_text i (bg_req (w_calls w ! t)))
        \<and> (length (serial_text i (bg_req (w_calls w ! t))) \<le> unat (cr_buf_len p) \<longrightarrow>
             decode bs = Some (decoded_request i (bg_req (w_calls w ! t))))"
    using assms(5)
  proof (cases rule: recv_cases)
    case none
    then show ?thesis using assms(7) by simp
  next
    case (some k j q b rest)
    let ?i = "bf_req_id b"
    have q: "(j, q) \<in> set (u_queues (w_uring w))" using some(1,2) by (metis nth_mem)
    then obtain c where c: "c \<in> set (w_calls w)" "call_id c = Some ?i" "pc_past (bg_pc c)"
        "serialize_request al ?i (bg_req c) = Inr (bf_data b)"
      using ok some(4) by (fastforce simp: queues_ok_def queue_ok_def)
    then obtain t where t: "t < length (w_calls w)" "w_calls w ! t = c" by (auto simp: in_set_conv_nth)
    note data = serialize_decodes [OF assms(1) assms(4) [rule_format, OF c(1)] c(4)]
    have "bs = take (unat (cr_buf_len p)) (serial_text ?i (bg_req c))" using some(7) assms(6) data(2) by simp
    moreover have "distinct (?i # queued u)" "?i \<in> set (queued (w_uring w))"
      using recv_queued [OF some(1,2,4)] ok assms(3) mset_eq_imp_distinct_iff [of "?i # queued u" "queued (w_uring w)"]
      unfolding some(6) by (auto dest!: arg_cong [of _ _ set_mset])
    ultimately show ?thesis using t c(2,3) q some(3,4) data(2,3) by (intro exI [of _ t]) auto
  qed
  ultimately show ?thesis ..
qed


section \<open>Demonstrations\<close>

definition demo_env :: uring_env where
  "demo_env = \<lparr>ev_room = True, ev_grow = True, ev_left = 0, ev_mem = (\<lambda>a. if a = 16 then CHR ''/'' else CHR ''*''),
     ev_executor = True, ev_bridge = True, ev_server = Inr ()\<rparr>"

definition demo_setup :: "uring_label list" where
  "demo_setup = [Cmd demo_env 2 (replicate 8 (CHR 0x00)),
     Cmd demo_env 4 (map char_of [1 :: nat, 0, 0, 0, 2, 0, 0, 0, 16, 0, 0, 0, 0, 0, 0, 0])]"

definition demo_ready :: uring_handler where
  "demo_ready = uring_new\<lparr>u_queues := [(1, \<lparr>q_id = 1, q_max_pending = 256, q_buffered = []\<rparr>)],
     u_routes := [(''/*'', 1)], u_next_queue_id := 2\<rparr>"

lemma field_at_bytes: "field_at i n (map char_of (ds :: nat list)) = le_val (map (\<lambda>d. d mod 256) (take n (drop i ds)))"
  by (simp add: field_at_def take_map drop_map o_def)

lemma demo_setup_run: "run (world_step al) world_new demo_setup = Some \<lparr>w_uring = demo_ready, w_calls = []\<rparr>"
proof -
  have "get_max_pending (replicate 8 (CHR 0x00)) = 0" by (simp add: get_max_pending_def field_at_def numeral_eq_Suc)
  moreover have "get_url (map char_of [1 :: nat, 0, 0, 0, 2, 0, 0, 0, 16, 0, 0, 0, 0, 0, 0, 0])
      = \<lparr>cu_queue_id = 1, cu_url_len = 2, cu_url_addr = 16\<rparr>"
    unfolding get_url_def field_at_bytes by simp
  moreover have "user_slice demo_env 16 2 = ''/*''" by (simp add: user_slice_def demo_env_def upt_rec)
  moreover have "sort_routes [r] = [r]" for r by (simp add: sort_routes_def)
  moreover have "ev_room demo_env" "ev_grow demo_env" by (simp_all add: demo_env_def)
  ultimately show ?thesis
    by (simp add: demo_setup_def world_new_def uring_new_def demo_ready_def dispatch_def cmd_create_queue_def
        cmd_add_url_def del: list.map)
qed

theorem uring_routes_refine_witness:
  "\<exists>w. run (world_step demo_al) world_new demo_setup = Some w \<and> route (w_uring w) ''/index'' = Some 1
     \<and> longest_match (route_map (w_uring w)) ''/index'' ''/*''"
proof -
  let ?w = "\<lparr>w_uring = demo_ready, w_calls = []\<rparr>"
  have "route (w_uring ?w) ''/index'' = Some 1" by (simp add: route_def demo_ready_def url_matches_def)
  moreover have "dom (route_map (w_uring ?w)) = {''/*''}" by (auto simp: route_map_def demo_ready_def split: if_splits)
  ultimately show ?thesis
    using uring_routes_refine [OF run_reachable [OF demo_setup_run [of demo_al]], of "''/index''"] demo_setup_run [of demo_al]
    by (auto simp: longest_match_def)
qed

definition demo_calls :: "uring_label list" where
  "demo_calls = [Arrive demo_request, Call 0 demo_env, Call 0 demo_env, Call 0 demo_env, Call 0 demo_env, Call 0 demo_env,
     Call 0 demo_env]"

lemma demo_calls_run:
  assumes "serialize_request al 1 demo_request = Inr d"
  shows "run (world_step al) world_new (demo_setup @ demo_calls) = Some
    \<lparr>w_uring = demo_ready\<lparr>u_next_req_id := 2, u_pending := [\<lparr>pe_req_id = 1, pe_response_tx = 0\<rparr>],
        u_queues := [(1, \<lparr>q_id = 1, q_max_pending = 256, q_buffered = [\<lparr>bf_req_id = 1, bf_data = d\<rparr>]\<rparr>)]\<rparr>,
      w_calls = [\<lparr>bg_req = demo_request, bg_pc = BWait 1, bg_chan = ChOpen\<rparr>]\<rparr>"
proof -
  have "route u path = Some 1" if "u_routes u = [(''/*'', 1)]" for u path
    using that by (simp add: route_def url_matches_def)
  then show ?thesis unfolding run_append demo_setup_run demo_calls_def
    using assms by (simp add: bridge_step_def alloc_req_id_def enqueue_pending_def
        enqueue_buffered_def demo_ready_def demo_env_def uring_new_def)
qed

lemma demo_serialized: "\<exists>d. serialize_request demo_al 1 demo_request = Inr d" "fits_fields demo_request"
proof -
  show "fits_fields demo_request"
    by (simp add: fits_fields_def demo_request_def)
  then show "\<exists>d. serialize_request demo_al 1 demo_request = Inr d" using serialize_succeeds [OF demo_al_total] by blast
qed

theorem uring_replies_witness:
  "\<exists>w resp u. run (world_step demo_al) world_new (demo_setup @ demo_calls) = Some w
     \<and> cmd_send_response demo_al demo_env \<lparr>cs_req_id = 1, cs_status_code = 200, cs_header_count = 0, cs_body_len = 0, cs_buf_addr = 0\<rparr>
         (w_uring w) = (0, Some (0, Some resp), u)
     \<and> rs_status resp = StatusCode 200 \<and> kv_list (rs_body resp) = []"
proof -
  obtain d where d: "serialize_request demo_al 1 demo_request = Inr d" using demo_serialized(1) by blast
  note run = demo_calls_run [OF d]
  let ?p = "\<lparr>cs_req_id = 1, cs_status_code = 200, cs_header_count = 0, cs_body_len = 0, cs_buf_addr = 0\<rparr>"
  show ?thesis
    using uring_replies [OF demo_al_ok run_reachable [OF run], where t = 0 and i = 1 and ev = demo_env and p = ?p] run
    by (auto simp: cmd_send_response_def response_body_def demo_ready_def sb_body_def sb_new_def sb_set_status_def)
qed

theorem uring_delivers_witness:
  "\<exists>w r bs u. run (world_step demo_al) world_new (demo_setup @ demo_calls) = Some w
     \<and> cmd_recv_request demo_env \<lparr>cr_queue_id = 1, cr_buf_len = 4096, cr_buf_addr = 0\<rparr> (w_uring w) = (r, bs, u)
     \<and> decode bs = Some (decoded_request 1 demo_request) \<and> 1 \<notin> set (queued u)"
proof -
  obtain d where d: "serialize_request demo_al 1 demo_request = Inr d" using demo_serialized(1) by blast
  note run = demo_calls_run [OF d]
  let ?p = "\<lparr>cr_queue_id = 1, cr_buf_len = 4096, cr_buf_addr = 0\<rparr>"
  have len: "length (serial_text 1 demo_request) = 31"
    by (simp add: serial_text_def Let_def demo_request_def headers_size_def)
  have list: "length (kv_list d) = 31" using serialize_decodes(2) [OF demo_al_ok demo_serialized(2) d] len by simp
  show ?thesis
    using uring_delivers [OF demo_al_ok run_reachable [OF run], of demo_env ?p 31 "kv_list d"] run len list demo_serialized(2)
    by (auto simp: cmd_recv_request_def Let_def demo_ready_def demo_env_def less_Suc_eq)
qed

end
