(* ===== verification/Sync_Prims.thy ===== *)
theory Sync_Prims
  imports Interleaving
begin

text \<open>
  The synchronisation primitives of \<open>rko-core/src/sync\<close> and
  \<open>rko-core/src/revocable.rs\<close>: the try-only lock \<open>NoWaitLock\<close>, the
  reference count under \<open>Arc\<close>, and \<open>AsyncRevocable\<close>.  Every atomic
  access is a step of its own; compare-and-exchange in its weak form may fail
  for no reason.
\<close>

unbundle bit_operations_syntax

text \<open>An atomic compare-and-exchange: whether it succeeded, and the new value.\<close>

definition compare_exchange :: "'w \<Rightarrow> 'w \<Rightarrow> 'w \<Rightarrow> bool \<times> 'w" where
  "compare_exchange old new cur = (if cur = old then (True, new) else (False, cur))"


section \<open>The try-only lock\<close>

definition UNLOCKED :: "8 word" where "UNLOCKED = 0"
definition LOCKED :: "8 word" where "LOCKED = 1"
definition LOCKED_CONTENDED :: "8 word" where "LOCKED_CONTENDED = 2"

lemma nw_distinct [simp]:
  "UNLOCKED \<noteq> LOCKED" "UNLOCKED \<noteq> LOCKED_CONTENDED" "LOCKED \<noteq> LOCKED_CONTENDED"
  "LOCKED \<noteq> UNLOCKED" "LOCKED_CONTENDED \<noteq> UNLOCKED" "LOCKED_CONTENDED \<noteq> LOCKED"
  by (simp_all add: UNLOCKED_def LOCKED_def LOCKED_CONTENDED_def)

definition try_lock_fast :: "8 word \<Rightarrow> bool \<times> 8 word" where
  "try_lock_fast = compare_exchange UNLOCKED LOCKED"

definition try_lock_slow :: "8 word \<Rightarrow> 8 word" where
  "try_lock_slow state = snd (compare_exchange LOCKED LOCKED_CONTENDED state)"

definition nw_unlock :: "8 word \<Rightarrow> bool \<times> 8 word" where
  "nw_unlock prev = (prev = LOCKED_CONTENDED, UNLOCKED)"

text \<open>
  Threads that use one lock.  \<open>nw_missed\<close> remembers whether an attempt has
  failed since the lock was taken, and \<open>nw_log\<close> what each unlock returned
  beside it; neither is part of the code.
\<close>

datatype nw_pc = NwOut | NwSlow | NwHeld

record nw =
  nw_state :: "8 word"
  nw_pcs :: "nw_pc list"
  nw_missed :: bool
  nw_log :: "(bool \<times> bool) list"

datatype nw_label = TryLock nat | TrySlow nat | Unlock nat

fun nw_step :: "nw \<Rightarrow> nw_label \<Rightarrow> nw option" where
  "nw_step s (TryLock t) =
     (if t < length (nw_pcs s) \<and> nw_pcs s ! t = NwOut
      then (case try_lock_fast (nw_state s) of
              (True, state) \<Rightarrow> Some (s\<lparr>nw_state := state, nw_pcs := (nw_pcs s)[t := NwHeld], nw_missed := False\<rparr>)
            | (False, state) \<Rightarrow> Some (s\<lparr>nw_state := state, nw_pcs := (nw_pcs s)[t := NwSlow]\<rparr>))
      else None)"
| "nw_step s (TrySlow t) =
     (if t < length (nw_pcs s) \<and> nw_pcs s ! t = NwSlow
      then Some (s\<lparr>nw_state := try_lock_slow (nw_state s), nw_pcs := (nw_pcs s)[t := NwOut],
                   nw_missed := (nw_missed s \<or> nw_state s \<noteq> UNLOCKED)\<rparr>)
      else None)"
| "nw_step s (Unlock t) =
     (if t < length (nw_pcs s) \<and> nw_pcs s ! t = NwHeld
      then (case nw_unlock (nw_state s) of
              (r, state) \<Rightarrow> Some (s\<lparr>nw_state := state, nw_pcs := (nw_pcs s)[t := NwOut], nw_missed := False,
                               nw_log := nw_log s @ [(r, nw_missed s)]\<rparr>))
      else None)"

definition nw_init :: "nat \<Rightarrow> nw" where
  "nw_init n = \<lparr>nw_state = UNLOCKED, nw_pcs = replicate n NwOut, nw_missed = False, nw_log = []\<rparr>"

definition nw_ok :: "nw \<Rightarrow> bool" where
  "nw_ok s \<longleftrightarrow> nw_state s = (if at (nw_pcs s) NwHeld = 0 then UNLOCKED
       else if nw_missed s then LOCKED_CONTENDED else LOCKED)
     \<and> at (nw_pcs s) NwHeld \<le> 1 \<and> (nw_missed s \<longrightarrow> at (nw_pcs s) NwHeld = 1)
     \<and> list_all (\<lambda>(r, m). r = m) (nw_log s)"

lemma at_replicate [simp]: "at (replicate n p) q = (if p = q then n else 0)"
  by (induction n) auto

lemma nw_step_ok: "nw_ok s \<Longrightarrow> nw_step s l = Some s' \<Longrightarrow> nw_ok s'"
proof (cases l)
  case (TryLock t)
  assume *: "nw_ok s" "nw_step s l = Some s'"
  then have t: "t < length (nw_pcs s)" "nw_pcs s ! t = NwOut" using TryLock by (auto split: if_splits)
  from * TryLock show ?thesis
    by (auto simp: nw_ok_def try_lock_fast_def compare_exchange_def at_moved [OF t] split: if_splits)
next
  case (TrySlow t)
  assume *: "nw_ok s" "nw_step s l = Some s'"
  then have t: "t < length (nw_pcs s)" "nw_pcs s ! t = NwSlow" using TrySlow by (auto split: if_splits)
  from * TrySlow show ?thesis
    by (auto simp: nw_ok_def try_lock_slow_def compare_exchange_def at_moved [OF t] split: if_splits)
next
  case (Unlock t)
  assume *: "nw_ok s" "nw_step s l = Some s'"
  then have t: "t < length (nw_pcs s)" "nw_pcs s ! t = NwHeld" using Unlock by (auto split: if_splits)
  from * Unlock at_pos [OF t] show ?thesis
    by (auto simp: nw_ok_def nw_unlock_def at_moved [OF t] split: if_splits)
qed

lemma nw_init_ok: "nw_ok (nw_init n)"
  by (simp add: nw_ok_def nw_init_def)

interpretation nw: kept nw_step "nw_init n" nw_ok
  by unfold_locales (fact nw_init_ok, fact nw_step_ok)

text \<open>
  However threads interleave on a \<open>NoWaitLock\<close>, at most one holds it,
  and \<open>unlock\<close> reports contention exactly when some attempt has failed for
  good while the lock was held.
\<close>

theorem nowait_lock_exclusive:
  assumes "reachable nw_step (nw_init n) s"
  shows "(\<forall>t u. t < length (nw_pcs s) \<longrightarrow> u < length (nw_pcs s) \<longrightarrow>
      nw_pcs s ! t = NwHeld \<longrightarrow> nw_pcs s ! u = NwHeld \<longrightarrow> t = u)
    \<and> (nw_state s = UNLOCKED \<longleftrightarrow> NwHeld \<notin> set (nw_pcs s))
    \<and> list_all (\<lambda>(returned, missed). returned = missed) (nw_log s)"
proof -
  have ok: "nw_ok s" using nw.reached [OF assms] .
  then have "at (nw_pcs s) NwHeld \<le> 1" by (simp add: nw_ok_def)
  then show ?thesis using ok at_two [of "nw_pcs s" NwHeld]
    by (auto simp: nw_ok_def count_list_0_iff split: if_splits)
qed

theorem nowait_lock_exclusive_witness:
  "\<exists>s. run nw_step (nw_init 2) [TryLock 0, TryLock 1, TrySlow 1, Unlock 0] = Some s
     \<and> nw_log s = [(True, True)] \<and> (nw_state s = UNLOCKED \<longleftrightarrow> NwHeld \<notin> set (nw_pcs s))"
proof -
  obtain s where s: "run nw_step (nw_init 2) [TryLock 0, TryLock 1, TrySlow 1, Unlock 0] = Some s"
    "nw_log s = [(True, True)]"
    by (simp add: nw_init_def numeral_2_eq_2 try_lock_fast_def try_lock_slow_def nw_unlock_def compare_exchange_def)
  then show ?thesis using nowait_lock_exclusive [OF run_reachable [OF s(1)]] by blast
qed


section \<open>The reference count of Arc\<close>

definition refcount_inc :: "32 word \<Rightarrow> 32 word" where
  "refcount_inc refs = refs + 1"

definition dec_and_test :: "32 word \<Rightarrow> bool \<times> 32 word" where
  "dec_and_test refs = (refs = 1, refs - 1)"

text \<open>
  Owners of one allocation.  An owner holds one reference; \<open>clone\<close> gives a
  reference to a slot without one, and dropping the last frees the allocation
  in a later step.
\<close>

datatype arc_pc = ArcNone | ArcOwned | ArcFreeing

record arc =
  arc_refs :: "32 word"
  arc_pcs :: "arc_pc list"
  arc_freed :: nat

datatype arc_label = ArcClone nat nat | ArcDrop nat | ArcFree nat

definition arc_clone :: "arc \<Rightarrow> nat \<Rightarrow> nat \<Rightarrow> arc option" where
  "arc_clone s t u =
     (if t < length (arc_pcs s) \<and> u < length (arc_pcs s) \<and> arc_pcs s ! t = ArcOwned \<and> arc_pcs s ! u = ArcNone
      then Some (s\<lparr>arc_refs := refcount_inc (arc_refs s), arc_pcs := (arc_pcs s)[u := ArcOwned]\<rparr>) else None)"

definition arc_drop :: "arc \<Rightarrow> nat \<Rightarrow> arc option" where
  "arc_drop s t =
     (if t < length (arc_pcs s) \<and> arc_pcs s ! t = ArcOwned
      then (case dec_and_test (arc_refs s) of
              (is_zero, refs) \<Rightarrow> Some (s\<lparr>arc_refs := refs, arc_pcs := (arc_pcs s)[t := if is_zero then ArcFreeing else ArcNone]\<rparr>))
      else None)"

declare arc_clone_def [simp] arc_drop_def [simp]

fun arc_step :: "arc \<Rightarrow> arc_label \<Rightarrow> arc option" where
  "arc_step s (ArcClone t u) = arc_clone s t u"
| "arc_step s (ArcDrop t) = arc_drop s t"
| "arc_step s (ArcFree t) =
     (if t < length (arc_pcs s) \<and> arc_pcs s ! t = ArcFreeing
      then Some (s\<lparr>arc_pcs := (arc_pcs s)[t := ArcNone], arc_freed := arc_freed s + 1\<rparr>) else None)"

text \<open>\<open>Arc::new\<close>: the first slot owns the one reference.\<close>

definition arc_new :: "nat \<Rightarrow> arc" where
  "arc_new n = \<lparr>arc_refs = 1, arc_pcs = ArcOwned # replicate n ArcNone, arc_freed = 0\<rparr>"

definition arc_ok :: "nat \<Rightarrow> arc \<Rightarrow> bool" where
  "arc_ok n s \<longleftrightarrow> length (arc_pcs s) = Suc n \<and> unat (arc_refs s) = at (arc_pcs s) ArcOwned
     \<and> arc_freed s + at (arc_pcs s) ArcFreeing = (if at (arc_pcs s) ArcOwned = 0 then 1 else 0)"

lemma at_add_le: "p \<noteq> q \<Longrightarrow> at ps p + at ps q \<le> length ps"
  by (induction ps) auto

lemma arc_step_ok:
  assumes "Suc n < 2 ^ 32" "arc_ok n s" "arc_step s l = Some s'"
  shows "arc_ok n s'"
proof (cases l)
  case (ArcClone t u)
  then have u: "t < length (arc_pcs s)" "arc_pcs s ! t = ArcOwned" "u < length (arc_pcs s)" "arc_pcs s ! u = ArcNone"
    using assms(3) by (auto split: if_splits)
  have "at (arc_pcs s) ArcOwned + at (arc_pcs s) ArcNone \<le> Suc n"
    using at_add_le [of ArcOwned ArcNone "arc_pcs s"] assms(2) by (simp add: arc_ok_def)
  then have "unat (arc_refs s + 1) = Suc (unat (arc_refs s))"
    using at_pos [OF u(3,4)] assms(1,2) by (simp add: arc_ok_def unat_word_ariths)
  with u ArcClone assms(2,3) at_pos [OF u(1,2)] show ?thesis
    by (auto simp: arc_ok_def refcount_inc_def at_moved [OF u(3,4)] split: if_splits)
next
  case (ArcDrop t)
  then have t: "t < length (arc_pcs s)" "arc_pcs s ! t = ArcOwned" using assms(3) by (auto split: if_splits)
  have pos: "0 < unat (arc_refs s)" using at_pos [OF t] assms(2) by (simp add: arc_ok_def)
  then have "unat (arc_refs s - 1) = unat (arc_refs s) - 1" by (simp add: unat_minus_one unat_gt_0)
  moreover have "arc_refs s = 1 \<longleftrightarrow> unat (arc_refs s) = 1" by (simp add: word_unat_eq_iff)
  ultimately show ?thesis using t ArcDrop assms(2,3) pos
    by (auto simp: arc_ok_def dec_and_test_def at_moved [OF t] split: if_splits)
next
  case (ArcFree t)
  then have t: "t < length (arc_pcs s)" "arc_pcs s ! t = ArcFreeing" using assms(3) by (auto split: if_splits)
  then show ?thesis using ArcFree assms(2,3) at_pos [OF t]
    by (auto simp: arc_ok_def at_moved [OF t] split: if_splits)
qed

lemma arc_new_ok: "arc_ok n (arc_new n)"
  by (simp add: arc_ok_def arc_new_def)

interpretation arc: kept arc_step "arc_new n" "\<lambda>s. Suc n < 2 ^ 32 \<longrightarrow> arc_ok n s"
  by unfold_locales (metis arc_new_ok, metis arc_step_ok)

text \<open>
  As long as fewer than \<open>2\<^sup>3\<^sup>2\<close> references can exist at once, an
  allocation is alive while anybody owns it, it is freed at most once, and it
  has been freed, or is about to be, as soon as nobody owns it.
\<close>

theorem arc_frees_once:
  assumes "Suc n < 2 ^ 32" "reachable arc_step (arc_new n) s"
  shows "(ArcOwned \<in> set (arc_pcs s) \<longrightarrow> arc_freed s = 0 \<and> ArcFreeing \<notin> set (arc_pcs s))
    \<and> arc_freed s \<le> 1
    \<and> (set (arc_pcs s) = {ArcNone} \<longrightarrow> arc_freed s = 1)"
proof -
  have ok: "arc_ok n s" using arc.reached [OF assms(2)] assms(1) by simp
  show ?thesis
  proof (intro conjI impI)
    assume "ArcOwned \<in> set (arc_pcs s)"
    then have "at (arc_pcs s) ArcOwned \<noteq> 0" by (simp add: count_list_0_iff)
    then have "arc_freed s + at (arc_pcs s) ArcFreeing = 0" using ok by (simp add: arc_ok_def)
    then show "arc_freed s = 0" "ArcFreeing \<notin> set (arc_pcs s)" by (simp_all add: count_list_0_iff)
  next
    show "arc_freed s \<le> 1" using ok by (simp add: arc_ok_def split: if_splits)
  next
    assume "set (arc_pcs s) = {ArcNone}"
    then have "at (arc_pcs s) ArcOwned = 0" "at (arc_pcs s) ArcFreeing = 0" by (simp_all add: count_list_0_iff)
    then show "arc_freed s = 1" using ok by (simp add: arc_ok_def)
  qed
qed

theorem arc_frees_once_witness:
  "\<exists>s. run arc_step (arc_new 1) [ArcClone 0 1, ArcDrop 0, ArcDrop 1, ArcFree 1] = Some s
     \<and> set (arc_pcs s) = {ArcNone} \<and> arc_freed s \<le> 1"
proof -
  obtain s where s: "run arc_step (arc_new 1) [ArcClone 0 1, ArcDrop 0, ArcDrop 1, ArcFree 1] = Some s"
    "set (arc_pcs s) = {ArcNone}"
    by (simp add: arc_new_def refcount_inc_def dec_and_test_def)
  then show ?thesis using arc_frees_once [OF _ run_reachable [OF s(1)]] by auto
qed


section \<open>The revocable wrapper\<close>

definition REVOKED_BIT :: "32 word" where "REVOKED_BIT = push_bit 31 1"

definition is_revoked :: "32 word \<Rightarrow> bool" where
  "is_revoked val \<longleftrightarrow> val AND REVOKED_BIT \<noteq> 0"

text \<open>
  Threads that use one wrapper: trying to get a guard (a load, then a
  compare-and-exchange that starts over when it fails), holding one, or on
  the point of dropping the value.  \<open>rv_drops\<close> counts how often the value
  was dropped.
\<close>

datatype rv_pc = RvOut | RvLoaded "32 word" | RvGuard | RvDropping

record rv =
  usage_count :: "32 word"
  rv_pcs :: "rv_pc list"
  rv_drops :: nat

datatype rv_label = AccessLoad nat | AccessCas nat bool | DropGuard nat | Revoke nat | DropValue nat

definition rv_goto :: "rv \<Rightarrow> nat \<Rightarrow> rv_pc \<Rightarrow> rv" where
  "rv_goto s t p = s\<lparr>rv_pcs := (rv_pcs s)[t := p]\<rparr>"

definition rv_at :: "rv \<Rightarrow> nat \<Rightarrow> rv_pc \<Rightarrow> bool" where
  "rv_at s t p \<longleftrightarrow> t < length (rv_pcs s) \<and> rv_pcs s ! t = p"

definition rv_load :: "rv \<Rightarrow> nat \<Rightarrow> rv option" where
  "rv_load s t =
     (if rv_at s t RvOut
      then Some (if is_revoked (usage_count s) then s else rv_goto s t (RvLoaded (usage_count s))) else None)"

definition rv_cas :: "rv \<Rightarrow> nat \<Rightarrow> bool \<Rightarrow> rv option" where
  "rv_cas s t spurious =
     (if t < length (rv_pcs s)
      then (case rv_pcs s ! t of
              RvLoaded val \<Rightarrow>
                (if spurious then Some (rv_goto s t RvOut)
                 else case compare_exchange val (val + 1) (usage_count s) of
                        (True, c) \<Rightarrow> Some (rv_goto (s\<lparr>usage_count := c\<rparr>) t RvGuard)
                      | (False, c) \<Rightarrow> Some (rv_goto s t RvOut))
            | _ \<Rightarrow> None)
      else None)"

definition rv_drop_guard :: "rv \<Rightarrow> nat \<Rightarrow> rv option" where
  "rv_drop_guard s t =
     (if rv_at s t RvGuard
      then let prev = usage_count s; s1 = s\<lparr>usage_count := prev - 1\<rparr>
           in Some (rv_goto s1 t (if prev = (REVOKED_BIT OR 1) then RvDropping else RvOut)) else None)"

definition rv_revoke :: "rv \<Rightarrow> nat \<Rightarrow> rv option" where
  "rv_revoke s t =
     (if rv_at s t RvOut
      then let prev = usage_count s; s1 = s\<lparr>usage_count := prev OR REVOKED_BIT\<rparr>
           in Some (if is_revoked prev then s1 else if prev = 0 then rv_goto s1 t RvDropping else s1) else None)"

declare rv_load_def [simp] rv_cas_def [simp] rv_drop_guard_def [simp] rv_revoke_def [simp]

fun rv_step :: "rv \<Rightarrow> rv_label \<Rightarrow> rv option" where
  "rv_step s (AccessLoad t) = rv_load s t"
| "rv_step s (AccessCas t spurious) = rv_cas s t spurious"
| "rv_step s (DropGuard t) = rv_drop_guard s t"
| "rv_step s (Revoke t) = rv_revoke s t"
| "rv_step s (DropValue t) =
     (if rv_at s t RvDropping then Some (rv_goto (s\<lparr>rv_drops := rv_drops s + 1\<rparr>) t RvOut) else None)"

definition rv_new :: "nat \<Rightarrow> rv" where
  "rv_new n = \<lparr>usage_count = 0, rv_pcs = replicate n RvOut, rv_drops = 0\<rparr>"

text \<open>Dropping the wrapper itself, when no thread uses it any more: how often the value has been dropped then.\<close>

definition rv_drop :: "rv \<Rightarrow> nat" where
  "rv_drop s = (if is_revoked (usage_count s) then rv_drops s else rv_drops s + 1)"

lemma REVOKED_BIT_exp: "REVOKED_BIT = 2 ^ 31"
  by (simp add: REVOKED_BIT_def)

lemma is_revoked_bit: "is_revoked w \<longleftrightarrow> bit w 31"
  unfolding is_revoked_def REVOKED_BIT_exp by (simp only: and_exp_eq_0_iff_not_bit not_not)

lemma bit_REVOKED_BIT: "bit REVOKED_BIT n \<longleftrightarrow> n = 31"
  unfolding REVOKED_BIT_exp by (simp only: bit_exp_iff possible_bit_word) auto

lemma is_revoked_iff: "is_revoked w \<longleftrightarrow> 2 ^ 31 \<le> unat w"
proof -
  have "bit (unat w) 31 \<longleftrightarrow> bit w 31" by (simp add: bit_unsigned_iff)
  then have "is_revoked w \<longleftrightarrow> odd (unat w div 2 ^ 31)" by (simp only: is_revoked_bit bit_iff_odd [of "unat w"])
  moreover have "unat w < 2 ^ 32" using unsigned_less [of w] by simp
  then have "unat w div 2 ^ 31 < 2" by (simp add: less_mult_imp_div_less)
  moreover have "odd x \<longleftrightarrow> x \<noteq> 0" if "x < 2" for x :: nat using that by presburger
  ultimately show ?thesis by (simp add: div_greater_zero_iff)
qed

lemma revoke_bit:
  assumes "unat w < 2 ^ 31"
  shows "unat (w OR REVOKED_BIT) = unat w + 2 ^ 31"
proof -
  have "\<not> bit w 31" using assms is_revoked_iff [of w] is_revoked_bit by auto
  then have "w OR REVOKED_BIT = w + REVOKED_BIT"
    by (subst disjunctive_add) (auto simp: bit_REVOKED_BIT)
  moreover have "unat REVOKED_BIT = 2 ^ 31" by (simp add: REVOKED_BIT_def)
  ultimately show ?thesis using assms by (simp add: unat_word_ariths)
qed

lemma revoke_again: "is_revoked w \<Longrightarrow> w OR REVOKED_BIT = w"
  by (rule bit_word_eqI) (auto simp: is_revoked_bit bit_REVOKED_BIT bit_or_iff)

lemma last_guard_iff: "w = (REVOKED_BIT OR 1) \<longleftrightarrow> unat w = 2 ^ 31 + 1"
  by (simp add: word_unat_eq_iff REVOKED_BIT_def)

definition rv_ok :: "nat \<Rightarrow> rv \<Rightarrow> bool" where
  "rv_ok n s \<longleftrightarrow> length (rv_pcs s) = n
     \<and> unat (usage_count s) = at (rv_pcs s) RvGuard + (if is_revoked (usage_count s) then 2 ^ 31 else 0)
     \<and> rv_drops s + at (rv_pcs s) RvDropping
       = (if is_revoked (usage_count s) \<and> at (rv_pcs s) RvGuard = 0 then 1 else 0)
     \<and> (\<forall>v. RvLoaded v \<in> set (rv_pcs s) \<longrightarrow> unat v < 2 ^ 31)"

lemma set_update_RvLoaded:
  "RvLoaded v \<in> set (ps[t := p]) \<Longrightarrow> RvLoaded v \<in> set ps \<or> p = RvLoaded v"
  using set_update_subset_insert [of ps t p] by auto

lemma rv_load_ok:
  assumes "n < 2 ^ 31" "rv_ok n s" "rv_step s (AccessLoad t) = Some s'"
  shows "rv_ok n s'"
proof -
  show ?thesis
  proof (cases "is_revoked (usage_count s)")
    case True
    then show ?thesis using assms by (auto split: if_splits)
  next
    case False
    then have t: "t < length (rv_pcs s)" "rv_pcs s ! t = RvOut" and s': "s' = rv_goto s t (RvLoaded (usage_count s))"
      using assms(3) by (auto simp: rv_at_def split: if_splits)
    moreover have "unat (usage_count s) < 2 ^ 31" using False is_revoked_iff [of "usage_count s"] by linarith
    ultimately show ?thesis using assms(2) False
      by (auto simp: rv_ok_def rv_goto_def at_moved [OF t] dest!: set_update_RvLoaded)
  qed
qed

lemma rv_cas_ok:
  assumes "n < 2 ^ 31" "rv_ok n s" "rv_step s (AccessCas t sp) = Some s'"
  shows "rv_ok n s'"
proof -
  obtain val where t: "t < length (rv_pcs s)" "rv_pcs s ! t = RvLoaded val"
    using assms(3) by (auto split: if_splits rv_pc.splits)
  then have val: "unat val < 2 ^ 31" using assms(2) nth_mem [OF t(1)] by (auto simp: rv_ok_def)
  show ?thesis
  proof (cases "sp \<or> usage_count s \<noteq> val")
    case True
    then have "s' = rv_goto s t RvOut"
      using assms(3) t by (auto simp: compare_exchange_def split: if_splits)
    then show ?thesis using assms(2)
      by (auto simp: rv_ok_def rv_goto_def at_moved [OF t] dest!: set_update_RvLoaded)
  next
    case False
    then have s': "s' = rv_goto (s\<lparr>usage_count := val + 1\<rparr>) t RvGuard" "usage_count s = val"
      using assms(3) t by (auto simp: compare_exchange_def split: if_splits)
    have "at (rv_pcs s) RvGuard + at (rv_pcs s) (RvLoaded val) \<le> n"
      using at_add_le [of RvGuard "RvLoaded val" "rv_pcs s"] assms(2) by (simp add: rv_ok_def)
    moreover have nr: "\<not> is_revoked val" using val is_revoked_iff [of val] by linarith
    ultimately have less: "unat val + 1 < 2 ^ 31"
      using at_pos [OF t] assms(1,2) s'(2) by (auto simp: rv_ok_def)
    then have plus: "unat (val + 1) = unat val + 1" by (simp add: unat_word_ariths)
    then have "\<not> is_revoked (val + 1)" using less is_revoked_iff [of "val + 1"] by linarith
    then show ?thesis using assms(2) s' plus nr
      by (auto simp: rv_ok_def rv_goto_def at_moved [OF t] dest!: set_update_RvLoaded)
  qed
qed

lemma rv_drop_guard_ok:
  assumes "n < 2 ^ 31" "rv_ok n s" "rv_step s (DropGuard t) = Some s'"
  shows "rv_ok n s'"
proof -
  have t: "t < length (rv_pcs s)" "rv_pcs s ! t = RvGuard"
    and s': "s' = rv_goto (s\<lparr>usage_count := usage_count s - 1\<rparr>) t
      (if usage_count s = (REVOKED_BIT OR 1) then RvDropping else RvOut)"
    using assms(3) by (auto simp: rv_at_def Let_def split: if_splits)
  have pos: "0 < unat (usage_count s)" using at_pos [OF t] assms(2) by (simp add: rv_ok_def)
  then have minus: "unat (usage_count s - 1) = unat (usage_count s) - 1" by (simp add: unat_minus_one unat_gt_0)
  have small: "at (rv_pcs s) RvGuard < 2 ^ 31"
    using at_le_length [of "rv_pcs s" RvGuard] assms(1,2) by (simp add: rv_ok_def)
  have count: "unat (usage_count s) = at (rv_pcs s) RvGuard + (if is_revoked (usage_count s) then 2 ^ 31 else 0)"
    using assms(2) by (simp add: rv_ok_def)
  have last: "usage_count s = (REVOKED_BIT OR 1) \<longleftrightarrow> is_revoked (usage_count s) \<and> at (rv_pcs s) RvGuard = 1"
    using count small at_pos [OF t] last_guard_iff [of "usage_count s"] by (auto split: if_splits)
  have same: "is_revoked (usage_count s - 1) \<longleftrightarrow> is_revoked (usage_count s)"
    using count small at_pos [OF t] minus is_revoked_iff [of "usage_count s - 1"] by (auto split: if_splits)
  have "unat (usage_count s - 1) = at (rv_pcs s) RvGuard - 1 + (if is_revoked (usage_count s) then 2 ^ 31 else 0)"
    using minus count at_pos [OF t] by simp
  then show ?thesis using assms(2) s' last same at_pos [OF t]
    by (auto simp: rv_ok_def rv_goto_def at_moved [OF t] simp del: power_numeral dest!: set_update_RvLoaded)
qed

lemma rv_revoke_ok:
  assumes "n < 2 ^ 31" "rv_ok n s" "rv_step s (Revoke t) = Some s'"
  shows "rv_ok n s'"
proof -
  have t: "t < length (rv_pcs s)" "rv_pcs s ! t = RvOut" using assms(3) by (auto simp: rv_at_def split: if_splits)
  show ?thesis
  proof (cases "is_revoked (usage_count s)")
    case True
    then show ?thesis using assms(2,3) by (auto simp: Let_def revoke_again split: if_splits)
  next
    case False
    then have less: "unat (usage_count s) < 2 ^ 31" using is_revoked_iff [of "usage_count s"] by linarith
    then have or: "unat (usage_count s OR REVOKED_BIT) = at (rv_pcs s) RvGuard + 2 ^ 31"
      using revoke_bit [OF less] assms(2) False by (simp add: rv_ok_def)
    then have "is_revoked (usage_count s OR REVOKED_BIT)"
      using is_revoked_iff [of "usage_count s OR REVOKED_BIT"] by linarith
    moreover have "usage_count s = 0 \<longleftrightarrow> at (rv_pcs s) RvGuard = 0"
      using assms(2) False by (simp add: rv_ok_def flip: unat_eq_0)
    ultimately show ?thesis using assms(2,3) t False or
      by (auto simp: rv_ok_def rv_at_def rv_goto_def Let_def at_moved [OF t] dest!: set_update_RvLoaded split: if_splits)
  qed
qed

lemma rv_drop_value_ok:
  assumes "n < 2 ^ 31" "rv_ok n s" "rv_step s (DropValue t) = Some s'"
  shows "rv_ok n s'"
proof -
  have t: "t < length (rv_pcs s)" "rv_pcs s ! t = RvDropping" using assms(3) by (auto simp: rv_at_def split: if_splits)
  then show ?thesis using assms(2,3) at_pos [OF t]
    by (auto simp: rv_ok_def rv_at_def rv_goto_def at_moved [OF t] dest!: set_update_RvLoaded split: if_splits)
qed

lemma rv_step_ok:
  assumes "n < 2 ^ 31" "rv_ok n s" "rv_step s l = Some s'"
  shows "rv_ok n s'"
proof (cases l)
  case (AccessLoad t)
  then show ?thesis using rv_load_ok [OF assms(1,2)] assms(3) by blast
next
  case (AccessCas t sp)
  then show ?thesis using rv_cas_ok [OF assms(1,2)] assms(3) by blast
next
  case (DropGuard t)
  then show ?thesis using rv_drop_guard_ok [OF assms(1,2)] assms(3) by blast
next
  case (Revoke t)
  then show ?thesis using rv_revoke_ok [OF assms(1,2)] assms(3) by blast
next
  case (DropValue t)
  then show ?thesis using rv_drop_value_ok [OF assms(1,2)] assms(3) by blast
qed

lemma rv_new_ok: "rv_ok n (rv_new n)"
  by (simp add: rv_ok_def rv_new_def is_revoked_def)

interpretation rv: kept rv_step "rv_new n" "\<lambda>s. n < 2 ^ 31 \<longrightarrow> rv_ok n s"
  by unfold_locales (metis rv_new_ok, metis rv_step_ok)

lemma rv_drops_spec:
  assumes "rv_ok n s"
  shows "RvGuard \<in> set (rv_pcs s) \<Longrightarrow> rv_drops s = 0 \<and> RvDropping \<notin> set (rv_pcs s)"
    "rv_drops s \<le> 1"
    "set (rv_pcs s) \<subseteq> {RvOut} \<Longrightarrow> rv_drops s = (if is_revoked (usage_count s) then 1 else 0) \<and> rv_drop s = 1"
proof -
  assume "RvGuard \<in> set (rv_pcs s)"
  then have "at (rv_pcs s) RvGuard \<noteq> 0" by (simp add: count_list_0_iff)
  then have "rv_drops s + at (rv_pcs s) RvDropping = 0" using assms by (simp add: rv_ok_def)
  then show "rv_drops s = 0 \<and> RvDropping \<notin> set (rv_pcs s)" by (simp add: count_list_0_iff)
next
  show "rv_drops s \<le> 1" using assms by (simp add: rv_ok_def split: if_splits)
next
  assume "set (rv_pcs s) \<subseteq> {RvOut}"
  then have "at (rv_pcs s) RvGuard = 0" "at (rv_pcs s) RvDropping = 0" by (auto simp: count_list_0_iff)
  then show "rv_drops s = (if is_revoked (usage_count s) then 1 else 0) \<and> rv_drop s = 1"
    using assms by (simp add: rv_ok_def rv_drop_def)
qed

text \<open>
  C34. However threads get and drop guards and revoke an \<open>AsyncRevocable\<close>,
  the value is alive as long as anybody holds a guard, it is dropped at most
  once, and once no thread is using the wrapper any more it has been dropped
  exactly if it was revoked; dropping the wrapper then makes it exactly once.
  Fewer than \<open>2\<^sup>3\<^sup>1\<close> guards can exist at once.
\<close>

theorem revocable_drops_once:
  assumes "n < 2 ^ 31" "reachable rv_step (rv_new n) s"
  shows "(RvGuard \<in> set (rv_pcs s) \<longrightarrow> rv_drops s = 0 \<and> RvDropping \<notin> set (rv_pcs s))
    \<and> rv_drops s \<le> 1
    \<and> (set (rv_pcs s) \<subseteq> {RvOut} \<longrightarrow> rv_drops s = (if is_revoked (usage_count s) then 1 else 0) \<and> rv_drop s = 1)"
  using rv_drops_spec [of n s] rv.reached [OF assms(2)] assms(1) by blast

theorem revocable_drops_once_witness:
  "\<exists>s. run rv_step (rv_new 2) [AccessLoad 0, AccessCas 0 False, Revoke 1, DropGuard 0, DropValue 0] = Some s
     \<and> set (rv_pcs s) \<subseteq> {RvOut} \<and> rv_drops s \<le> 1 \<and> rv_drop s = 1"
proof -
  have two: "rv_new 2 = \<lparr>usage_count = 0, rv_pcs = [RvOut, RvOut], rv_drops = 0\<rparr>"
    by (simp add: rv_new_def numeral_2_eq_2)
  obtain s where s: "run rv_step (rv_new 2) [AccessLoad 0, AccessCas 0 False, Revoke 1, DropGuard 0, DropValue 0] = Some s"
    "set (rv_pcs s) \<subseteq> {RvOut}"
    by (simp add: two rv_at_def rv_goto_def compare_exchange_def Let_def is_revoked_def REVOKED_BIT_def)
  then show ?thesis using revocable_drops_once [OF _ run_reachable [OF s(1)]] by simp
qed

end
