(* ===== verification/Async_Task.thy ===== *)
theory Async_Task
  imports Sync_Prims
begin

text \<open>
  Tasks on a kernel workqueue: \<open>Task\<close> and \<open>WorkqueueExecutor\<close> of
  \<open>rko-core/src/kasync/executor/workqueue.rs\<close> over the work items of
  \<open>rko-core/src/workqueue.rs\<close>.  The workqueue is the kernel's: a work item
  is pending or not, queueing it when it is pending does nothing, the pending
  mark is taken off before the work function runs, the work function of one
  item never runs twice at a time, and cancelling takes the mark off and waits
  for the work function to return.  The future inside a task is wrapped in the
  revocable wrapper, whose machine is a part of the machine of the task.
\<close>

section \<open>A task\<close>

datatype run_pc = RunIdle | RunTrying | RunPolling | RunReady | RunRevoking | RunPending | RunLeaving

record task =
  tk_rv :: rv
  tk_work_pending :: bool
  tk_run :: run_pc
  tk_wakers :: nat
  tk_refs :: nat
  tk_leaked :: nat
  tk_polls :: nat
  tk_finished :: bool
  tk_late :: bool

text \<open>
  \<open>tk_wakers\<close> counts the references held by wakers, by the executor's list
  and by callers; \<open>tk_leaked\<close> those that nobody will give back.
  \<open>tk_finished\<close> and \<open>tk_late\<close> watch the polls: the future has returned
  \<open>Ready\<close>, and it was polled after that.  Thread 0 of the wrapper is the
  worker that runs the task.
\<close>

datatype tk_label =
    CloneRef | DropRef | Enqueue | Dispatch
  | WLoad | WCas bool | WPoll bool | WDropGuard | WDropValue | WRevoke | WLeave
  | OtherRevoke nat | OtherDrop nat | Cancel

definition tk_new :: task where
  "tk_new = \<lparr>tk_rv = rv_new 3, tk_work_pending = False, tk_run = RunIdle, tk_wakers = 1, tk_refs = 1,
     tk_leaked = 0, tk_polls = 0, tk_finished = False, tk_late = False\<rparr>"

definition with_rv :: "task \<Rightarrow> rv_label \<Rightarrow> (rv \<Rightarrow> run_pc) \<Rightarrow> task option" where
  "with_rv s l pc = map_option (\<lambda>rv. s\<lparr>tk_rv := rv, tk_run := pc rv\<rparr>) (rv_step (tk_rv s) l)"

text \<open>
  \<open>__enqueue\<close>: the caller's reference goes to the queue when the item was
  not pending, and comes back as an error, to be dropped, when it was.
\<close>

definition tk_enqueue :: "task \<Rightarrow> task" where
  "tk_enqueue s = (if tk_work_pending s then s\<lparr>tk_wakers := tk_wakers s - 1, tk_refs := tk_refs s - 1\<rparr>
     else s\<lparr>tk_work_pending := True, tk_wakers := tk_wakers s - 1\<rparr>)"

text \<open>The kernel calls the work function, which takes over the reference of the queue.\<close>

definition tk_dispatch :: "task \<Rightarrow> task option" where
  "tk_dispatch s = (if tk_work_pending s \<and> tk_run s = RunIdle
     then Some (s\<lparr>tk_work_pending := False, tk_run := RunTrying\<rparr>) else None)"

text \<open>\<open>flush\<close> is \<open>cancel_work_sync\<close>: it returns when the work function does not run, and takes a pending item off the queue.\<close>

definition tk_flush :: "task \<Rightarrow> task option" where
  "tk_flush s = (if tk_run s = RunIdle
     then Some (if tk_work_pending s then s\<lparr>tk_work_pending := False, tk_leaked := tk_leaked s + 1\<rparr> else s) else None)"

declare tk_dispatch_def [simp] tk_flush_def [simp]

fun tk_step :: "task \<Rightarrow> tk_label \<Rightarrow> task option" where
  "tk_step s CloneRef = (if tk_refs s > 0 then Some (s\<lparr>tk_wakers := tk_wakers s + 1, tk_refs := tk_refs s + 1\<rparr>) else None)"
| "tk_step s DropRef = (if tk_wakers s > 0 then Some (s\<lparr>tk_wakers := tk_wakers s - 1, tk_refs := tk_refs s - 1\<rparr>) else None)"
| "tk_step s Enqueue = (if tk_wakers s > 0 then Some (tk_enqueue s) else None)"
| "tk_step s Dispatch = tk_dispatch s"
| "tk_step s WLoad = (if tk_run s = RunTrying
     then with_rv s (AccessLoad 0) (\<lambda>rv. if is_revoked (usage_count rv) then RunLeaving else RunTrying) else None)"
| "tk_step s (WCas spurious) = (if tk_run s = RunTrying
     then with_rv s (AccessCas 0 spurious) (\<lambda>rv. if rv_at rv 0 RvGuard then RunPolling else RunTrying) else None)"
| "tk_step s (WPoll ready) = (if tk_run s = RunPolling
     then Some (s\<lparr>tk_polls := tk_polls s + 1, tk_late := (tk_late s \<or> tk_finished s), tk_finished := (tk_finished s \<or> ready),
                  tk_run := if ready then RunReady else RunPending\<rparr>) else None)"
| "tk_step s WDropGuard = (case tk_run s of
       RunReady \<Rightarrow> with_rv s (DropGuard 0) (\<lambda>_. RunRevoking)
     | RunPending \<Rightarrow> with_rv s (DropGuard 0) (\<lambda>_. RunLeaving)
     | _ \<Rightarrow> None)"
| "tk_step s WDropValue = with_rv s (DropValue 0) (\<lambda>_. tk_run s)"
| "tk_step s WRevoke = (if tk_run s = RunRevoking then with_rv s (Revoke 0) (\<lambda>_. RunLeaving) else None)"
| "tk_step s WLeave = (if tk_run s = RunLeaving \<and> rv_at (tk_rv s) 0 RvOut
     then Some (s\<lparr>tk_run := RunIdle, tk_refs := tk_refs s - 1\<rparr>) else None)"
| "tk_step s (OtherRevoke t) = (if 0 < t then with_rv s (Revoke t) (\<lambda>_. tk_run s) else None)"
| "tk_step s (OtherDrop t) = (if 0 < t then with_rv s (DropValue t) (\<lambda>_. tk_run s) else None)"
| "tk_step s Cancel = tk_flush s"


section \<open>What a task keeps\<close>

text \<open>The wrapper is a machine inside the task.\<close>

lemma with_rv_Some:
  "with_rv s l pc = Some s' \<longleftrightarrow> (\<exists>rv. rv_step (tk_rv s) l = Some rv \<and> s' = s\<lparr>tk_rv := rv, tk_run := pc rv\<rparr>)"
  by (auto simp: with_rv_def)

interpretation tk: contains tk_step tk_new rv_step "rv_new 3" tk_rv
proof
  show "tk_rv tk_new = rv_new 3" by (simp add: tk_new_def)
  fix s l s'
  assume "tk_step s l = Some s'"
  then show "tk_rv s' = tk_rv s \<or> (\<exists>m. rv_step (tk_rv s) m = Some (tk_rv s'))"
    by (cases l) (auto simp: with_rv_Some tk_enqueue_def simp del: rv_step.simps split: if_splits run_pc.splits)
qed

text \<open>The position of the worker in the wrapper, and the bit that stays set.\<close>

fun rv_thread :: "rv_label \<Rightarrow> nat" where
  "rv_thread (AccessLoad t) = t"
| "rv_thread (AccessCas t _) = t"
| "rv_thread (DropGuard t) = t"
| "rv_thread (Revoke t) = t"
| "rv_thread (DropValue t) = t"

lemma rv_other_thread:
  "rv_step s l = Some s' \<Longrightarrow> rv_thread l \<noteq> t \<Longrightarrow> rv_pcs s' ! t = rv_pcs s ! t"
  by (cases l) (auto simp: rv_goto_def Let_def compare_exchange_def split: if_splits rv_pc.splits)

lemma rv_drops_mono: "rv_step s l = Some s' \<Longrightarrow> rv_drops s \<le> rv_drops s'"
  by (cases l) (auto simp: rv_goto_def Let_def compare_exchange_def split: if_splits rv_pc.splits)

lemma rv_length_kept: "rv_step s l = Some s' \<Longrightarrow> length (rv_pcs s') = length (rv_pcs s)"
  by (cases l) (auto simp: rv_goto_def Let_def compare_exchange_def split: if_splits rv_pc.splits)

lemma rv_revoked_kept:
  assumes "n < 2 ^ 31" "rv_ok n s" "rv_step s l = Some s'" "is_revoked (usage_count s)"
  shows "is_revoked (usage_count s')"
proof (cases l)
  case (AccessCas t sp)
  have "unat val < 2 ^ 31" if "t < length (rv_pcs s)" "rv_pcs s ! t = RvLoaded val" for val
    using assms(2) nth_mem [OF that(1)] that(2) by (auto simp: rv_ok_def)
  then have "usage_count s \<noteq> val" if "t < length (rv_pcs s)" "rv_pcs s ! t = RvLoaded val" for val
    using that assms(4) is_revoked_iff [of val] by fastforce
  then show ?thesis using AccessCas assms(3,4)
    by (auto simp: rv_goto_def compare_exchange_def split: if_splits rv_pc.splits)
next
  case (DropGuard t)
  then have t: "t < length (rv_pcs s)" "rv_pcs s ! t = RvGuard" and "usage_count s' = usage_count s - 1"
    using assms(3) by (auto simp: rv_at_def rv_goto_def Let_def split: if_splits)
  moreover have "unat (usage_count s) = at (rv_pcs s) RvGuard + 2 ^ 31"
    using assms(2,4) by (simp add: rv_ok_def)
  moreover from this have "usage_count s \<noteq> 0" by auto
  then have "unat (usage_count s - 1) = unat (usage_count s) - 1" by (rule unat_minus_one)
  ultimately show ?thesis using at_pos [OF t] by (simp add: is_revoked_iff)
next
  case (Revoke t)
  then show ?thesis using assms(3,4) revoke_again
    by (auto simp: rv_goto_def Let_def split: if_splits)
qed (use assms(3,4) in \<open>auto simp: rv_goto_def split: if_splits\<close>)

definition worker_at :: "task \<Rightarrow> rv_pc" where
  "worker_at s = rv_pcs (tk_rv s) ! 0"

fun pos_ok :: "run_pc \<Rightarrow> rv_pc \<Rightarrow> bool \<Rightarrow> bool" where
  "pos_ok RunIdle p fin \<longleftrightarrow> p = RvOut"
| "pos_ok RunTrying p fin \<longleftrightarrow> p = RvOut \<or> (\<exists>v. p = RvLoaded v)"
| "pos_ok RunPolling p fin \<longleftrightarrow> p = RvGuard \<and> \<not> fin"
| "pos_ok RunReady p fin \<longleftrightarrow> p = RvGuard \<and> fin"
| "pos_ok RunPending p fin \<longleftrightarrow> p = RvGuard \<and> \<not> fin"
| "pos_ok RunRevoking p fin \<longleftrightarrow> (p = RvOut \<or> p = RvDropping) \<and> fin"
| "pos_ok RunLeaving p fin \<longleftrightarrow> p = RvOut \<or> p = RvDropping"

lemma pos_ok_dropped: "pos_ok r RvDropping fin \<Longrightarrow> pos_ok r RvOut fin"
  by (cases r) auto

definition tk_pos :: "task \<Rightarrow> bool" where
  "tk_pos s \<longleftrightarrow> pos_ok (tk_run s) (worker_at s) (tk_finished s)"

definition tk_ok :: "task \<Rightarrow> bool" where
  "tk_ok s \<longleftrightarrow> rv_ok 3 (tk_rv s) \<and> tk_pos s \<and> \<not> tk_late s
     \<and> (tk_finished s \<longrightarrow> tk_run s = RunReady \<or> tk_run s = RunRevoking \<or> is_revoked (usage_count (tk_rv s)))
     \<and> tk_refs s = tk_wakers s + of_bool (tk_work_pending s) + of_bool (tk_run s \<noteq> RunIdle) + tk_leaked s"

lemma tk_new_ok: "tk_ok tk_new"
  by (simp add: tk_ok_def tk_new_def tk_pos_def worker_at_def rv_new_ok) (simp add: rv_new_def)

lemma tk_rv_kept:
  assumes "tk_ok s" "tk_step s l = Some s'"
  shows "rv_ok 3 (tk_rv s')" "is_revoked (usage_count (tk_rv s)) \<Longrightarrow> is_revoked (usage_count (tk_rv s'))"
  using tk.steps [OF assms(2)] assms(1) rv_step_ok [of 3] rv_revoked_kept [of 3] by (auto simp: tk_ok_def)

lemma revoke_revokes:
  assumes "n < 2 ^ 31" "rv_ok n s" "rv_step s (Revoke t) = Some s'"
  shows "is_revoked (usage_count s')"
proof (cases "is_revoked (usage_count s)")
  case True
  then show ?thesis using rv_revoked_kept [OF assms] by simp
next
  case False
  then have "unat (usage_count s OR REVOKED_BIT) = unat (usage_count s) + 2 ^ 31"
    using revoke_bit [of "usage_count s"] is_revoked_iff [of "usage_count s"] by linarith
  moreover have "usage_count s' = (usage_count s OR REVOKED_BIT)"
    using assms(3) by (auto simp: rv_goto_def Let_def split: if_splits)
  ultimately show ?thesis by (simp add: is_revoked_iff)
qed

lemma tk_step_ok:
  assumes "tk_ok s" "tk_step s l = Some s'"
  shows "tk_ok s'"
proof -
  note kept = tk_rv_kept [OF assms]
  have len: "length (rv_pcs (tk_rv s)) = 3" using assms(1) by (simp add: tk_ok_def rv_ok_def)
  note simps = tk_ok_def tk_pos_def worker_at_def rv_at_def
  show ?thesis
  proof (cases l)
    case WLoad
    then show ?thesis using assms kept len
      by (auto simp: simps with_rv_Some rv_goto_def split: if_splits)
  next
    case (WCas sp)
    then obtain v where v: "worker_at s = RvLoaded v"
      using assms(2) len by (auto simp: worker_at_def with_rv_Some split: if_splits rv_pc.splits)
    then have "unat v < 2 ^ 31" using assms(1) len nth_mem [of 0 "rv_pcs (tk_rv s)"]
      by (auto simp: tk_ok_def rv_ok_def worker_at_def)
    then have "\<not> is_revoked v" using is_revoked_iff [of v] by linarith
    then show ?thesis using WCas assms kept len v
      by (auto simp: simps with_rv_Some rv_goto_def compare_exchange_def split: if_splits)
  next
    case WDropGuard
    then show ?thesis using assms kept len
      by (auto simp: simps with_rv_Some rv_goto_def Let_def split: if_splits run_pc.splits)
  next
    case WDropValue
    then show ?thesis using assms kept len
      by (auto simp: simps with_rv_Some rv_goto_def intro: pos_ok_dropped split: if_splits)
  next
    case WRevoke
    then obtain rv where "rv_step (tk_rv s) (Revoke 0) = Some rv" "tk_rv s' = rv"
      using assms(2) by (auto simp: with_rv_Some split: if_splits)
    then have "is_revoked (usage_count (tk_rv s'))" using revoke_revokes [of 3] assms(1) by (auto simp: tk_ok_def)
    then show ?thesis using WRevoke assms kept len
      by (auto simp: simps with_rv_Some rv_goto_def Let_def split: if_splits)
  next
    case (OtherRevoke t)
    then show ?thesis using assms kept rv_other_thread [of "tk_rv s" "Revoke t" "tk_rv s'" 0]
      by (auto simp: simps with_rv_Some simp del: rv_step.simps split: if_splits)
  next
    case (OtherDrop t)
    then show ?thesis using assms kept rv_other_thread [of "tk_rv s" "DropValue t" "tk_rv s'" 0]
      by (auto simp: simps with_rv_Some simp del: rv_step.simps split: if_splits)
  next
    case CloneRef
    then have "s' = s\<lparr>tk_wakers := tk_wakers s + 1, tk_refs := tk_refs s + 1\<rparr>"
      using assms(2) by (simp split: if_splits)
    then show ?thesis using assms(1) by (simp add: simps)
  next
    case DropRef
    then have "s' = s\<lparr>tk_wakers := tk_wakers s - 1, tk_refs := tk_refs s - 1\<rparr>" "0 < tk_wakers s"
      using assms(2) by (simp_all split: if_splits)
    then show ?thesis using assms(1) by (simp add: simps)
  qed (use assms in \<open>auto simp: simps tk_enqueue_def split: if_splits\<close>)
qed

interpretation tki: kept tk_step tk_new tk_ok
  by unfold_locales (fact tk_new_ok, fact tk_step_ok)



text \<open>A work item that is pending is polled by steps of the worker alone.\<close>

definition worker_labels :: "tk_label set" where
  "worker_labels = {Dispatch, WLoad, WCas False, WDropGuard, WLeave}"

lemma worker_out:
  assumes "tk_ok s" "tk_run s = RunIdle"
  shows "rv_at (tk_rv s) 0 RvOut"
  using assms by (auto simp: tk_ok_def tk_pos_def worker_at_def rv_at_def rv_ok_def)

lemma try_polls:
  assumes "rv_at (tk_rv s) 0 RvOut" "tk_run s = RunTrying" "\<not> is_revoked (usage_count (tk_rv s))"
  shows "\<exists>s'. run tk_step s [WLoad, WCas False] = Some s' \<and> tk_run s' = RunPolling"
  using assms by (auto simp: rv_at_def with_rv_def rv_goto_def compare_exchange_def)

lemma idle_polls:
  assumes "tk_ok s" "tk_run s = RunIdle" "tk_work_pending s" "\<not> is_revoked (usage_count (tk_rv s))"
  shows "\<exists>s'. run tk_step s [Dispatch, WLoad, WCas False] = Some s' \<and> tk_run s' = RunPolling"
  using try_polls [of "s\<lparr>tk_work_pending := False, tk_run := RunTrying\<rparr>"] worker_out [OF assms(1,2)] assms(2-4)
  by simp

lemma leaving_polls:
  assumes "tk_ok s" "tk_run s = RunLeaving" "tk_work_pending s" "\<not> is_revoked (usage_count (tk_rv s))"
  shows "\<exists>s'. run tk_step s [WLeave, Dispatch, WLoad, WCas False] = Some s' \<and> tk_run s' = RunPolling"
proof -
  have "at (rv_pcs (tk_rv s)) RvDropping = 0" "length (rv_pcs (tk_rv s)) = 3"
    using assms(1,4) by (simp_all add: tk_ok_def rv_ok_def)
  then have "rv_at (tk_rv s) 0 RvOut"
    using assms(1,2) at_pos [of 0 "rv_pcs (tk_rv s)" RvDropping]
    by (auto simp: tk_ok_def tk_pos_def worker_at_def rv_at_def)
  then have step: "tk_step s WLeave = Some (s\<lparr>tk_run := RunIdle, tk_refs := tk_refs s - 1\<rparr>)" using assms(2) by simp
  from tk_step_ok [OF assms(1) step] show ?thesis
    using idle_polls [of "s\<lparr>tk_run := RunIdle, tk_refs := tk_refs s - 1\<rparr>"] assms(3,4) step by simp
qed

lemma pending_polls:
  assumes "tk_ok s" "tk_run s = RunPending" "tk_work_pending s" "\<not> is_revoked (usage_count (tk_rv s))"
  shows "\<exists>s'. run tk_step s [WDropGuard, WLeave, Dispatch, WLoad, WCas False] = Some s' \<and> tk_run s' = RunPolling"
proof -
  have g: "rv_at (tk_rv s) 0 RvGuard" and ok: "rv_ok 3 (tk_rv s)"
    using assms(1,2) by (auto simp: tk_ok_def tk_pos_def worker_at_def rv_at_def rv_ok_def)
  obtain rv where rv: "rv_step (tk_rv s) (DropGuard 0) = Some rv" using g by (simp add: Let_def)
  have count: "usage_count rv = usage_count (tk_rv s) - 1"
    using rv g by (auto simp: rv_goto_def Let_def)
  have pos: "0 < unat (usage_count (tk_rv s))" "unat (usage_count (tk_rv s)) < 2 ^ 31"
    using ok at_pos [of 0 "rv_pcs (tk_rv s)" RvGuard] g assms(4) is_revoked_iff [of "usage_count (tk_rv s)"]
    by (auto simp: rv_ok_def rv_at_def)
  then have "usage_count (tk_rv s) \<noteq> 0" by auto
  then have "unat (usage_count rv) < 2 ^ 31" using unat_minus_one [of "usage_count (tk_rv s)"] pos count by simp
  then have nr: "\<not> is_revoked (usage_count rv)" using is_revoked_iff [of "usage_count rv"] by linarith
  let ?s = "s\<lparr>tk_rv := rv, tk_run := RunLeaving\<rparr>"
  have step: "tk_step s WDropGuard = Some ?s" using assms(2) rv by (simp add: with_rv_def)
  from leaving_polls [OF tk_step_ok [OF assms(1) step]] show ?thesis using assms(3) nr step by simp
qed

lemma trying_polls:
  assumes "tk_ok s" "tk_run s = RunTrying" "\<not> is_revoked (usage_count (tk_rv s))"
  shows "\<exists>ls s'. set ls \<subseteq> worker_labels \<and> length ls \<le> 5 \<and> run tk_step s ls = Some s' \<and> tk_run s' = RunPolling"
proof -
  have len: "length (rv_pcs (tk_rv s)) = 3" using assms(1) by (simp add: tk_ok_def rv_ok_def)
  consider "worker_at s = RvOut" | v where "worker_at s = RvLoaded v"
    using assms(1,2) by (auto simp: tk_ok_def tk_pos_def)
  then show ?thesis
  proof cases
    case 1
    then have "rv_at (tk_rv s) 0 RvOut" using len by (simp add: rv_at_def worker_at_def)
    from try_polls [OF this assms(2,3)] show ?thesis
      by (intro exI [of _ "[WLoad, WCas False]"]) (simp add: worker_labels_def)
  next
    case 2
    show ?thesis
    proof (cases "usage_count (tk_rv s) = v")
      case True
      then show ?thesis using assms(2) 2 len
        by (intro exI [of _ "[WCas False]"])
          (auto simp: worker_labels_def worker_at_def with_rv_def rv_at_def rv_goto_def compare_exchange_def)
    next
      case False
      let ?s = "s\<lparr>tk_rv := rv_goto (tk_rv s) 0 RvOut\<rparr>"
      have step: "tk_step s (WCas False) = Some ?s"
        using assms(2) 2 False len
        by (auto simp: worker_at_def with_rv_def rv_at_def rv_goto_def compare_exchange_def)
      have "rv_at (tk_rv ?s) 0 RvOut" using len by (simp add: rv_at_def rv_goto_def)
      from try_polls [OF this] show ?thesis using assms(2) assms(3) step
        by (intro exI [of _ "[WCas False, WLoad, WCas False]"]) (simp add: worker_labels_def rv_goto_def)
    qed
  qed
qed

text \<open>
  C37. A wake-up is not lost: as long as a task is not revoked and has not
  finished, a work item that is pending is polled again after at most five
  steps of the worker alone, unless a poll is running; then this holds as soon
  as that poll has returned \<open>Pending\<close>.
\<close>

theorem woken_task_polled:
  assumes "reachable tk_step tk_new s" "tk_work_pending s" "\<not> is_revoked (usage_count (tk_rv s))"
    and "\<not> tk_finished s" "tk_run s \<noteq> RunPolling"
  shows "\<exists>ls s'. set ls \<subseteq> worker_labels \<and> length ls \<le> 5 \<and> run tk_step s ls = Some s' \<and> tk_run s' = RunPolling"
proof -
  have ok: "tk_ok s" using tki.reached [OF assms(1)] .
  show ?thesis
  proof (cases "tk_run s")
    case RunIdle
    with idle_polls [OF ok _ assms(2,3)] show ?thesis
      by (intro exI [of _ "[Dispatch, WLoad, WCas False]"]) (simp add: worker_labels_def)
  next
    case RunTrying
    from trying_polls [OF ok this assms(3)] show ?thesis by blast
  next
    case RunPending
    with pending_polls [OF ok _ assms(2,3)] show ?thesis
      by (intro exI [of _ "[WDropGuard, WLeave, Dispatch, WLoad, WCas False]"]) (simp add: worker_labels_def)
  next
    case RunLeaving
    with leaving_polls [OF ok _ assms(2,3)] show ?thesis
      by (intro exI [of _ "[WLeave, Dispatch, WLoad, WCas False]"]) (simp add: worker_labels_def)
  qed (use ok assms(4,5) in \<open>auto simp: tk_ok_def tk_pos_def\<close>)
qed

theorem woken_task_polled_witness:
  "\<exists>s ls s'. run tk_step tk_new [CloneRef, Enqueue] = Some s
     \<and> length ls \<le> 5 \<and> run tk_step s ls = Some s' \<and> tk_run s' = RunPolling"
proof -
  obtain s where s: "run tk_step tk_new [CloneRef, Enqueue] = Some s"
    "tk_work_pending s" "usage_count (tk_rv s) = 0" "\<not> tk_finished s" "tk_run s \<noteq> RunPolling"
    by (simp add: tk_new_def rv_new_def tk_enqueue_def)
  then show ?thesis using woken_task_polled [OF run_reachable [OF s(1)]] by (auto simp: is_revoked_def)
qed

text \<open>
  Cancelling a pending work item leaks the task: the reference that the
  queue held is never given back, so whatever happens afterwards the task is
  never freed.
\<close>

theorem cancel_leaks_task:
  assumes "reachable tk_step tk_new s" "tk_work_pending s" "tk_step s Cancel = Some s1"
    and "run tk_step s1 ls = Some s'"
  shows "0 < tk_refs s'"
proof -
  have ok: "tk_ok s" using tki.reached [OF assms(1)] .
  have leak: "0 < tk_leaked s1" using assms(2,3) by (auto split: if_splits)
  have "tk_ok s1" using tk_step_ok [OF ok assms(3)] .
  with leak assms(4) have "tk_ok s' \<and> 0 < tk_leaked s'"
  proof (induction ls arbitrary: s1)
    case (Cons l ls)
    then obtain s2 where s2: "tk_step s1 l = Some s2" "run tk_step s2 ls = Some s'"
      by (auto split: Option.bind_splits)
    moreover have "tk_leaked s1 \<le> tk_leaked s2"
      using s2(1) by (cases l) (auto simp: with_rv_Some tk_enqueue_def simp del: rv_step.simps split: if_splits run_pc.splits)
    ultimately show ?case using Cons.IH [of s2] Cons.prems tk_step_ok by auto
  qed simp
  then show ?thesis by (simp add: tk_ok_def)
qed

theorem cancel_leaks_task_witness:
  "\<exists>s. run tk_step tk_new [Enqueue, Cancel] = Some s \<and> tk_wakers s = 0 \<and> \<not> tk_work_pending s \<and> 0 < tk_refs s"
proof -
  obtain s where s: "run tk_step tk_new [Enqueue] = Some s" "tk_work_pending s"
    by (simp add: tk_new_def tk_enqueue_def)
  obtain s1 where s1: "tk_step s Cancel = Some s1" "run tk_step tk_new [Enqueue, Cancel] = Some s1"
    "tk_wakers s1 = 0" "\<not> tk_work_pending s1"
    using s by (auto simp: tk_new_def tk_enqueue_def)
  then show ?thesis using cancel_leaks_task [OF run_reachable [OF s(1)] s(2) s1(1), of "[]"] by auto
qed

end
