(* ===== verification/Async_Executor.thy ===== *)
theory Async_Executor
  imports Async_Task Rko_Error
begin

text \<open>
  The workqueue executor: \<open>WorkqueueExecutor\<close> of
  \<open>rko-core/src/kasync/executor/workqueue.rs\<close> and its handle of
  \<open>rko-core/src/kasync/executor/mod.rs\<close>, over the machine of each task.
\<close>

section \<open>The executor\<close>

text \<open>
  Spawning registers a task under the executor's lock and enqueues its first
  poll; stopping marks the executor, takes the list of tasks under the lock,
  and then revokes and flushes them one by one.  Calls of \<open>spawn\<close> and the
  thread that stops run side by side with every task.
\<close>

datatype spawn_pc = SpStart | SpChecked | SpAllocated | SpListed | SpOk | SpErr error

datatype stop_pc = StopIdle | StopLoop "nat list" | StopFlushing nat "nat list" | StopDone

record exec =
  ex_stopped :: bool
  ex_list :: "nat list"
  ex_spawn :: "spawn_pc list"
  ex_tasks :: "task list"
  ex_stop :: stop_pc

datatype spawn_label = SpCheck nat | SpAlloc nat bool | SpRegister nat bool | SpQueue nat

datatype stop_label = StTake | StRevoke | StFlush | StEnd

datatype ex_label = Spawn spawn_label | Stop stop_label | TaskStep nat tk_label

definition ex_new :: "nat \<Rightarrow> exec" where
  "ex_new n = \<lparr>ex_stopped = False, ex_list = [], ex_spawn = replicate n SpStart, ex_tasks = replicate n tk_new,
     ex_stop = StopIdle\<rparr>"

definition sp_at :: "exec \<Rightarrow> nat \<Rightarrow> spawn_pc \<Rightarrow> bool" where
  "sp_at s i p \<longleftrightarrow> i < length (ex_spawn s) \<and> ex_spawn s ! i = p"

definition sp_goto :: "exec \<Rightarrow> nat \<Rightarrow> spawn_pc \<Rightarrow> exec" where
  "sp_goto s i p = s\<lparr>ex_spawn := (ex_spawn s)[i := p]\<rparr>"

definition on_task :: "exec \<Rightarrow> nat \<Rightarrow> tk_label \<Rightarrow> exec option" where
  "on_task s i l = (if i < length (ex_tasks s)
     then map_option (\<lambda>t. s\<lparr>ex_tasks := (ex_tasks s)[i := t]\<rparr>) (tk_step (ex_tasks s ! i) l) else None)"

text \<open>The steps a running task takes by itself or through its wakers.\<close>

fun own_step :: "tk_label \<Rightarrow> bool" where
  "own_step (OtherRevoke _) = False"
| "own_step Cancel = False"
| "own_step _ = True"

fun spawn_step :: "exec \<Rightarrow> spawn_label \<Rightarrow> exec option" where
  "spawn_step s (SpCheck i) =
     (if sp_at s i SpStart then Some (sp_goto s i (if ex_stopped s then SpErr EBUSY else SpChecked)) else None)"
| "spawn_step s (SpAlloc i ok) =
     (if sp_at s i SpChecked then Some (sp_goto s i (if ok then SpAllocated else SpErr ENOMEM)) else None)"
| "spawn_step s (SpRegister i ok) =
     (if sp_at s i SpAllocated
      then if ex_stopped s then on_task (sp_goto s i (SpErr EBUSY)) i (OtherRevoke 2)
           else if ok then Some (sp_goto (s\<lparr>ex_list := ex_list s @ [i]\<rparr>) i SpListed)
           else Some (sp_goto s i (SpErr ENOMEM))
      else None)"
| "spawn_step s (SpQueue i) = (if sp_at s i SpListed then on_task (sp_goto s i SpOk) i Enqueue else None)"

fun stop_step :: "exec \<Rightarrow> stop_label \<Rightarrow> exec option" where
  "stop_step s StTake = (case ex_stop s of
       StopIdle \<Rightarrow> Some (s\<lparr>ex_stopped := True, ex_list := [], ex_stop := StopLoop (ex_list s)\<rparr>)
     | StopDone \<Rightarrow> Some (s\<lparr>ex_stopped := True, ex_list := [], ex_stop := StopLoop (ex_list s)\<rparr>)
     | _ \<Rightarrow> None)"
| "stop_step s StRevoke = (case ex_stop s of
       StopLoop (i # is) \<Rightarrow> on_task (s\<lparr>ex_stop := StopFlushing i is\<rparr>) i (OtherRevoke 1)
     | _ \<Rightarrow> None)"
| "stop_step s StFlush = (case ex_stop s of
       StopFlushing i is \<Rightarrow>
         (if rv_at (tk_rv (ex_tasks s ! i)) 1 RvOut then on_task (s\<lparr>ex_stop := StopLoop is\<rparr>) i Cancel else None)
     | _ \<Rightarrow> None)"
| "stop_step s StEnd = (case ex_stop s of StopLoop [] \<Rightarrow> Some (s\<lparr>ex_stop := StopDone\<rparr>) | _ \<Rightarrow> None)"

text \<open>A task takes its own steps once its spawning has returned.\<close>

fun ex_step :: "exec \<Rightarrow> ex_label \<Rightarrow> exec option" where
  "ex_step s (Spawn l) = spawn_step s l"
| "ex_step s (Stop l) = stop_step s l"
| "ex_step s (TaskStep i l) =
     (if sp_at s i SpOk \<and> own_step l \<or> l = OtherDrop 1 \<or> l = OtherDrop 2 then on_task s i l else None)"

text \<open>A task that has been stopped: its future is gone and no poll can start.\<close>

definition flushed :: "task \<Rightarrow> bool" where
  "flushed t \<longleftrightarrow> is_revoked (usage_count (tk_rv t)) \<and> rv_drops (tk_rv t) = 1
     \<and> tk_run t \<in> {RunIdle, RunTrying, RunLeaving}"

lemma tk_drops_mono: "tk_step t l = Some t' \<Longrightarrow> rv_drops (tk_rv t) \<le> rv_drops (tk_rv t')"
  using tk.steps [of t l t'] rv_drops_mono by force

lemma flushed_kept:
  assumes "tk_ok t" "flushed t" "tk_step t l = Some t'"
  shows "flushed t'"
proof -
  have ok': "tk_ok t'" using tk_step_ok [OF assms(1,3)] .
  have drops: "rv_drops (tk_rv t') = 1"
    using tk_drops_mono [OF assms(3)] rv_drops_spec(2) [of 3 "tk_rv t'"] ok' assms(2)
    by (auto simp: tk_ok_def flushed_def)
  have rev: "is_revoked (usage_count (tk_rv t'))" using tk_rv_kept(2) [OF assms(1,3)] assms(2) by (simp add: flushed_def)
  have "RvGuard \<notin> set (rv_pcs (tk_rv t'))" using rv_drops_spec(1) [of 3 "tk_rv t'"] ok' drops by (auto simp: tk_ok_def)
  moreover have "length (rv_pcs (tk_rv t')) = 3" using ok' by (simp add: tk_ok_def rv_ok_def)
  ultimately have "worker_at t' \<noteq> RvGuard" by (metis nth_mem worker_at_def zero_less_numeral)
  then have "tk_run t' \<notin> {RunPolling, RunReady, RunPending}" using ok' by (auto simp: tk_ok_def tk_pos_def)
  moreover have "tk_run t' \<noteq> RunRevoking"
    using assms(2,3) by (cases l)
      (auto simp: flushed_def with_rv_Some tk_enqueue_def simp del: rv_step.simps split: if_splits run_pc.splits)
  ultimately show ?thesis using drops rev by (cases "tk_run t'") (auto simp: flushed_def)
qed

definition todo :: "stop_pc \<Rightarrow> nat list" where
  "todo p = (case p of StopLoop is \<Rightarrow> is | StopFlushing i is \<Rightarrow> i # is | _ \<Rightarrow> [])"

definition spawned :: "exec \<Rightarrow> nat \<Rightarrow> bool" where
  "spawned s i \<longleftrightarrow> sp_at s i SpListed \<or> sp_at s i SpOk"

definition ex_ok :: "exec \<Rightarrow> bool" where
  "ex_ok s \<longleftrightarrow> length (ex_tasks s) = length (ex_spawn s) \<and> list_all tk_ok (ex_tasks s)
     \<and> (\<forall>i. spawned s i \<longrightarrow> i \<in> set (ex_list s) \<or> i \<in> set (todo (ex_stop s)) \<or> flushed (ex_tasks s ! i))
     \<and> (\<forall>i < length (ex_spawn s). (\<nexists>e. ex_spawn s ! i = SpErr e) \<longrightarrow> rv_pcs (tk_rv (ex_tasks s ! i)) ! 2 = RvOut)
     \<and> (ex_stop s \<noteq> StopIdle \<longrightarrow> ex_stopped s \<and> ex_list s = [])
     \<and> (\<forall>i \<in> set (ex_list s) \<union> set (todo (ex_stop s)). spawned s i)
     \<and> (\<forall>i is. ex_stop s = StopFlushing i is \<longrightarrow> is_revoked (usage_count (tk_rv (ex_tasks s ! i))))"

lemma on_task_Some:
  "on_task s i l = Some s' \<longleftrightarrow> i < length (ex_tasks s)
     \<and> (\<exists>t. tk_step (ex_tasks s ! i) l = Some t \<and> s' = s\<lparr>ex_tasks := (ex_tasks s)[i := t]\<rparr>)"
  by (auto simp: on_task_def)

lemma tk_third_thread:
  assumes "tk_step t l = Some t'" "l \<noteq> OtherRevoke 2" "rv_pcs (tk_rv t) ! 2 = RvOut"
  shows "rv_pcs (tk_rv t') ! 2 = RvOut"
proof (cases "\<exists>m. rv_step (tk_rv t) m = Some (tk_rv t') \<and> rv_thread m \<noteq> 2")
  case True
  then show ?thesis using rv_other_thread assms(3) by metis
next
  case False
  moreover have "rv_step (tk_rv t) (DropValue 2) = None" using assms(3) by (simp add: rv_at_def)
  ultimately have "tk_rv t' = tk_rv t" using assms(1,2)
    by (cases l) (fastforce simp: with_rv_Some tk_enqueue_def simp del: rv_step.simps split: if_splits run_pc.splits)+
  then show ?thesis using assms(3) by simp
qed

lemma on_task_keeps:
  assumes "list_all tk_ok (ex_tasks s)" "on_task s i l = Some s'"
  shows "list_all tk_ok (ex_tasks s')" "length (ex_tasks s') = length (ex_tasks s)" "ex_spawn s' = ex_spawn s"
    "ex_list s' = ex_list s" "ex_stop s' = ex_stop s" "ex_stopped s' = ex_stopped s"
    "flushed (ex_tasks s ! j) \<Longrightarrow> j < length (ex_tasks s) \<Longrightarrow> flushed (ex_tasks s' ! j)"
    "is_revoked (usage_count (tk_rv (ex_tasks s ! j))) \<Longrightarrow> j < length (ex_tasks s) \<Longrightarrow>
       is_revoked (usage_count (tk_rv (ex_tasks s' ! j)))"
    "l \<noteq> OtherRevoke 2 \<or> j \<noteq> i \<Longrightarrow> rv_pcs (tk_rv (ex_tasks s ! j)) ! 2 = RvOut \<Longrightarrow>
       rv_pcs (tk_rv (ex_tasks s' ! j)) ! 2 = RvOut"
proof -
  obtain t where t: "i < length (ex_tasks s)" "tk_step (ex_tasks s ! i) l = Some t"
    "s' = s\<lparr>ex_tasks := (ex_tasks s)[i := t]\<rparr>" using assms(2) by (auto simp: on_task_Some)
  then have ok: "tk_ok (ex_tasks s ! i)" using assms(1) by (simp add: list_all_length)
  then have "tk_ok t" using tk_step_ok t(2) by blast
  then show "list_all tk_ok (ex_tasks s')" using t(1,3) assms(1)
    by (simp add: list_all_length nth_list_update)
  show "length (ex_tasks s') = length (ex_tasks s)" "ex_spawn s' = ex_spawn s"
    "ex_list s' = ex_list s" "ex_stop s' = ex_stop s" "ex_stopped s' = ex_stopped s" using t(3) by simp_all
  show "flushed (ex_tasks s ! j) \<Longrightarrow> j < length (ex_tasks s) \<Longrightarrow> flushed (ex_tasks s' ! j)"
    using t flushed_kept [OF ok _ t(2)] by (auto simp: nth_list_update)
  show "is_revoked (usage_count (tk_rv (ex_tasks s ! j))) \<Longrightarrow> j < length (ex_tasks s) \<Longrightarrow>
       is_revoked (usage_count (tk_rv (ex_tasks s' ! j)))"
    using t tk_rv_kept(2) [OF ok t(2)] by (auto simp: nth_list_update)
  show "l \<noteq> OtherRevoke 2 \<or> j \<noteq> i \<Longrightarrow> rv_pcs (tk_rv (ex_tasks s ! j)) ! 2 = RvOut \<Longrightarrow>
       rv_pcs (tk_rv (ex_tasks s' ! j)) ! 2 = RvOut"
    using t tk_third_thread [OF t(2)] by (cases "j = i") auto
qed

text \<open>A flush that returns leaves the task stopped for good.\<close>

lemma flush_flushes:
  assumes "tk_ok t" "is_revoked (usage_count (tk_rv t))" "rv_at (tk_rv t) 1 RvOut" "rv_pcs (tk_rv t) ! 2 = RvOut"
    and "tk_step t Cancel = Some t'"
  shows "flushed t'"
proof -
  have idle: "tk_run t = RunIdle" and t': "tk_rv t' = tk_rv t" "tk_run t' = RunIdle"
    using assms(5) by (auto split: if_splits)
  have len: "length (rv_pcs (tk_rv t)) = 3" using assms(1) by (simp add: tk_ok_def rv_ok_def)
  have "rv_pcs (tk_rv t) ! 0 = RvOut" using worker_out [OF assms(1) idle] by (simp add: rv_at_def)
  then have "rv_pcs (tk_rv t) ! i = RvOut" if "i < 3" for i
    using that assms(3,4) by (auto simp: rv_at_def less_Suc_eq numeral_3_eq_3 numeral_2_eq_2)
  then have "set (rv_pcs (tk_rv t)) \<subseteq> {RvOut}" using len by (auto simp: in_set_conv_nth)
  then show ?thesis using rv_drops_spec(3) [of 3 "tk_rv t"] assms(1,2) t' by (simp add: tk_ok_def flushed_def)
qed

lemma revoked_task:
  assumes "tk_ok t" "tk_step t (OtherRevoke u) = Some t'"
  shows "is_revoked (usage_count (tk_rv t'))"
  using assms revoke_revokes [of 3 "tk_rv t" u] by (auto simp: tk_ok_def with_rv_Some simp del: rv_step.simps split: if_splits)

lemma ex_new_ok: "ex_ok (ex_new n)"
  by (auto simp: ex_ok_def ex_new_def todo_def spawned_def sp_at_def list_all_length tk_new_ok)
    (simp add: tk_new_def rv_new_def)

text \<open>A move of one spawning thread, a step of one task, and a move of the thread that stops.\<close>

lemma spawned_goto:
  "i < length (ex_spawn s) \<Longrightarrow>
     spawned (sp_goto s i p) j \<longleftrightarrow> (if j = i then p = SpListed \<or> p = SpOk else spawned s j)"
  by (auto simp: spawned_def sp_at_def sp_goto_def nth_list_update)

lemma ex_ok_goto:
  assumes "ex_ok s" "sp_at s i q" "p = SpListed \<or> p = SpOk \<longleftrightarrow> q = SpListed \<or> q = SpOk" "\<nexists>e. q = SpErr e"
  shows "ex_ok (sp_goto s i p)"
proof -
  have i: "i < length (ex_spawn s)" "ex_spawn s ! i = q" using assms(2) by (simp_all add: sp_at_def)
  have "spawned (sp_goto s i p) j \<longleftrightarrow> spawned s j" for j
    using spawned_goto [OF i(1)] i assms(3) by (auto simp: spawned_def sp_at_def)
  moreover have "rv_pcs (tk_rv (ex_tasks s ! i)) ! 2 = RvOut"
    using assms(1,4) i by (simp add: ex_ok_def)
  ultimately show ?thesis using assms(1) i(1) assms(4) i(2)
    by (auto simp: ex_ok_def sp_goto_def nth_list_update split: if_splits)
qed

lemma spawned_cong: "ex_spawn s' = ex_spawn s \<Longrightarrow> spawned s' j \<longleftrightarrow> spawned s j"
  by (simp add: spawned_def sp_at_def)

lemma spawned_bound: "spawned s j \<Longrightarrow> j < length (ex_spawn s)"
  by (auto simp: spawned_def sp_at_def)

lemma ex_ok_task:
  assumes "ex_ok s" "on_task s i l = Some s'" "l \<noteq> OtherRevoke 2 \<or> (\<exists>e. ex_spawn s ! i = SpErr e)"
  shows "ex_ok s'"
proof -
  have ok: "list_all tk_ok (ex_tasks s)" using assms(1) by (simp add: ex_ok_def)
  note k = on_task_keeps [OF ok assms(2)]
  have "rv_pcs (tk_rv (ex_tasks s' ! j)) ! 2 = RvOut"
    if "j < length (ex_spawn s)" "\<nexists>e. ex_spawn s ! j = SpErr e" for j
    using that assms(1,3) k(9) [of j] by (auto simp: ex_ok_def)
  moreover have "j \<in> set (ex_list s) \<or> j \<in> set (todo (ex_stop s)) \<or> flushed (ex_tasks s' ! j)" if "spawned s j" for j
    using that assms(1) k(7) [of j] spawned_bound [OF that] by (auto simp: ex_ok_def)
  moreover have "is_revoked (usage_count (tk_rv (ex_tasks s' ! j)))" if "ex_stop s = StopFlushing j is" for j "is"
  proof -
    have "spawned s j" using assms(1) that by (auto simp: ex_ok_def todo_def)
    then show ?thesis using that assms(1) k(8) [of j] spawned_bound [of s j] by (auto simp: ex_ok_def)
  qed
  ultimately show ?thesis using assms(1) k(1-6) spawned_cong [OF k(3)] by (simp add: ex_ok_def)
qed

lemma on_task_stop:
  assumes "on_task (s\<lparr>ex_stop := p\<rparr>) i l = Some s'"
  obtains s1 where "on_task s i l = Some s1" "s' = s1\<lparr>ex_stop := p\<rparr>"
proof -
  obtain t where "i < length (ex_tasks s)" "tk_step (ex_tasks s ! i) l = Some t"
    "s' = s\<lparr>ex_stop := p, ex_tasks := (ex_tasks s)[i := t]\<rparr>"
    using assms by (auto simp: on_task_Some)
  then show thesis using that [of "s\<lparr>ex_tasks := (ex_tasks s)[i := t]\<rparr>"] by (simp add: on_task_def)
qed

lemma ex_ok_stop:
  assumes "ex_ok s" "ex_stop s \<noteq> StopIdle"
    and "\<And>j. j \<in> set (todo p) \<Longrightarrow> j \<in> set (todo (ex_stop s))"
    and "\<And>j. j \<in> set (todo (ex_stop s)) \<Longrightarrow> j \<in> set (todo p) \<or> flushed (ex_tasks s ! j)"
    and "\<And>j is. p = StopFlushing j is \<Longrightarrow> is_revoked (usage_count (tk_rv (ex_tasks s ! j)))"
  shows "ex_ok (s\<lparr>ex_stop := p\<rparr>)"
proof -
  have sp: "spawned (s\<lparr>ex_stop := p\<rparr>) j \<longleftrightarrow> spawned s j" for j by (rule spawned_cong) simp
  have old: "spawned s j \<Longrightarrow> j \<in> set (todo (ex_stop s)) \<or> flushed (ex_tasks s ! j)"
    "j \<in> set (todo (ex_stop s)) \<Longrightarrow> spawned s j" for j
    using assms(1,2) by (auto simp: ex_ok_def)
  have "spawned s j \<Longrightarrow> j \<in> set (todo p) \<or> flushed (ex_tasks s ! j)" "j \<in> set (todo p) \<Longrightarrow> spawned s j" for j
    using old assms(3,4) by blast+
  then show ?thesis using assms(1,2,5) by (auto simp: ex_ok_def sp)
qed

lemma ex_revoke_ok:
  assumes "ex_ok s" "ex_stop s = StopLoop (i # is)" "on_task s i (OtherRevoke 1) = Some s1"
  shows "ex_ok (s1\<lparr>ex_stop := StopFlushing i is\<rparr>)"
proof (rule ex_ok_stop)
  have ok: "list_all tk_ok (ex_tasks s)" using assms(1) by (simp add: ex_ok_def)
  note k = on_task_keeps [OF ok assms(3)]
  show "ex_ok s1" using ex_ok_task [OF assms(1,3)] by simp
  obtain t where t: "i < length (ex_tasks s)" "tk_step (ex_tasks s ! i) (OtherRevoke 1) = Some t"
    "s1 = s\<lparr>ex_tasks := (ex_tasks s)[i := t]\<rparr>"
    using assms(3) unfolding on_task_Some by blast
  have "is_revoked (usage_count (tk_rv t))"
    using revoked_task t(1,2) ok by (meson list_all_length)
  then show "is_revoked (usage_count (tk_rv (ex_tasks s1 ! j)))" if "StopFlushing i is = StopFlushing j ks" for j ks
    using that t by simp
qed (use assms(2) on_task_keeps(5) [OF _ assms(3)] assms(1) in \<open>auto simp: todo_def ex_ok_def\<close>)

lemma ex_flush_ok:
  assumes "ex_ok s" "ex_stop s = StopFlushing i is" "rv_at (tk_rv (ex_tasks s ! i)) 1 RvOut"
    and "on_task s i Cancel = Some s1"
  shows "ex_ok (s1\<lparr>ex_stop := StopLoop is\<rparr>)"
proof (rule ex_ok_stop)
  have ok: "list_all tk_ok (ex_tasks s)" using assms(1) by (simp add: ex_ok_def)
  note k = on_task_keeps [OF ok assms(4)]
  show "ex_ok s1" using ex_ok_task [OF assms(1,4)] by simp
  obtain t where t: "i < length (ex_tasks s)" "tk_step (ex_tasks s ! i) Cancel = Some t"
    "s1 = s\<lparr>ex_tasks := (ex_tasks s)[i := t]\<rparr>"
    using assms(4) unfolding on_task_Some by blast
  have "spawned s i" using assms(1,2) by (auto simp: ex_ok_def todo_def)
  then have "rv_pcs (tk_rv (ex_tasks s ! i)) ! 2 = RvOut" using assms(1) by (auto simp: ex_ok_def spawned_def sp_at_def)
  moreover have "is_revoked (usage_count (tk_rv (ex_tasks s ! i)))" using assms(1,2) by (simp add: ex_ok_def)
  moreover have "tk_ok (ex_tasks s ! i)" using ok t(1) by (simp add: list_all_length)
  ultimately have "flushed t" using flush_flushes assms(3) t(2) by blast
  then show "j \<in> set (todo (StopLoop is)) \<or> flushed (ex_tasks s1 ! j)" if "j \<in> set (todo (ex_stop s1))" for j
    using that t assms(2) by (auto simp: todo_def)
qed (use assms(2) on_task_keeps(5) [OF _ assms(4)] assms(1) in \<open>auto simp: todo_def ex_ok_def\<close>)

lemma spawn_step_ok:
  assumes "ex_ok s" "spawn_step s l = Some s'"
  shows "ex_ok s'"
proof (cases l)
  case (SpCheck i)
  then show ?thesis using assms ex_ok_goto [of s i SpStart] by (auto split: if_splits)
next
  case (SpAlloc i ok)
  then show ?thesis using assms ex_ok_goto [of s i SpChecked] by (auto split: if_splits)
next
  case (SpRegister i ok)
  then have at: "sp_at s i SpAllocated" using assms(2) by (auto split: if_splits)
  show ?thesis
  proof (cases "\<not> ex_stopped s \<and> ok")
    case True
    then have s': "s' = sp_goto (s\<lparr>ex_list := ex_list s @ [i]\<rparr>) i SpListed"
      using SpRegister assms(2) at by simp
    have i: "i < length (ex_spawn s)" "ex_spawn s ! i = SpAllocated" using at by (simp_all add: sp_at_def)
    have sp: "spawned s' j \<longleftrightarrow> j = i \<or> spawned s j" for j
      using spawned_goto [of i "s\<lparr>ex_list := ex_list s @ [i]\<rparr>" SpListed j] i s'
        spawned_cong [of "s\<lparr>ex_list := ex_list s @ [i]\<rparr>" s j] by simp
    have "ex_stop s = StopIdle" using True assms(1) by (auto simp: ex_ok_def)
    then show ?thesis using assms(1) i unfolding ex_ok_def sp
      by (auto simp: s' sp_goto_def nth_list_update todo_def)
  next
    case False
    then show ?thesis
      using SpRegister assms at ex_ok_goto [OF assms(1) at]
        ex_ok_task [of "sp_goto s i (SpErr EBUSY)" i "OtherRevoke 2" s']
      by (auto simp: sp_at_def sp_goto_def split: if_splits)
  qed
next
  case (SpQueue i)
  then have at: "sp_at s i SpListed" and on: "on_task (sp_goto s i SpOk) i Enqueue = Some s'"
    using assms(2) by (auto split: if_splits)
  from ex_ok_task [OF ex_ok_goto [OF assms(1) at] on] show ?thesis by simp
qed

lemma stop_step_ok:
  assumes "ex_ok s" "stop_step s l = Some s'"
  shows "ex_ok s'"
proof (cases l)
  case StTake
  then have "s' = s\<lparr>ex_stopped := True, ex_list := [], ex_stop := StopLoop (ex_list s)\<rparr>" "todo (ex_stop s) = []"
    using assms(2) by (auto simp: todo_def split: stop_pc.splits)
  moreover from this(1) have "spawned s' j \<longleftrightarrow> spawned s j" for j by (intro spawned_cong) simp
  ultimately show ?thesis using assms(1) unfolding ex_ok_def by (auto simp: todo_def)
next
  case StRevoke
  then obtain i "is" where p: "ex_stop s = StopLoop (i # is)"
    "on_task (s\<lparr>ex_stop := StopFlushing i is\<rparr>) i (OtherRevoke 1) = Some s'"
    using assms(2) by (auto split: stop_pc.splits list.splits)
  from on_task_stop [OF p(2)] obtain s1 where "on_task s i (OtherRevoke 1) = Some s1"
    "s' = s1\<lparr>ex_stop := StopFlushing i is\<rparr>" .
  with ex_revoke_ok [OF assms(1) p(1)] show ?thesis by simp
next
  case StFlush
  then obtain i "is" where p: "ex_stop s = StopFlushing i is" "rv_at (tk_rv (ex_tasks s ! i)) 1 RvOut"
    "on_task (s\<lparr>ex_stop := StopLoop is\<rparr>) i Cancel = Some s'"
    using assms(2) by (auto split: stop_pc.splits if_splits)
  from on_task_stop [OF p(3)] obtain s1 where "on_task s i Cancel = Some s1" "s' = s1\<lparr>ex_stop := StopLoop is\<rparr>" .
  with ex_flush_ok [OF assms(1) p(1,2)] show ?thesis by simp
next
  case StEnd
  then have "s' = s\<lparr>ex_stop := StopDone\<rparr>" "ex_stop s = StopLoop []"
    using assms(2) by (auto split: stop_pc.splits list.splits)
  then show ?thesis using ex_ok_stop [OF assms(1), of StopDone] by (auto simp: todo_def)
qed

lemma ex_step_ok:
  assumes "ex_ok s" "ex_step s l = Some s'"
  shows "ex_ok s'"
proof (cases l)
  case (Spawn m)
  then show ?thesis using assms spawn_step_ok by simp
next
  case (Stop m)
  then show ?thesis using assms stop_step_ok by simp
next
  case (TaskStep i m)
  then have "on_task s i m = Some s'" "m \<noteq> OtherRevoke 2" using assms(2) by (auto split: if_splits)
  then show ?thesis using ex_ok_task [OF assms(1)] by simp
qed

interpretation ex: kept ex_step "ex_new n" ex_ok
  by unfold_locales (fact ex_new_ok, fact ex_step_ok)



end
