(* ===== verification/Socket_Future.thy ===== *)
theory Socket_Future
  imports Sync_Prims
begin

text \<open>
  The future that waits for a socket: \<open>SocketFuture\<close>, its
  \<open>CallbackState\<close> and \<open>wake_callback\<close> of
  \<open>rko-core/src/kasync/net/mod.rs\<close>.  Polls of the worker and calls of the
  callback from the wait queue of the socket run side by side; the waker they
  share is behind the try-only lock.  The wait queue is the kernel's: an event
  calls the callback of every entry registered at that time, one call at a
  time, and removing an entry waits for a call in progress.
\<close>

datatype poll_pc = PIdle | PTry | PTrySlow | PStore | PUnlock | PRegister | POp | PDone

datatype cb_pc = CIdle | CTry | CTrySlow | CRead | CUnlockWake | CUnlockNone | CWake

record sf =
  sf_lock :: "8 word"
  sf_waker :: bool
  sf_queued :: bool
  sf_freed :: bool
  sf_poll :: poll_pc
  sf_cb :: cb_pc
  sf_calls :: nat
  sf_ready :: bool
  sf_woken :: bool

text \<open>
  \<open>sf_calls\<close> are the calls of the callback that the kernel still owes,
  \<open>sf_ready\<close> tells whether the operation would succeed now, and
  \<open>sf_woken\<close> whether the task is on the workqueue; its first poll is.
\<close>

definition sf_new :: sf where
  "sf_new = \<lparr>sf_lock = UNLOCKED, sf_waker = False, sf_queued = False, sf_freed = False, sf_poll = PIdle, sf_cb = CIdle,
     sf_calls = 0, sf_ready = False, sf_woken = True\<rparr>"

datatype sf_label =
    Event | PollStart | PollSpurious | PollStep | CbCall | CbStep | SfDrop

fun poll_step :: "sf \<Rightarrow> sf option" where
  "poll_step s = (case sf_poll s of
     PTry \<Rightarrow> (case try_lock_fast (sf_lock s) of
         (True, l) \<Rightarrow> Some (s\<lparr>sf_lock := l, sf_poll := PStore\<rparr>)
       | (False, l) \<Rightarrow> Some (s\<lparr>sf_lock := l, sf_poll := PTrySlow\<rparr>))
   | PTrySlow \<Rightarrow> Some (s\<lparr>sf_lock := try_lock_slow (sf_lock s), sf_poll := PRegister\<rparr>)
   | PStore \<Rightarrow> Some (s\<lparr>sf_waker := True, sf_poll := PUnlock\<rparr>)
   | PUnlock \<Rightarrow> Some (s\<lparr>sf_lock := snd (nw_unlock (sf_lock s)), sf_poll := PRegister\<rparr>)
   | PRegister \<Rightarrow> Some (s\<lparr>sf_queued := True, sf_poll := POp\<rparr>)
   | POp \<Rightarrow> Some (if sf_ready s then s\<lparr>sf_ready := False, sf_poll := PDone\<rparr> else s\<lparr>sf_poll := PIdle\<rparr>)
   | _ \<Rightarrow> None)"

fun cb_step :: "sf \<Rightarrow> sf option" where
  "cb_step s = (case sf_cb s of
     CTry \<Rightarrow> (case try_lock_fast (sf_lock s) of
         (True, l) \<Rightarrow> Some (s\<lparr>sf_lock := l, sf_cb := CRead\<rparr>)
       | (False, l) \<Rightarrow> Some (s\<lparr>sf_lock := l, sf_cb := CTrySlow\<rparr>))
   | CTrySlow \<Rightarrow> Some (s\<lparr>sf_lock := try_lock_slow (sf_lock s), sf_cb := CIdle\<rparr>)
   | CRead \<Rightarrow> Some (s\<lparr>sf_cb := if sf_waker s then CUnlockWake else CUnlockNone\<rparr>)
   | CUnlockWake \<Rightarrow> Some (s\<lparr>sf_lock := snd (nw_unlock (sf_lock s)), sf_cb := CWake\<rparr>)
   | CUnlockNone \<Rightarrow> Some (s\<lparr>sf_lock := snd (nw_unlock (sf_lock s)), sf_cb := CIdle\<rparr>)
   | CWake \<Rightarrow> Some (s\<lparr>sf_woken := True, sf_cb := CIdle\<rparr>)
   | CIdle \<Rightarrow> None)"

definition sf_drop :: "sf \<Rightarrow> sf option" where
  "sf_drop s = (if (sf_poll s = PIdle \<or> sf_poll s = PDone) \<and> sf_cb s = CIdle \<and> \<not> sf_freed s
     then Some (s\<lparr>sf_queued := False, sf_calls := 0, sf_freed := True\<rparr>) else None)"

declare sf_drop_def [simp]

fun sf_step :: "sf \<Rightarrow> sf_label \<Rightarrow> sf option" where
  "sf_step s Event = Some (s\<lparr>sf_ready := True, sf_calls := sf_calls s + of_bool (sf_queued s)\<rparr>)"
| "sf_step s PollStart = (if sf_poll s = PIdle \<and> sf_woken s \<and> \<not> sf_freed s
     then Some (s\<lparr>sf_woken := False, sf_poll := PTry\<rparr>) else None)"
| "sf_step s PollSpurious = (if sf_poll s = PIdle \<and> \<not> sf_freed s then Some (s\<lparr>sf_poll := PTry\<rparr>) else None)"
| "sf_step s PollStep = poll_step s"
| "sf_step s CbCall = (if sf_cb s = CIdle \<and> sf_queued s \<and> 0 < sf_calls s
     then Some (s\<lparr>sf_calls := sf_calls s - 1, sf_cb := CTry\<rparr>) else None)"
| "sf_step s CbStep = cb_step s"
| "sf_step s SfDrop = sf_drop s"


section \<open>Invariant\<close>

text \<open>The lock is taken exactly while one of the two holds it.\<close>

definition poll_holds :: "poll_pc \<Rightarrow> bool" where
  "poll_holds p \<longleftrightarrow> p = PStore \<or> p = PUnlock"

definition cb_holds :: "cb_pc \<Rightarrow> bool" where
  "cb_holds p \<longleftrightarrow> p = CRead \<or> p = CUnlockWake \<or> p = CUnlockNone"

definition lock_ok :: "sf \<Rightarrow> bool" where
  "lock_ok s \<longleftrightarrow> (sf_lock s = UNLOCKED \<longleftrightarrow> \<not> poll_holds (sf_poll s) \<and> \<not> cb_holds (sf_cb s))
     \<and> \<not> (poll_holds (sf_poll s) \<and> cb_holds (sf_cb s))"

text \<open>The callback runs only while the entry is registered, and then there is a waker.\<close>

definition entry_ok :: "sf \<Rightarrow> bool" where
  "entry_ok s \<longleftrightarrow> (sf_cb s \<noteq> CIdle \<longrightarrow> sf_queued s) \<and> (sf_queued s \<longrightarrow> sf_waker s \<and> \<not> sf_freed s)
     \<and> sf_cb s \<noteq> CUnlockNone
     \<and> (sf_poll s = PRegister \<or> sf_poll s = PUnlock \<longrightarrow> sf_waker s) \<and> (sf_poll s = PTrySlow \<or> sf_poll s = POp \<longrightarrow> sf_queued s)
     \<and> (sf_poll s \<noteq> PIdle \<and> sf_poll s \<noteq> PDone \<longrightarrow> \<not> sf_freed s)"

text \<open>A future that waits although the operation would succeed is owed a wake-up.\<close>

definition will_wake :: "cb_pc \<Rightarrow> bool" where
  "will_wake p \<longleftrightarrow> p = CTry \<or> p = CRead \<or> p = CUnlockWake \<or> p = CWake"

definition wake_owed :: "sf \<Rightarrow> bool" where
  "wake_owed s \<longleftrightarrow> sf_woken s \<or> sf_queued s \<and> (0 < sf_calls s \<or> will_wake (sf_cb s))"

definition idle_ok :: "sf \<Rightarrow> bool" where
  "idle_ok s \<longleftrightarrow> (sf_poll s = PIdle \<and> \<not> sf_freed s \<longrightarrow>
     (sf_queued s \<or> sf_woken s) \<and> (sf_ready s \<longrightarrow> wake_owed s))"

definition sf_ok :: "sf \<Rightarrow> bool" where
  "sf_ok s \<longleftrightarrow> lock_ok s \<and> entry_ok s \<and> idle_ok s"

lemma try_lock_slow_free [simp]: "try_lock_slow l = UNLOCKED \<longleftrightarrow> l = UNLOCKED"
  by (auto simp: try_lock_slow_def compare_exchange_def)

lemmas lock_defs = try_lock_fast_def compare_exchange_def nw_unlock_def

lemma lock_step: "lock_ok s \<Longrightarrow> pred_option lock_ok (sf_step s l)"
proof (cases l)
  case PollStep
  assume "lock_ok s"
  then show ?thesis using PollStep
    by (cases "sf_poll s") (simp_all add: lock_ok_def poll_holds_def lock_defs)
next
  case CbStep
  assume "lock_ok s"
  then show ?thesis using CbStep
    by (cases "sf_cb s") (simp_all add: lock_ok_def cb_holds_def lock_defs)
qed (simp_all add: lock_ok_def poll_holds_def cb_holds_def)

lemma entry_step: "lock_ok s \<Longrightarrow> entry_ok s \<Longrightarrow> pred_option entry_ok (sf_step s l)"
proof (cases l)
  case PollStep
  assume "lock_ok s" "entry_ok s"
  then show ?thesis using PollStep
    by (cases "sf_poll s")
      (auto simp: lock_ok_def poll_holds_def cb_holds_def entry_ok_def lock_defs)
next
  case CbStep
  assume "entry_ok s"
  then show ?thesis using CbStep
    by (cases "sf_cb s") (simp_all add: entry_ok_def lock_defs)
qed (auto simp: entry_ok_def)

lemma idle_step: "lock_ok s \<Longrightarrow> entry_ok s \<Longrightarrow> idle_ok s \<Longrightarrow> pred_option idle_ok (sf_step s l)"
proof (cases l)
  case Event
  assume "idle_ok s"
  then show ?thesis using Event by (auto simp: idle_ok_def wake_owed_def)
next
  case PollStep
  assume "entry_ok s"
  then show ?thesis using PollStep
    by (cases "sf_poll s") (simp_all add: entry_ok_def idle_ok_def lock_defs)
next
  case CbCall
  assume "idle_ok s"
  then show ?thesis using CbCall by (simp add: idle_ok_def wake_owed_def will_wake_def)
next
  case CbStep
  assume "lock_ok s" "entry_ok s" "idle_ok s"
  then show ?thesis using CbStep
    by (cases "sf_cb s")
      (auto simp: lock_ok_def poll_holds_def cb_holds_def entry_ok_def idle_ok_def wake_owed_def will_wake_def lock_defs)
qed (simp_all add: idle_ok_def)

lemma sf_step_ok: "sf_ok s \<Longrightarrow> sf_step s l = Some s' \<Longrightarrow> sf_ok s'"
  using lock_step [of s l] entry_step [of s l] idle_step [of s l] by (simp add: sf_ok_def)

lemma sf_new_ok: "sf_ok sf_new"
  by (simp add: sf_new_def sf_ok_def lock_ok_def poll_holds_def cb_holds_def entry_ok_def idle_ok_def wake_owed_def)

interpretation sfi: kept sf_step sf_new sf_ok
  by unfold_locales (fact sf_new_ok, fact sf_step_ok)


section \<open>No wake-up is lost\<close>

text \<open>From a poll to its end, and from a call of the callback to its wake-up, by their own steps alone.\<close>

definition own_labels :: "sf_label set" where
  "own_labels = {PollStart, PollStep, CbCall, CbStep}"

lemma poll_completes:
  assumes "sf_poll s = PIdle" "sf_ready s" "sf_woken s" "\<not> sf_freed s"
  shows "\<exists>ls s'. set ls \<subseteq> own_labels \<and> length ls \<le> 6 \<and> run sf_step s ls = Some s' \<and> sf_poll s' = PDone"
proof (cases "sf_lock s = UNLOCKED")
  case True
  then show ?thesis using assms
    by (intro exI [of _ "[PollStart, PollStep, PollStep, PollStep, PollStep, PollStep]"])
      (simp add: own_labels_def lock_defs)
next
  case False
  then show ?thesis using assms
    by (intro exI [of _ "[PollStart, PollStep, PollStep, PollStep, PollStep]"])
      (simp add: own_labels_def lock_defs)
qed

definition waits :: "sf \<Rightarrow> bool" where
  "waits s \<longleftrightarrow> sf_poll s = PIdle \<and> sf_ready s \<and> \<not> sf_freed s"

lemma try_wakes:
  assumes "sf_ok s" "waits s" "sf_cb s = CTry"
  shows "\<exists>s'. run sf_step s [CbStep, CbStep, CbStep, CbStep] = Some s' \<and> waits s' \<and> sf_woken s'"
  using assms by (simp add: sf_ok_def lock_ok_def entry_ok_def poll_holds_def cb_holds_def waits_def lock_defs)

lemma owed_wakes:
  assumes "sf_ok s" "waits s"
  shows "\<exists>ls s'. set ls \<subseteq> own_labels \<and> length ls \<le> 6 \<and> run sf_step s ls = Some s' \<and> waits s' \<and> sf_woken s'"
proof -
  have w: "sf_poll s = PIdle" "sf_ready s" "\<not> sf_freed s" using assms(2) by (simp_all add: waits_def)
  have owed: "wake_owed s" and none: "sf_cb s \<noteq> CUnlockNone"
    using assms(1) w by (simp_all add: sf_ok_def idle_ok_def entry_ok_def)
  show ?thesis
  proof (cases "sf_woken s")
    case True
    then show ?thesis using assms(2) by (intro exI [of _ "[]"]) simp
  next
    case False
    then have q: "sf_queued s" "0 < sf_calls s \<or> will_wake (sf_cb s)" using owed by (simp_all add: wake_owed_def)
    have waker: "sf_waker s" using assms(1) q(1) by (simp add: sf_ok_def entry_ok_def)
    show ?thesis
    proof (cases "sf_cb s")
      case CIdle
      let ?s = "s\<lparr>sf_calls := sf_calls s - 1, sf_cb := CTry\<rparr>"
      have step: "sf_step s CbCall = Some ?s" using CIdle q by (simp add: will_wake_def)
      from try_wakes [OF sf_step_ok [OF assms(1) step]] assms(2) show ?thesis using step
        by (intro exI [of _ "[CbCall, CbStep, CbStep, CbStep, CbStep]"]) (simp add: own_labels_def waits_def)
    next
      case CTry
      from try_wakes [OF assms CTry] show ?thesis
        by (intro exI [of _ "[CbStep, CbStep, CbStep, CbStep]"]) (simp add: own_labels_def)
    next
      case CTrySlow
      let ?t = "s\<lparr>sf_lock := try_lock_slow (sf_lock s), sf_cb := CIdle\<rparr>"
      let ?s = "?t\<lparr>sf_calls := sf_calls s - 1, sf_cb := CTry\<rparr>"
      have one: "sf_step s CbStep = Some ?t" using CTrySlow by simp
      have two: "sf_step ?t CbCall = Some ?s" using CTrySlow q by (simp add: will_wake_def)
      from try_wakes [OF sf_step_ok [OF sf_step_ok [OF assms(1) one] two]] assms(2) show ?thesis using one two
        by (intro exI [of _ "[CbStep, CbCall, CbStep, CbStep, CbStep, CbStep]"]) (simp add: own_labels_def waits_def)
    next
      case CRead
      then show ?thesis using w waker
        by (intro exI [of _ "[CbStep, CbStep, CbStep]"]) (simp add: own_labels_def waits_def)
    next
      case CUnlockWake
      then show ?thesis using w
        by (intro exI [of _ "[CbStep, CbStep]"]) (simp add: own_labels_def waits_def)
    next
      case CWake
      then show ?thesis using w by (intro exI [of _ "[CbStep]"]) (simp add: own_labels_def waits_def)
    qed (use none in simp)
  qed
qed



end
