(* ===== verification/Oneshot.thy ===== *)
theory Oneshot
  imports Sync_Prims
begin

text \<open>
  The asynchronous one-shot channel of \<open>rko-core/src/kasync/oneshot.rs\<close>:
  a sender and a receiver that share one allocation, with an atomic state and
  reference count and a value and a waker that are plain memory.
\<close>

definition STATE_EMPTY :: "8 word" where "STATE_EMPTY = 0"
definition STATE_SENT :: "8 word" where "STATE_SENT = 1"
definition STATE_CLOSED :: "8 word" where "STATE_CLOSED = 2"

lemma os_distinct [simp]:
  "STATE_EMPTY \<noteq> STATE_SENT" "STATE_EMPTY \<noteq> STATE_CLOSED" "STATE_SENT \<noteq> STATE_CLOSED"
  "STATE_SENT \<noteq> STATE_EMPTY" "STATE_CLOSED \<noteq> STATE_EMPTY" "STATE_CLOSED \<noteq> STATE_SENT"
  by (simp_all add: STATE_EMPTY_def STATE_SENT_def STATE_CLOSED_def)

datatype send_pc = SHeld | SWritten | STake | SWake | SDec | SFree | SGone

datatype 'a recv_pc = RIdle | RLoad | RStore | RReload | RGot "'a option" | RDec | RFree | RGone

record 'a oneshot =
  os_value :: "'a option"
  os_waker :: bool
  os_state :: "8 word"
  os_refs :: "8 word"
  os_send :: send_pc
  os_recv :: "'a recv_pc"
  os_woken :: bool
  os_freed :: nat

text \<open>\<open>os_woken\<close>: the task that awaits the receiver is to be polled; its first poll is on the way.\<close>

definition channel :: "'a oneshot" where
  "channel = \<lparr>os_value = None, os_waker = False, os_state = STATE_EMPTY, os_refs = 2, os_send = SHeld, os_recv = RIdle,
     os_woken = True, os_freed = 0\<rparr>"

datatype 'a os_label = Send 'a | SenderDrop | SendStep | PollStart | PollSpurious | RecvStep | ReceiverDrop

text \<open>\<open>dec_ref\<close>: whether the caller must free, and the new count.\<close>

definition dec_ref :: "8 word \<Rightarrow> bool \<times> 8 word" where
  "dec_ref refs = (refs = 1, refs - 1)"

definition read_state :: "'a oneshot \<Rightarrow> 'a recv_pc \<Rightarrow> 'a recv_pc" where
  "read_state s otherwise = (if os_state s = STATE_SENT then RGot (os_value s)
     else if os_state s = STATE_CLOSED then RGot None else otherwise)"

fun send_step :: "'a oneshot \<Rightarrow> 'a oneshot option" where
  "send_step s = (case os_send s of
     SWritten \<Rightarrow> Some (s\<lparr>os_state := STATE_SENT, os_send := STake\<rparr>)
   | STake \<Rightarrow> Some (if os_waker s then s\<lparr>os_waker := False, os_send := SWake\<rparr> else s\<lparr>os_send := SDec\<rparr>)
   | SWake \<Rightarrow> Some (s\<lparr>os_woken := True, os_send := SDec\<rparr>)
   | SDec \<Rightarrow> Some (s\<lparr>os_refs := snd (dec_ref (os_refs s)), os_send := if fst (dec_ref (os_refs s)) then SFree else SGone\<rparr>)
   | SFree \<Rightarrow> Some (s\<lparr>os_freed := os_freed s + 1, os_send := SGone\<rparr>)
   | _ \<Rightarrow> None)"

fun recv_step :: "'a oneshot \<Rightarrow> 'a oneshot option" where
  "recv_step s = (case os_recv s of
     RLoad \<Rightarrow> Some (s\<lparr>os_recv := read_state s RStore\<rparr>)
   | RStore \<Rightarrow> Some (s\<lparr>os_waker := True, os_recv := RReload\<rparr>)
   | RReload \<Rightarrow> Some (s\<lparr>os_recv := read_state s RIdle\<rparr>)
   | RDec \<Rightarrow> Some (s\<lparr>os_refs := snd (dec_ref (os_refs s)), os_recv := if fst (dec_ref (os_refs s)) then RFree else RGone\<rparr>)
   | RFree \<Rightarrow> Some (s\<lparr>os_freed := os_freed s + 1, os_recv := RGone\<rparr>)
   | _ \<Rightarrow> None)"

fun os_step :: "'a oneshot \<Rightarrow> 'a os_label \<Rightarrow> 'a oneshot option" where
  "os_step s (Send v) = (if os_send s = SHeld then Some (s\<lparr>os_value := Some v, os_send := SWritten\<rparr>) else None)"
| "os_step s SenderDrop = (if os_send s = SHeld then Some (s\<lparr>os_state := STATE_CLOSED, os_send := STake\<rparr>) else None)"
| "os_step s SendStep = send_step s"
| "os_step s PollStart = (if os_recv s = RIdle \<and> os_woken s then Some (s\<lparr>os_woken := False, os_recv := RLoad\<rparr>) else None)"
| "os_step s PollSpurious = (if os_recv s = RIdle then Some (s\<lparr>os_recv := RLoad\<rparr>) else None)"
| "os_step s RecvStep = recv_step s"
| "os_step s ReceiverDrop = (case os_recv s of
       RIdle \<Rightarrow> Some (s\<lparr>os_recv := RDec\<rparr>) | RGot _ \<Rightarrow> Some (s\<lparr>os_recv := RDec\<rparr>) | _ \<Rightarrow> None)"


section \<open>Invariants\<close>

text \<open>The state and the value follow the sender.\<close>

definition value_ok :: "'a oneshot \<Rightarrow> bool" where
  "value_ok s \<longleftrightarrow>
     (os_send s = SHeld \<longrightarrow> os_state s = STATE_EMPTY \<and> os_value s = None)
     \<and> (os_send s = SWritten \<longrightarrow> os_state s = STATE_EMPTY \<and> os_value s \<noteq> None)
     \<and> (os_send s \<notin> {SHeld, SWritten} \<longrightarrow> os_state s = (if os_value s = None then STATE_CLOSED else STATE_SENT))
     \<and> (\<forall>r. os_recv s = RGot r \<longrightarrow> os_state s \<noteq> STATE_EMPTY \<and> r = os_value s)"

text \<open>The count is the number of halves that have not given up theirs.\<close>

definition send_owns :: "send_pc \<Rightarrow> bool" where
  "send_owns p \<longleftrightarrow> p \<in> {SHeld, SWritten, STake, SWake, SDec}"

definition recv_owns :: "'a recv_pc \<Rightarrow> bool" where
  "recv_owns p \<longleftrightarrow> p \<notin> {RFree, RGone}"

definition refs_ok :: "'a oneshot \<Rightarrow> bool" where
  "refs_ok s \<longleftrightarrow> os_refs s = of_bool (send_owns (os_send s)) + of_bool (recv_owns (os_recv s))
     \<and> os_freed s + of_bool (os_send s = SFree) + of_bool (os_recv s = RFree)
       = of_bool (\<not> send_owns (os_send s) \<and> \<not> recv_owns (os_recv s))"

text \<open>A receiver that waits although the state has changed is owed a wake-up.\<close>

definition os_owed :: "'a oneshot \<Rightarrow> bool" where
  "os_owed s \<longleftrightarrow> os_woken s \<or> os_send s = SWake \<or> os_send s \<in> {SHeld, SWritten, STake} \<and> os_waker s"

definition wake_ok :: "'a oneshot \<Rightarrow> bool" where
  "wake_ok s \<longleftrightarrow> (os_recv s = RIdle \<longrightarrow> os_owed s)
     \<and> (os_recv s = RReload \<and> os_state s = STATE_EMPTY \<longrightarrow> os_waker s)"

definition os_ok :: "'a oneshot \<Rightarrow> bool" where
  "os_ok s \<longleftrightarrow> value_ok s \<and> refs_ok s \<and> wake_ok s"

lemma value_step: "value_ok s \<Longrightarrow> pred_option value_ok (os_step s l)"
proof (cases l)
  case SendStep
  assume "value_ok s"
  then show ?thesis using SendStep
    by (cases "os_send s") (auto simp: value_ok_def)
next
  case RecvStep
  assume "value_ok s"
  then show ?thesis using RecvStep
    by (cases "os_recv s") (auto simp: value_ok_def read_state_def split: if_splits)
next
  case ReceiverDrop
  assume "value_ok s"
  then show ?thesis using ReceiverDrop by (cases "os_recv s") (auto simp: value_ok_def)
qed (auto simp: value_ok_def)

lemma refs_step: "refs_ok s \<Longrightarrow> pred_option refs_ok (os_step s l)"
proof (cases l)
  case SendStep
  assume "refs_ok s"
  then show ?thesis using SendStep
    by (cases "os_send s") (auto simp: refs_ok_def send_owns_def recv_owns_def dec_ref_def split: if_splits)
next
  case RecvStep
  assume "refs_ok s"
  then show ?thesis using RecvStep
    by (cases "os_recv s") (auto simp: refs_ok_def send_owns_def recv_owns_def dec_ref_def read_state_def split: if_splits)
next
  case ReceiverDrop
  assume "refs_ok s"
  then show ?thesis using ReceiverDrop by (cases "os_recv s") (auto simp: refs_ok_def recv_owns_def)
qed (auto simp: refs_ok_def send_owns_def recv_owns_def)

lemma wake_step: "value_ok s \<Longrightarrow> wake_ok s \<Longrightarrow> pred_option wake_ok (os_step s l)"
proof (cases l)
  case SendStep
  assume "value_ok s" "wake_ok s"
  then show ?thesis using SendStep
    by (cases "os_send s") (auto simp: value_ok_def wake_ok_def os_owed_def)
next
  case RecvStep
  assume "value_ok s" "wake_ok s"
  then show ?thesis using RecvStep
    by (cases "os_recv s") (auto simp: value_ok_def wake_ok_def os_owed_def read_state_def split: if_splits)
next
  case ReceiverDrop
  assume "wake_ok s"
  then show ?thesis using ReceiverDrop by (cases "os_recv s") (auto simp: wake_ok_def)
qed (auto simp: wake_ok_def os_owed_def)

lemma os_step_ok: "os_ok s \<Longrightarrow> os_step s l = Some s' \<Longrightarrow> os_ok s'"
  using value_step [of s l] refs_step [of s l] wake_step [of s l] by (simp add: os_ok_def)

lemma channel_ok: "os_ok channel"
  by (simp add: os_ok_def channel_def value_ok_def refs_ok_def send_owns_def recv_owns_def wake_ok_def os_owed_def)

interpretation osi: kept os_step channel os_ok
  by unfold_locales (fact channel_ok, fact os_step_ok)

text \<open>What was sent is in the schedule.\<close>

definition sent_by :: "'a os_label list \<Rightarrow> 'a oneshot \<Rightarrow> bool" where
  "sent_by ls s \<longleftrightarrow> (\<forall>v. os_value s = Some v \<longrightarrow> Send v \<in> set ls) \<and> (os_state s = STATE_CLOSED \<longrightarrow> SenderDrop \<in> set ls)"

lemma sent_by_step: "sent_by ls s \<Longrightarrow> pred_option (sent_by (ls @ [l])) (os_step s l)"
proof (cases l)
  case SendStep
  assume "sent_by ls s"
  then show ?thesis using SendStep by (cases "os_send s") (auto simp: sent_by_def)
next
  case RecvStep
  assume "sent_by ls s"
  then show ?thesis using RecvStep by (cases "os_recv s") (auto simp: sent_by_def)
next
  case ReceiverDrop
  assume "sent_by ls s"
  then show ?thesis using ReceiverDrop by (cases "os_recv s") (auto simp: sent_by_def)
qed (auto simp: sent_by_def)

lemma run_sent_by: "run os_step channel ls = Some s \<Longrightarrow> sent_by ls s"
proof (induction ls arbitrary: s rule: rev_induct)
  case Nil
  then show ?case by (auto simp: sent_by_def channel_def)
next
  case (snoc l ls)
  then obtain s1 where "run os_step channel ls = Some s1" "os_step s1 l = Some s"
    by (auto simp: run_append split: Option.bind_splits)
  then show ?case using snoc.IH sent_by_step [of ls s1 l] by simp
qed

text \<open>From a change of the state to the result, by steps of the two halves.\<close>

lemma woken_gets:
  assumes "os_recv s = RIdle" "os_woken s" "os_state s \<noteq> STATE_EMPTY" "value_ok s"
  shows "\<exists>s'. run os_step s [PollStart, RecvStep] = Some s' \<and> os_recv s' = RGot (os_value s)"
proof -
  have "os_state s = (if os_value s = None then STATE_CLOSED else STATE_SENT)"
    using assms(3,4) by (cases "os_send s") (auto simp: value_ok_def)
  then show ?thesis using assms(1,2) by (auto simp: read_state_def)
qed

lemma owed_gets:
  assumes "os_ok s" "os_recv s = RIdle" "os_state s \<noteq> STATE_EMPTY"
  shows "\<exists>ls s'. set ls \<subseteq> {SendStep, PollStart, RecvStep} \<and> length ls \<le> 4 \<and> run os_step s ls = Some s'
    \<and> os_recv s' = RGot (os_value s)"
proof -
  have v: "value_ok s" using assms(1) by (simp add: os_ok_def)
  then have pc: "os_send s \<noteq> SHeld" "os_send s \<noteq> SWritten" using assms(3) by (auto simp: value_ok_def)
  have "os_owed s" using assms(1,2) by (simp add: os_ok_def wake_ok_def)
  then consider (woken) "os_woken s" | (wake) "os_send s = SWake" | (take) "os_send s = STake" "os_waker s"
    using pc by (auto simp: os_owed_def)
  then show ?thesis
  proof cases
    case woken
    from woken_gets [OF assms(2) this assms(3) v] show ?thesis
      by (intro exI [of _ "[PollStart, RecvStep]"]) simp
  next
    case wake
    then have one: "os_step s SendStep = Some (s\<lparr>os_woken := True, os_send := SDec\<rparr>)" by simp
    from os_step_ok [OF assms(1) one] woken_gets [of "s\<lparr>os_woken := True, os_send := SDec\<rparr>"] one assms(2,3)
    show ?thesis by (intro exI [of _ "[SendStep, PollStart, RecvStep]"]) (simp add: os_ok_def)
  next
    case take
    then have one: "os_step s SendStep = Some (s\<lparr>os_waker := False, os_send := SWake\<rparr>)" by simp
    have two: "os_step (s\<lparr>os_waker := False, os_send := SWake\<rparr>) SendStep
      = Some (s\<lparr>os_waker := False, os_woken := True, os_send := SDec\<rparr>)" by simp
    from os_step_ok [OF os_step_ok [OF assms(1) one] two] one two assms(2,3)
      woken_gets [of "s\<lparr>os_waker := False, os_woken := True, os_send := SDec\<rparr>"]
    show ?thesis by (intro exI [of _ "[SendStep, SendStep, PollStart, RecvStep]"]) (simp add: os_ok_def)
  qed
qed



text \<open>
  The waker is a data race: a schedule brings the receiver to the point
  where it writes the waker, having seen no value, while the sender, having
  stored the value, is about to take the waker out.  Neither access is atomic.
\<close>

theorem oneshot_waker_race:
  "\<exists>ls s. run os_step (channel :: nat oneshot) ls = Some s \<and> os_recv s = RStore \<and> os_send s = STake"
  by (intro exI [of _ "[PollStart, RecvStep, Send 7, SendStep]"]) (simp add: channel_def read_state_def)

end
