(* ===== verification/Unsafe_List.thy ===== *)
theory Unsafe_List
  imports Rko_Prelude
begin

text \<open>
  The intrusive circular list of \<open>rko-core/src/unsafe_list.rs\<close> on an explicit
  heap of links.  An entry is named by the address of its links, which is what
  an adapter promises; dereferencing a null pointer is the result \<open>None\<close>.
\<close>

section \<open>Operations\<close>

type_synonym addr = nat

record links =
  l_next :: "addr option"
  l_prev :: "addr option"

type_synonym link_heap = "addr \<Rightarrow> links"

definition links_new :: links where
  "links_new = \<lparr>l_next = None, l_prev = None\<rparr>"

definition is_linked :: "links \<Rightarrow> bool" where
  "is_linked l \<longleftrightarrow> l_next l \<noteq> None"

definition set_next :: "addr option \<Rightarrow> addr option \<Rightarrow> link_heap \<Rightarrow> link_heap option" where
  "set_next p v h = map_option (\<lambda>a. h(a := (h a)\<lparr>l_next := v\<rparr>)) p"

definition set_prev :: "addr option \<Rightarrow> addr option \<Rightarrow> link_heap \<Rightarrow> link_heap option" where
  "set_prev p v h = map_option (\<lambda>a. h(a := (h a)\<lparr>l_prev := v\<rparr>)) p"

text \<open>A new list is built at one address and, being returned by value, moved to another.\<close>

definition list_new :: "addr \<Rightarrow> link_heap \<Rightarrow> link_heap" where
  "list_new a h = h(a := \<lparr>l_next = Some a, l_prev = Some a\<rparr>)"

definition move_list :: "addr \<Rightarrow> addr \<Rightarrow> link_heap \<Rightarrow> link_heap" where
  "move_list a b h = h(b := h a)"

definition ul_is_empty :: "addr \<Rightarrow> link_heap \<Rightarrow> bool" where
  "ul_is_empty hp h \<longleftrightarrow> l_next (h hp) = Some hp"

definition push_back :: "addr \<Rightarrow> addr \<Rightarrow> link_heap \<Rightarrow> link_heap option" where
  "push_back hp e h =
     (let tail = l_prev (h hp) in
      Option.bind (set_prev (Some e) tail h) (\<lambda>h.
      Option.bind (set_next (Some e) (Some hp) h) (\<lambda>h.
      Option.bind (set_next tail (Some e) h) (\<lambda>h.
      set_prev (Some hp) (Some e) h))))"

definition pop_front :: "addr \<Rightarrow> link_heap \<Rightarrow> (addr option \<times> link_heap) option" where
  "pop_front hp h =
     (if ul_is_empty hp h then Some (None, h)
      else case l_next (h hp) of
        None \<Rightarrow> None
      | Some first \<Rightarrow>
          let second = l_next (h first) in
          Option.bind (set_next (Some hp) second h) (\<lambda>h.
          Option.bind (set_prev second (Some hp) h) (\<lambda>h.
          Some (Some first, h(first := links_new)))))"

definition ul_front :: "addr \<Rightarrow> link_heap \<Rightarrow> addr option" where
  "ul_front hp h = (if ul_is_empty hp h then None else l_next (h hp))"

definition ul_remove :: "addr \<Rightarrow> link_heap \<Rightarrow> link_heap option" where
  "ul_remove e h =
     (let prev = l_prev (h e); next = l_next (h e) in
      Option.bind (set_next prev next h) (\<lambda>h.
      Option.bind (set_prev next prev h) (\<lambda>h.
      Some (h(e := links_new)))))"


section \<open>Refinement of lists\<close>

fun chain :: "link_heap \<Rightarrow> addr list \<Rightarrow> bool" where
  "chain h (a # b # as) \<longleftrightarrow> l_next (h a) = Some b \<and> l_prev (h b) = Some a \<and> chain h (b # as)"
| "chain h _ \<longleftrightarrow> True"

text \<open>The ring from the sentinel through the entries and back.\<close>

definition dll :: "addr \<Rightarrow> addr list \<Rightarrow> link_heap \<Rightarrow> bool" where
  "dll hp xs h \<longleftrightarrow> distinct (hp # xs) \<and> chain h (hp # xs @ [hp])"

lemma chain_append: "chain h (as @ x # bs) \<longleftrightarrow> chain h (as @ [x]) \<and> chain h (x # bs)"
proof (induction as)
  case (Cons a as)
  then show ?case by (cases as) auto
qed simp

lemma chain_cong:
  assumes "\<forall>a \<in> set (butlast as). l_next (h' a) = l_next (h a)" "\<forall>b \<in> set (tl as). l_prev (h' b) = l_prev (h b)"
  shows "chain h' as \<longleftrightarrow> chain h as"
  using assms by (induction h as rule: chain.induct) auto

lemma dll_new: "dll a [] (list_new a h)"
  by (simp add: dll_def list_new_def)

lemma dll_front:
  assumes "dll hp xs h"
  shows "ul_is_empty hp h \<longleftrightarrow> xs = []" "ul_front hp h = (case xs of [] \<Rightarrow> None | x # _ \<Rightarrow> Some x)"
  using assms by (cases xs; auto simp: dll_def ul_is_empty_def ul_front_def)+

lemma dll_push:
  assumes "dll hp xs h" "e \<notin> set (hp # xs)"
  shows "\<exists>h'. push_back hp e h = Some h' \<and> dll hp (xs @ [e]) h' \<and> (\<forall>a. a \<notin> set (e # hp # xs) \<longrightarrow> h' a = h a)"
proof -
  obtain ys t where yt: "hp # xs = ys @ [t]" by (metis rev_exhaust list.distinct(1))
  have "chain h ((hp # xs) @ [hp])" using assms(1) by (simp add: dll_def)
  then have c: "chain h (ys @ [t])" "l_prev (h hp) = Some t" using chain_append [of h ys t "[hp]"] unfolding yt by simp_all
  have d: "distinct (ys @ [t])" "e \<notin> set (ys @ [t])" "hp \<notin> set (tl (ys @ [t]))" "hp \<in> set (ys @ [t])"
    unfolding yt [symmetric] using assms by (simp_all add: dll_def)
  obtain h' where h': "push_back hp e h = Some h'"
      "\<And>a. l_next (h' a) = (if a = t then Some e else if a = e then Some hp else l_next (h a))"
      "\<And>a. l_prev (h' a) = (if a = hp then Some e else if a = e then Some t else l_prev (h a))"
      "\<And>a. a \<notin> {e, t, hp} \<Longrightarrow> h' a = h a"
    using c(2) d(2,4) by (auto simp: push_back_def set_next_def set_prev_def Let_def)
  have "e \<noteq> t" "e \<noteq> hp" using d(2,4) by auto
  have "set (tl (ys @ [t])) \<subseteq> set (ys @ [t])" by (cases ys) auto
  then have "\<forall>a \<in> set ys. a \<noteq> t \<and> a \<noteq> e" "\<forall>b \<in> set (tl (ys @ [t])). b \<noteq> hp \<and> b \<noteq> e" using d by auto
  then have "chain h' (ys @ [t])" using c(1) h'(2,3) by (subst chain_cong [of _ h' h]) simp_all
  then have "chain h' (ys @ t # [e, hp])"
    unfolding chain_append [of h' ys t "[e, hp]"] using h'(2,3) \<open>e \<noteq> t\<close> \<open>e \<noteq> hp\<close> by auto
  then have "chain h' ((ys @ [t]) @ [e, hp])" by simp
  then have "dll hp (xs @ [e]) h'" unfolding yt [symmetric] using assms by (simp add: dll_def)
  moreover have "t \<in> set (hp # xs)" unfolding yt by simp
  then have "h' a = h a" if "a \<notin> set (e # hp # xs)" for a using that by (intro h'(4)) auto
  ultimately show ?thesis using h'(1) by blast
qed

lemma dll_remove:
  assumes "dll hp (as @ e # bs) h"
  shows "\<exists>h'. ul_remove e h = Some h' \<and> dll hp (as @ bs) h' \<and> h' e = links_new
    \<and> (\<forall>a. a \<notin> set (e # hp # as @ bs) \<longrightarrow> h' a = h a)"
proof -
  obtain ys p where yp: "hp # as = ys @ [p]" by (metis rev_exhaust list.distinct(1))
  obtain n zs where nz: "bs @ [hp] = n # zs" by (metis append_is_Nil_conv list.distinct(1) neq_Nil_conv)
  have "chain h ((hp # as) @ e # bs @ [hp])" using assms by (simp add: dll_def)
  then have "chain h (ys @ p # e # n # zs)" unfolding yp nz by simp
  then have c: "chain h (ys @ [p])" "chain h (p # e # n # zs)" using chain_append by blast+
  then have en: "l_prev (h e) = Some p" "l_next (h e) = Some n" "chain h (n # zs)" by simp_all
  have d: "distinct (hp # as)" "distinct bs" "set (hp # as) \<inter> set bs = {}" "e \<notin> set (hp # as)" "e \<notin> set bs"
    using assms by (auto simp: dll_def)
  have tl: "tl (ys @ [p]) = as" using yp by (metis list.sel(3))
  have "distinct (ys @ [p])" "set (ys @ [p]) = set (hp # as)" using d(1) yp by simp_all
  then have p: "p \<notin> set ys" "set (ys @ [p]) = set (hp # as)" "p \<in> set (hp # as)" by auto
  have n: "n \<in> insert hp (set bs)" "set (butlast (n # zs)) = set bs" "n \<notin> set zs" "set zs \<subseteq> insert hp (set bs)"
    unfolding nz [symmetric] using nz d by (cases bs; auto)+
  obtain h' where h': "ul_remove e h = Some h'" "h' e = links_new"
      "\<And>a. a \<noteq> e \<Longrightarrow> l_next (h' a) = (if a = p then Some n else l_next (h a))"
      "\<And>a. a \<noteq> e \<Longrightarrow> l_prev (h' a) = (if a = n then Some p else l_prev (h a))"
      "\<And>a. a \<notin> {e, p, n} \<Longrightarrow> h' a = h a"
    using en(1,2) by (auto simp: ul_remove_def set_next_def set_prev_def)
  have "set ys \<subseteq> set (hp # as)" using p(2) by auto
  then have "\<forall>a \<in> set ys. a \<noteq> e \<and> a \<noteq> p" "\<forall>b \<in> set as. b \<noteq> e \<and> b \<noteq> n" using p(1) n(1) d by auto
  then have "chain h' (ys @ [p])" using c(1) h'(3,4) by (subst chain_cong [of _ h' h]) (simp_all add: tl)
  moreover have "\<forall>a \<in> set bs. a \<noteq> e \<and> a \<noteq> p" "\<forall>b \<in> set zs. b \<noteq> e \<and> b \<noteq> n" using p(3) n(3,4) d by auto
  then have "chain h' (n # zs)" using en(3) n(2) h'(3,4) by (subst chain_cong [of _ h' h]) simp_all
  moreover have "p \<noteq> e" "n \<noteq> e" using p(3) n(1) d by auto
  ultimately have "chain h' (ys @ p # n # zs)" unfolding chain_append [of h' ys p "n # zs"] using h'(3,4) by simp
  then have "chain h' ((ys @ [p]) @ n # zs)" by simp
  then have "chain h' ((hp # as) @ bs @ [hp])" unfolding yp [symmetric] nz [symmetric] .
  then have "dll hp (as @ bs) h'" using d by (auto simp: dll_def)
  moreover have "h' a = h a" if "a \<notin> set (e # hp # as @ bs)" for a using that p(3) n(1) by (intro h'(5)) auto
  ultimately show ?thesis using h'(1,2) by blast
qed

text \<open>Popping the front is removing it.\<close>

lemma pop_front_removes:
  assumes "dll hp (x # xs) h"
  shows "pop_front hp h = map_option (Pair (Some x)) (ul_remove x h)"
proof -
  have "\<not> ul_is_empty hp h" using dll_front(1) [OF assms] by simp
  moreover have "l_next (h hp) = Some x" "l_prev (h x) = Some hp" using assms by (auto simp: dll_def)
  ultimately show ?thesis
    by (cases "l_next (h x)") (auto simp: pop_front_def ul_remove_def set_next_def set_prev_def)
qed

lemma dll_pop:
  assumes "dll hp (x # xs) h"
  shows "\<exists>h'. pop_front hp h = Some (Some x, h') \<and> dll hp xs h' \<and> h' x = links_new
    \<and> (\<forall>a. a \<notin> set (x # hp # xs) \<longrightarrow> h' a = h a)"
  using dll_remove [of hp "[]" x xs h] assms pop_front_removes [OF assms] by auto

lemma dll_linked:
  assumes "dll hp xs h" "x \<in> set xs"
  shows "is_linked (h x)"
proof -
  obtain as bs where "xs = as @ x # bs" using split_list [OF assms(2)] by blast
  then have "chain h ((hp # as) @ x # bs @ [hp])" using assms(1) by (simp add: dll_def)
  then have "chain h (x # bs @ [hp])" using chain_append by blast
  then show ?thesis by (cases bs) (auto simp: is_linked_def)
qed

section \<open>Properties\<close>

text \<open>C27. The intrusive list implements sequences. On a ring that holds \<open>xs\<close>:
  emptiness and the front are those of \<open>xs\<close>; pushing an entry of no list appends
  it; popping returns the first entry and leaves the rest, or returns nothing and
  changes nothing when there is none; removing an entry deletes exactly it; the
  entries are linked and an entry taken out is not; and no link outside the ring and
  the entry is written.\<close>

theorem unsafe_list_refines:
  assumes "dll hp xs h"
  shows "(ul_is_empty hp h \<longleftrightarrow> xs = []) \<and> ul_front hp h = (case xs of [] \<Rightarrow> None | x # _ \<Rightarrow> Some x)
    \<and> (\<forall>x \<in> set xs. is_linked (h x))
    \<and> (e \<notin> set (hp # xs) \<longrightarrow> (\<exists>h'. push_back hp e h = Some h' \<and> dll hp (xs @ [e]) h'
         \<and> (\<forall>a. a \<notin> set (e # hp # xs) \<longrightarrow> h' a = h a)))
    \<and> (case xs of [] \<Rightarrow> pop_front hp h = Some (None, h)
       | x # ys \<Rightarrow> \<exists>h'. pop_front hp h = Some (Some x, h') \<and> dll hp ys h' \<and> \<not> is_linked (h' x)
           \<and> (\<forall>a. a \<notin> set (hp # xs) \<longrightarrow> h' a = h a))
    \<and> (e \<in> set xs \<longrightarrow> (\<exists>h'. ul_remove e h = Some h' \<and> dll hp (remove1 e xs) h' \<and> \<not> is_linked (h' e)
         \<and> (\<forall>a. a \<notin> set (hp # xs) \<longrightarrow> h' a = h a)))"
proof (intro conjI impI ballI)
  show "ul_is_empty hp h \<longleftrightarrow> xs = []" "ul_front hp h = (case xs of [] \<Rightarrow> None | x # _ \<Rightarrow> Some x)"
    using dll_front [OF assms] .
  show "is_linked (h x)" if "x \<in> set xs" for x using dll_linked [OF assms that] .
  show "\<exists>h'. push_back hp e h = Some h' \<and> dll hp (xs @ [e]) h' \<and> (\<forall>a. a \<notin> set (e # hp # xs) \<longrightarrow> h' a = h a)"
    if "e \<notin> set (hp # xs)" using dll_push [OF assms that] .
  show "case xs of [] \<Rightarrow> pop_front hp h = Some (None, h)
     | x # ys \<Rightarrow> \<exists>h'. pop_front hp h = Some (Some x, h') \<and> dll hp ys h' \<and> \<not> is_linked (h' x)
         \<and> (\<forall>a. a \<notin> set (hp # xs) \<longrightarrow> h' a = h a)"
  proof (cases xs)
    case Nil
    then show ?thesis using dll_front(1) [OF assms] by (simp add: pop_front_def)
  next
    case (Cons x ys)
    then obtain h' where "pop_front hp h = Some (Some x, h')" "dll hp ys h'" "h' x = links_new"
        "\<forall>a. a \<notin> set (x # hp # ys) \<longrightarrow> h' a = h a"
      using dll_pop [of hp x ys h] assms by blast
    then show ?thesis using Cons by (auto simp: is_linked_def links_new_def)
  qed
next
  assume "e \<in> set xs"
  then obtain as bs where x: "xs = as @ e # bs" "e \<notin> set as" by (meson split_list_first)
  then obtain h' where "ul_remove e h = Some h'" "dll hp (as @ bs) h'" "h' e = links_new"
      "\<forall>a. a \<notin> set (e # hp # as @ bs) \<longrightarrow> h' a = h a"
    using dll_remove [of hp as e bs h] assms by blast
  then show "\<exists>h'. ul_remove e h = Some h' \<and> dll hp (remove1 e xs) h' \<and> \<not> is_linked (h' e)
      \<and> (\<forall>a. a \<notin> set (hp # xs) \<longrightarrow> h' a = h a)"
    using x by (auto simp: remove1_append is_linked_def links_new_def)
qed

theorem unsafe_list_refines_witness:
  "dll 9 [] (list_new 9 (\<lambda>_. links_new)) \<and> (\<exists>h'. push_back 9 4 (list_new 9 (\<lambda>_. links_new)) = Some h' \<and> dll 9 [4] h')"
  using unsafe_list_refines [where e = 4, OF dll_new [of 9 "\<lambda>_. links_new"]] dll_new by auto

text \<open>C40. The constructor breaks the ring. \<open>List::new\<close> points the sentinel at its own
  address and then returns the list by value: at every other address the moved list is
  not empty, its front is the dead sentinel, and an entry pushed is written into that
  dead sentinel and is not the front.\<close>

theorem moved_list_broken:
  assumes "a \<noteq> b" "e \<notin> {a, b}"
  shows "\<not> dll b xs (move_list a b (list_new a h))
    \<and> \<not> ul_is_empty b (move_list a b (list_new a h)) \<and> ul_front b (move_list a b (list_new a h)) = Some a
    \<and> (\<exists>h'. push_back b e (move_list a b (list_new a h)) = Some h' \<and> l_next (h' a) = Some e
         \<and> ul_front b h' = Some a)"
proof (intro conjI)
  let ?h = "move_list a b (list_new a h)"
  show e: "\<not> ul_is_empty b ?h" and f: "ul_front b ?h = Some a"
    using assms(1) by (simp_all add: ul_is_empty_def ul_front_def move_list_def list_new_def)
  show "\<not> dll b xs ?h"
  proof
    assume d: "dll b xs ?h"
    then obtain ys where "xs = a # ys" using e f dll_front [OF d] by (cases xs) auto
    then show False using d assms(1) by (auto simp: dll_def move_list_def list_new_def)
  qed
  show "\<exists>h'. push_back b e ?h = Some h' \<and> l_next (h' a) = Some e \<and> ul_front b h' = Some a"
    using assms by (auto simp: push_back_def set_next_def set_prev_def move_list_def list_new_def ul_front_def ul_is_empty_def Let_def)
qed

theorem moved_list_broken_witness:
  "ul_front 2 (move_list 1 2 (list_new 1 (\<lambda>_. links_new))) = Some 1"
  using moved_list_broken [of 1 2 3 "[]" "\<lambda>_. links_new"] by simp

end
