(* ===== verification/Kernel_Box.thy ===== *)
theory Kernel_Box
  imports Kernel_Vec Interleaving
begin

text \<open>
  Boxes on the kernel heap, \<open>rko-core/src/alloc/kbox.rs\<close>, and the strings
  built on them, \<open>rko-core/src/types/cstring.rs\<close>.  The heap maps the
  addresses of live allocations to blocks of slots; releasing a dead address,
  or reading or dropping an empty slot, is recorded as a fault.  What the
  kernel answers to an allocation, a fresh address or nothing, is an argument.
\<close>

section \<open>The heap\<close>

record 'a kheap =
  kh_live :: "nat \<rightharpoonup> 'a block"
  kh_dropped :: "'a list"
  kh_fault :: bool

definition kh_new :: "'a kheap" where
  "kh_new = \<lparr>kh_live = (\<lambda>_. None), kh_dropped = [], kh_fault = False\<rparr>"

text \<open>The address of \<open>NonNull::<u8>::dangling()\<close>, and the largest that \<open>kfree\<close> ignores.\<close>

definition DANGLING :: nat where "DANGLING = 1"
definition ZERO_SIZE_PTR :: nat where "ZERO_SIZE_PTR = 16"

definition fresh :: "nat option \<Rightarrow> 'a kheap \<Rightarrow> bool" where
  "fresh answer h \<longleftrightarrow> (\<forall>a. answer = Some a \<longrightarrow> ZERO_SIZE_PTR < a \<and> kh_live h a = None)"

definition kmalloc :: "nat option \<Rightarrow> layout \<Rightarrow> nat \<Rightarrow> 'a kheap \<Rightarrow> (alloc_error + nat) \<times> 'a kheap" where
  "kmalloc answer layout n h =
     (if lsize layout = 0 then (Inr DANGLING, h)
      else case answer of
        None \<Rightarrow> (Inl AllocError, h)
      | Some a \<Rightarrow> (Inr a, h\<lparr>kh_live := (kh_live h)(a \<mapsto> replicate n None)\<rparr>))"

definition kfree :: "nat \<Rightarrow> 'a kheap \<Rightarrow> 'a kheap" where
  "kfree a h = (if a \<le> ZERO_SIZE_PTR then h
     else if kh_live h a = None then h\<lparr>kh_fault := True\<rparr>
     else h\<lparr>kh_live := (kh_live h)(a := None)\<rparr>)"

text \<open>The first \<open>n\<close> slots at an address; a reference to no slots needs no memory.\<close>

definition slots :: "nat \<Rightarrow> nat \<Rightarrow> 'a kheap \<Rightarrow> 'a block" where
  "slots a n h = (if n = 0 then [] else case kh_live h a of None \<Rightarrow> replicate n None | Some blk \<Rightarrow> take n blk)"

definition fill_slots :: "nat \<Rightarrow> 'a list \<Rightarrow> 'a kheap \<Rightarrow> 'a kheap" where
  "fill_slots a vs h = (if vs = [] then h
     else case kh_live h a of
       Some blk \<Rightarrow> if length vs \<le> length blk then h\<lparr>kh_live := (kh_live h)(a \<mapsto> map Some vs @ drop (length vs) blk)\<rparr>
                   else h\<lparr>kh_fault := True\<rparr>
     | None \<Rightarrow> h\<lparr>kh_fault := True\<rparr>)"

definition live_values :: "'a block \<Rightarrow> 'a list" where
  "live_values blk = map the (filter (\<lambda>x. x \<noteq> None) blk)"


section \<open>Boxes\<close>

text \<open>A thin box has one slot, a box of a slice as many as the slice has elements.\<close>

record kbox =
  bx_ptr :: nat
  bx_len :: nat

definition box_new :: "elem_ty \<Rightarrow> nat option \<Rightarrow> 'a \<Rightarrow> 'a kheap \<Rightarrow> (alloc_error + kbox) \<times> 'a kheap" where
  "box_new ty answer val h =
     (case kmalloc answer \<lparr>lsize = size_of ty, lalign = align_of ty\<rparr> 1 h of
        (Inl e, h1) \<Rightarrow> (Inl e, h1\<lparr>kh_dropped := kh_dropped h1 @ [val]\<rparr>)
      | (Inr a, h1) \<Rightarrow> (Inr \<lparr>bx_ptr = a, bx_len = 1\<rparr>, fill_slots a [val] h1))"

definition box_into_inner :: "kbox \<Rightarrow> 'a kheap \<Rightarrow> 'a option \<times> 'a kheap" where
  "box_into_inner b h =
     (case slots (bx_ptr b) 1 h of
        [Some v] \<Rightarrow> (Some v, kfree (bx_ptr b) h)
      | _ \<Rightarrow> (None, h\<lparr>kh_fault := True\<rparr>))"

definition box_from_raw :: "nat \<times> nat \<Rightarrow> kbox" where
  "box_from_raw p = \<lparr>bx_ptr = fst p, bx_len = snd p\<rparr>"

definition box_into_raw :: "kbox \<Rightarrow> nat \<times> nat" where
  "box_into_raw b = (bx_ptr b, bx_len b)"

text \<open>\<open>init\<close> is what the initialiser answers: an error, or the value it has built in place.\<close>

definition box_pin_init ::
  "elem_ty \<Rightarrow> (alloc_error \<Rightarrow> 'e) \<Rightarrow> nat option \<Rightarrow> 'e + 'a \<Rightarrow> 'a kheap \<Rightarrow> ('e + kbox) \<times> 'a kheap" where
  "box_pin_init ty from_alloc answer init h =
     (case kmalloc answer \<lparr>lsize = size_of ty, lalign = align_of ty\<rparr> 1 h of
        (Inl e, h1) \<Rightarrow> (Inl (from_alloc e), h1)
      | (Inr a, h1) \<Rightarrow>
          (case init of
             Inl e \<Rightarrow> (Inl e, h1)
           | Inr val \<Rightarrow> (Inr \<lparr>bx_ptr = a, bx_len = 1\<rparr>, fill_slots a [val] h1)))"

definition box_new_zeroed_slice ::
  "elem_ty \<Rightarrow> 'a \<Rightarrow> nat option \<Rightarrow> nat \<Rightarrow> 'a kheap \<Rightarrow> (alloc_error + kbox) \<times> 'a kheap" where
  "box_new_zeroed_slice ty zero answer len h =
     (case array_layout ty len of
        Inl e \<Rightarrow> (Inl e, h)
      | Inr layout \<Rightarrow>
          (case kmalloc answer layout len h of
             (Inl e, h1) \<Rightarrow> (Inl e, h1)
           | (Inr a, h1) \<Rightarrow> (Inr \<lparr>bx_ptr = a, bx_len = len\<rparr>, fill_slots a (replicate len zero) h1)))"

text \<open>\<open>b.copy_from_slice(data)\<close> panics unless the lengths agree.\<close>

definition copy_from_slice :: "kbox \<Rightarrow> 'a list \<Rightarrow> 'a kheap \<Rightarrow> (alloc_error + unit) \<times> 'a kheap" where
  "copy_from_slice b data h = (if bx_len b = length data then (Inr (), fill_slots (bx_ptr b) data h) else (Inl IndexPanic, h))"

definition box_new_slice_copy ::
  "elem_ty \<Rightarrow> 'a \<Rightarrow> nat option \<Rightarrow> 'a list \<Rightarrow> 'a kheap \<Rightarrow> (alloc_error + kbox) \<times> 'a kheap" where
  "box_new_slice_copy ty zero answer data h =
     (case box_new_zeroed_slice ty zero answer (length data) h of
        (Inl e, h1) \<Rightarrow> (Inl e, h1)
      | (Inr b, h1) \<Rightarrow> (case copy_from_slice b data h1 of (Inl e, h2) \<Rightarrow> (Inl e, h2) | (Inr _, h2) \<Rightarrow> (Inr b, h2)))"

definition box_new_zeroed_bytes :: "nat option \<Rightarrow> nat \<Rightarrow> byte kheap \<Rightarrow> (alloc_error + kbox) \<times> byte kheap" where
  "box_new_zeroed_bytes answer len h =
     (case from_size_align len 1 of
        None \<Rightarrow> (Inl AllocError, h)
      | Some layout \<Rightarrow>
          (case kmalloc answer layout len h of
             (Inl e, h1) \<Rightarrow> (Inl e, h1)
           | (Inr a, h1) \<Rightarrow> (Inr \<lparr>bx_ptr = a, bx_len = len\<rparr>, fill_slots a (replicate len 0) h1)))"

definition box_new_slice :: "nat option \<Rightarrow> byte list \<Rightarrow> byte kheap \<Rightarrow> (alloc_error + kbox) \<times> byte kheap" where
  "box_new_slice answer data h =
     (case box_new_zeroed_bytes answer (length data) h of
        (Inl e, h1) \<Rightarrow> (Inl e, h1)
      | (Inr b, h1) \<Rightarrow> (case copy_from_slice b data h1 of (Inl e, h2) \<Rightarrow> (Inl e, h2) | (Inr _, h2) \<Rightarrow> (Inr b, h2)))"

definition box_new_uninit_slice ::
  "elem_ty \<Rightarrow> nat option \<Rightarrow> nat \<Rightarrow> 'a kheap \<Rightarrow> (alloc_error + kbox) \<times> 'a kheap" where
  "box_new_uninit_slice ty answer len h =
     (case array_layout ty len of
        Inl e \<Rightarrow> (Inl e, h)
      | Inr layout \<Rightarrow>
          (case kmalloc answer layout len h of
             (Inl e, h1) \<Rightarrow> (Inl e, h1)
           | (Inr a, h1) \<Rightarrow> (Inr \<lparr>bx_ptr = a, bx_len = len\<rparr>, h1)))"

text \<open>Writing an element of a box of uninitialised slots, and taking the slots for initialised.\<close>

definition box_write :: "nat \<Rightarrow> 'a \<Rightarrow> kbox \<Rightarrow> 'a kheap \<Rightarrow> 'a kheap" where
  "box_write i v b h =
     (case kh_live h (bx_ptr b) of
        Some blk \<Rightarrow> if i < length blk then h\<lparr>kh_live := (kh_live h)(bx_ptr b \<mapsto> blk[i := Some v])\<rparr> else h\<lparr>kh_fault := True\<rparr>
      | None \<Rightarrow> h\<lparr>kh_fault := True\<rparr>)"

definition box_assume_init :: "kbox \<Rightarrow> kbox" where
  "box_assume_init b = box_from_raw (box_into_raw b)"

definition box_drop :: "kbox \<Rightarrow> 'a kheap \<Rightarrow> 'a kheap" where
  "box_drop b h =
     (let blk = slots (bx_ptr b) (bx_len b) h;
          h1 = h\<lparr>kh_dropped := kh_dropped h @ live_values blk, kh_fault := (kh_fault h \<or> None \<in> set blk)\<rparr>
      in kfree (bx_ptr b) h1)"

section \<open>Ownership\<close>

text \<open>
  All boxes of a program: each is held as a \<open>Box\<close> or was turned into a raw
  pointer.  \<open>ow_made\<close> and \<open>ow_moved\<close> record the values put into boxes and
  taken out again, \<open>ow_lost\<close> the allocations whose initialiser failed.
\<close>

record 'a owners =
  ow_heap :: "'a kheap"
  ow_boxes :: "(kbox \<times> bool) list"
  ow_lost :: "nat list"
  ow_made :: "'a list"
  ow_moved :: "'a list"

definition ow_new :: "'a owners" where
  "ow_new = \<lparr>ow_heap = kh_new, ow_boxes = [], ow_lost = [], ow_made = [], ow_moved = []\<rparr>"

datatype 'a box_label =
    BNew elem_ty "nat option" 'a
  | BSlice elem_ty 'a "nat option" "'a list"
  | BPinInit elem_ty "nat option" "unit + 'a"
  | BIntoInner nat
  | BDrop nat
  | BIntoRaw nat
  | BFromRaw nat

definition ow_put :: "'a kheap \<Rightarrow> kbox \<Rightarrow> 'a list \<Rightarrow> 'a owners \<Rightarrow> 'a owners" where
  "ow_put h b vs s = s\<lparr>ow_heap := h, ow_boxes := ow_boxes s @ [(b, True)], ow_made := ow_made s @ vs\<rparr>"

definition ow_held :: "'a owners \<Rightarrow> nat \<Rightarrow> bool \<Rightarrow> bool" where
  "ow_held s i boxed \<longleftrightarrow> i < length (ow_boxes s) \<and> snd (ow_boxes s ! i) = boxed"

fun ow_step :: "'a owners \<Rightarrow> 'a box_label \<Rightarrow> 'a owners option" where
  "ow_step s (BNew ty answer v) =
     (if 0 < size_of ty \<and> fresh answer (ow_heap s)
      then (case box_new ty answer v (ow_heap s) of
              (Inl _, h) \<Rightarrow> Some (s\<lparr>ow_heap := h, ow_made := ow_made s @ [v]\<rparr>)
            | (Inr b, h) \<Rightarrow> Some (ow_put h b [v] s))
      else None)"
| "ow_step s (BSlice ty zero answer vs) =
     (if 0 < size_of ty \<and> fresh answer (ow_heap s)
      then (case box_new_slice_copy ty zero answer vs (ow_heap s) of
              (Inl _, h) \<Rightarrow> Some (s\<lparr>ow_heap := h\<rparr>)
            | (Inr b, h) \<Rightarrow> Some (ow_put h b vs s))
      else None)"
| "ow_step s (BPinInit ty answer init) =
     (if 0 < size_of ty \<and> fresh answer (ow_heap s)
      then (case box_pin_init ty (\<lambda>_. ()) answer init (ow_heap s) of
              (Inl _, h) \<Rightarrow> Some (s\<lparr>ow_heap := h, ow_lost := (case answer of None \<Rightarrow> [] | Some a \<Rightarrow> [a]) @ ow_lost s\<rparr>)
            | (Inr b, h) \<Rightarrow> Some (ow_put h b (case init of Inl _ \<Rightarrow> [] | Inr v \<Rightarrow> [v]) s))
      else None)"
| "ow_step s (BIntoInner i) =
     (if ow_held s i True \<and> bx_len (fst (ow_boxes s ! i)) = 1
      then (case box_into_inner (fst (ow_boxes s ! i)) (ow_heap s) of (v, h) \<Rightarrow>
              Some (s\<lparr>ow_heap := h, ow_boxes := remove_at i (ow_boxes s), ow_moved := ow_moved s @ (case v of None \<Rightarrow> [] | Some v \<Rightarrow> [v])\<rparr>))
      else None)"
| "ow_step s (BDrop i) =
     (if ow_held s i True
      then Some (s\<lparr>ow_heap := box_drop (fst (ow_boxes s ! i)) (ow_heap s), ow_boxes := remove_at i (ow_boxes s)\<rparr>)
      else None)"
| "ow_step s (BIntoRaw i) =
     (if ow_held s i True then Some (s\<lparr>ow_boxes := (ow_boxes s)[i := (fst (ow_boxes s ! i), False)]\<rparr>) else None)"
| "ow_step s (BFromRaw i) =
     (if ow_held s i False
      then Some (s\<lparr>ow_boxes := (ow_boxes s)[i := (box_from_raw (box_into_raw (fst (ow_boxes s ! i))), True)]\<rparr>) else None)"

text \<open>A box holds one value per slot, and its memory is its own; a box of no slots has none.\<close>

definition holds :: "'a kheap \<Rightarrow> kbox \<Rightarrow> 'a list \<Rightarrow> bool" where
  "holds h b vs \<longleftrightarrow> length vs = bx_len b
     \<and> (if vs = [] then bx_ptr b \<le> ZERO_SIZE_PTR else ZERO_SIZE_PTR < bx_ptr b \<and> kh_live h (bx_ptr b) = Some (map Some vs))"

definition box_addr :: "kbox \<times> bool \<Rightarrow> nat list" where
  "box_addr x = (if bx_len (fst x) = 0 then [] else [bx_ptr (fst x)])"

definition box_values :: "'a kheap \<Rightarrow> kbox \<times> bool \<Rightarrow> 'a list" where
  "box_values h x = live_values (slots (bx_ptr (fst x)) (bx_len (fst x)) h)"

definition ow_addrs :: "'a owners \<Rightarrow> nat list" where
  "ow_addrs s = concat (map box_addr (ow_boxes s)) @ ow_lost s"

definition ow_ok :: "'a owners \<Rightarrow> bool" where
  "ow_ok s \<longleftrightarrow> \<not> kh_fault (ow_heap s) \<and> distinct (ow_addrs s) \<and> dom (kh_live (ow_heap s)) = set (ow_addrs s)
     \<and> (\<forall>x \<in> set (ow_boxes s). holds (ow_heap s) (fst x) (box_values (ow_heap s) x))
     \<and> mset (ow_made s) = mset (kh_dropped (ow_heap s)) + mset (ow_moved s)
         + mset (concat (map (box_values (ow_heap s)) (ow_boxes s)))"

lemma live_values_map [simp]: "live_values (map Some vs) = vs"
  by (induction vs) (auto simp: live_values_def)

lemma holds_slots: "holds h b vs \<Longrightarrow> slots (bx_ptr b) (bx_len b) h = map Some vs"
  by (cases "bx_len b") (auto simp: holds_def slots_def split: if_splits)

lemma holds_values: "holds h b vs \<Longrightarrow> box_values h (b, f) = vs"
  by (simp add: box_values_def holds_slots)

text \<open>An update of the heap elsewhere does not change a box.\<close>

lemma box_values_frame:
  "\<forall>a \<in> set (box_addr x). kh_live h' a = kh_live h a \<Longrightarrow> box_values h' x = box_values h x"
  by (auto simp: box_values_def box_addr_def slots_def split: if_splits)

lemma holds_frame:
  "\<forall>a \<in> set (box_addr x). kh_live h' a = kh_live h a \<Longrightarrow> holds h' (fst x) vs = holds h (fst x) vs"
  by (auto simp: holds_def box_addr_def split: if_splits)

lemma dropped_frame [simp]:
  "box_values (h\<lparr>kh_dropped := d\<rparr>) = box_values h" "holds (h\<lparr>kh_dropped := d\<rparr>) = holds h"
  by (intro ext, simp add: box_values_def holds_def slots_def)+

text \<open>The box of no slots.\<close>

lemma empty_box [simp]:
  "holds h \<lparr>bx_ptr = DANGLING, bx_len = 0\<rparr> []" "box_values h (\<lparr>bx_ptr = a, bx_len = 0\<rparr>, f) = []"
  "box_addr (\<lparr>bx_ptr = a, bx_len = 0\<rparr>, f) = []"
  by (simp_all add: holds_def box_values_def box_addr_def slots_def live_values_def DANGLING_def ZERO_SIZE_PTR_def)

lemma ow_put_ok:
  assumes "ow_ok s" "ZERO_SIZE_PTR < a" "kh_live (ow_heap s) a = None" "vs \<noteq> []"
  shows "ow_ok (ow_put ((ow_heap s)\<lparr>kh_live := (kh_live (ow_heap s))(a \<mapsto> map Some vs)\<rparr>) \<lparr>bx_ptr = a, bx_len = length vs\<rparr> vs s)"
proof -
  let ?h = "ow_heap s" and ?b = "\<lparr>bx_ptr = a, bx_len = length vs\<rparr>"
  let ?h' = "?h\<lparr>kh_live := (kh_live ?h)(a \<mapsto> map Some vs)\<rparr>"
  have d: "dom (kh_live ?h) = set (ow_addrs s)" using assms(1) by (simp add: ow_ok_def)
  then have a: "a \<notin> set (ow_addrs s)" using assms(3) by (metis domIff)
  then have fr: "\<forall>b \<in> set (box_addr x). kh_live ?h' b = kh_live ?h b" if "x \<in> set (ow_boxes s)" for x
    using that by (auto simp: ow_addrs_def)
  have new: "holds ?h' ?b vs" using assms(2,4) by (simp add: holds_def)
  have old: "\<forall>x \<in> set (ow_boxes s). holds ?h' (fst x) (box_values ?h' x)"
    using assms(1) holds_frame [OF fr] box_values_frame [OF fr] unfolding ow_ok_def by metis
  have vals: "map (box_values ?h') (ow_boxes s) = map (box_values ?h) (ow_boxes s)"
    using box_values_frame [OF fr] by simp
  have "set (ow_addrs (ow_put ?h' ?b vs s)) = insert a (set (ow_addrs s))" "distinct (ow_addrs (ow_put ?h' ?b vs s))"
    using assms(1,4) a by (auto simp: ow_addrs_def ow_put_def box_addr_def ow_ok_def)
  then show ?thesis using assms(1) d old new holds_values [OF new, of True] vals
    by (simp add: ow_ok_def ow_put_def cong: map_cong)
qed

text \<open>A box that goes away takes its memory along; its values are dropped or moved out.\<close>

definition without :: "kbox \<Rightarrow> 'a list \<Rightarrow> 'a kheap \<Rightarrow> 'a kheap" where
  "without b d h = (if bx_len b = 0 then h\<lparr>kh_dropped := d\<rparr>
     else h\<lparr>kh_live := (kh_live h)(bx_ptr b := None), kh_dropped := d\<rparr>)"

lemma without_frame:
  assumes "set (box_addr (b, f)) \<inter> set (box_addr x) = {}"
  shows "\<forall>a \<in> set (box_addr x). kh_live (without b d h) a = kh_live h a"
  using assms by (auto simp: without_def box_addr_def split: if_splits)

lemma ow_remove_ok:
  assumes "ow_ok s" "i < length (ow_boxes s)" "ow_boxes s ! i = (b, f)"
    and "mset d + mset m = mset (kh_dropped (ow_heap s)) + mset (ow_moved s) + mset (box_values (ow_heap s) (b, f))"
  shows "ow_ok (s\<lparr>ow_heap := without b d (ow_heap s), ow_boxes := remove_at i (ow_boxes s), ow_moved := m\<rparr>)"
proof -
  let ?h = "ow_heap s" and ?h' = "without b d (ow_heap s)"
  define xs ys where "xs = take i (ow_boxes s)" and "ys = drop (Suc i) (ow_boxes s)"
  have bs: "ow_boxes s = xs @ (b, f) # ys" "remove_at i (ow_boxes s) = xs @ ys"
    using assms(2,3) by (simp_all add: xs_def ys_def remove_at_def id_take_nth_drop [symmetric] flip: assms(3))
  have dist: "distinct (ow_addrs s)" and dm: "dom (kh_live ?h) = set (ow_addrs s)" using assms(1) by (simp_all add: ow_ok_def)
  have disj: "set (box_addr (b, f)) \<inter> set (box_addr x) = {}" if "x \<in> set (xs @ ys)" for x
    using dist that by (auto simp: ow_addrs_def bs(1))
  have old: "\<forall>x \<in> set (xs @ ys). holds ?h' (fst x) (box_values ?h' x)"
    using assms(1) holds_frame [OF without_frame, OF disj] box_values_frame [OF without_frame, OF disj]
    unfolding ow_ok_def bs(1) by (metis Un_iff insertCI list.set(2) set_append)
  have vals: "map (box_values ?h') (xs @ ys) = map (box_values ?h) (xs @ ys)"
    using box_values_frame [OF without_frame, OF disj] by (intro map_cong refl)
  have "dom (kh_live ?h') = set (concat (map box_addr (xs @ ys)) @ ow_lost s)"
    using dm dist by (auto simp: without_def ow_addrs_def bs(1) box_addr_def split: if_splits)
  moreover have "\<not> kh_fault ?h'" "kh_dropped ?h' = d" using assms(1) by (simp_all add: without_def ow_ok_def)
  moreover have "mset (ow_made s) = mset d + mset m + mset (concat (map (box_values ?h) (xs @ ys)))"
    using assms(1,4) by (simp add: ow_ok_def bs(1) ac_simps)
  moreover have "distinct (concat (map box_addr (xs @ ys)) @ ow_lost s)" using dist by (auto simp: ow_addrs_def bs(1))
  ultimately show ?thesis using old vals
    by (simp add: ow_ok_def ow_addrs_def bs(2) cong: map_cong)
qed

text \<open>What each operation does to the heap.\<close>

lemma box_new_cases:
  assumes "0 < size_of ty" "fresh answer h"
  obtains "answer = None" "box_new ty answer v h = (Inl AllocError, h\<lparr>kh_dropped := kh_dropped h @ [v]\<rparr>)"
  | a where "answer = Some a" "ZERO_SIZE_PTR < a" "kh_live h a = None"
      "box_new ty answer v h = (Inr \<lparr>bx_ptr = a, bx_len = 1\<rparr>, h\<lparr>kh_live := (kh_live h)(a \<mapsto> map Some [v])\<rparr>)"
  using assms that by (cases answer) (auto simp: box_new_def kmalloc_def fill_slots_def fresh_def)

lemma box_pin_init_cases:
  assumes "0 < size_of ty" "fresh answer h"
  obtains "answer = None" "box_pin_init ty from_alloc answer init h = (Inl (from_alloc AllocError), h)"
  | a e where "answer = Some a" "ZERO_SIZE_PTR < a" "kh_live h a = None" "init = Inl e"
      "box_pin_init ty from_alloc answer init h = (Inl e, h\<lparr>kh_live := (kh_live h)(a \<mapsto> [None])\<rparr>)"
  | a v where "answer = Some a" "ZERO_SIZE_PTR < a" "kh_live h a = None" "init = Inr v"
      "box_pin_init ty from_alloc answer init h
         = (Inr \<lparr>bx_ptr = a, bx_len = 1\<rparr>, h\<lparr>kh_live := (kh_live h)(a \<mapsto> map Some [v])\<rparr>)"
  using assms that by (cases answer; cases init) (auto simp: box_pin_init_def kmalloc_def fill_slots_def fresh_def)

lemma fill_twice:
  assumes "kh_live h a = Some (replicate (length vs) None)" "vs \<noteq> []"
  shows "fill_slots a vs (fill_slots a (replicate (length vs) z) h) = h\<lparr>kh_live := (kh_live h)(a \<mapsto> map Some vs)\<rparr>"
  using assms by (simp add: fill_slots_def)

lemma box_new_slice_copy_cases:
  assumes "0 < size_of ty" "fresh answer h"
  obtains "box_new_slice_copy ty zero answer vs h = (Inl AllocError, h)"
  | "vs = []" "box_new_slice_copy ty zero answer vs h = (Inr \<lparr>bx_ptr = DANGLING, bx_len = 0\<rparr>, h)"
  | a where "vs \<noteq> []" "answer = Some a" "ZERO_SIZE_PTR < a" "kh_live h a = None"
      "box_new_slice_copy ty zero answer vs h
         = (Inr \<lparr>bx_ptr = a, bx_len = length vs\<rparr>, h\<lparr>kh_live := (kh_live h)(a \<mapsto> map Some vs)\<rparr>)"
proof (cases "array_layout ty (length vs)")
  case (Inl e)
  then show ?thesis using array_layout_Inl [OF Inl] that(1)
    by (simp add: box_new_slice_copy_def box_new_zeroed_slice_def)
next
  case (Inr l)
  then have sz: "lsize l = size_of ty * length vs" using array_layout_Inr by blast
  show ?thesis
  proof (cases "vs = []")
    case True
    then show ?thesis using Inr sz that(2)
      by (simp add: box_new_slice_copy_def box_new_zeroed_slice_def kmalloc_def fill_slots_def copy_from_slice_def)
  next
    case False
    then have "lsize l \<noteq> 0" using sz assms(1) by simp
    then show ?thesis using Inr False that(1,3) assms(2)
      by (cases answer) (auto simp: box_new_slice_copy_def box_new_zeroed_slice_def kmalloc_def copy_from_slice_def fresh_def fill_twice)
  qed
qed

lemma kfree_held: "holds h b vs \<Longrightarrow> kfree (bx_ptr b) (h\<lparr>kh_dropped := d, kh_fault := kh_fault h\<rparr>) = without b d h"
  by (auto simp: holds_def kfree_def without_def split: if_splits)

lemma box_drop_held:
  assumes "holds h b vs"
  shows "box_drop b h = without b (kh_dropped h @ vs) h"
proof -
  have "None \<notin> set (map Some vs)" by auto
  then show ?thesis using holds_slots [OF assms] kfree_held [OF assms, of "kh_dropped h @ vs"] by (simp add: box_drop_def)
qed

lemma box_into_inner_held:
  assumes "holds h b [v]"
  shows "box_into_inner b h = (Some v, without b (kh_dropped h) h)"
proof -
  have "bx_len b = 1" using assms by (simp add: holds_def)
  then show ?thesis using holds_slots [OF assms] kfree_held [OF assms, of "kh_dropped h"] by (simp add: box_into_inner_def)
qed

lemma ow_lost_ok:
  assumes "ow_ok s" "kh_live (ow_heap s) a = None"
  shows "ow_ok (s\<lparr>ow_heap := (ow_heap s)\<lparr>kh_live := (kh_live (ow_heap s))(a \<mapsto> [None])\<rparr>, ow_lost := a # ow_lost s\<rparr>)"
proof -
  let ?h = "ow_heap s" and ?h' = "(ow_heap s)\<lparr>kh_live := (kh_live (ow_heap s))(a \<mapsto> [None])\<rparr>"
  have d: "dom (kh_live ?h) = set (ow_addrs s)" using assms(1) by (simp add: ow_ok_def)
  then have a: "a \<notin> set (ow_addrs s)" using assms(2) by (metis domIff)
  then have fr: "\<forall>b \<in> set (box_addr x). kh_live ?h' b = kh_live ?h b" if "x \<in> set (ow_boxes s)" for x
    using that by (auto simp: ow_addrs_def)
  have "\<forall>x \<in> set (ow_boxes s). holds ?h' (fst x) (box_values ?h' x)"
    using assms(1) holds_frame [OF fr] box_values_frame [OF fr] unfolding ow_ok_def by metis
  then show ?thesis using assms(1) a box_values_frame [OF fr] d
    by (auto simp: ow_ok_def ow_addrs_def cong: map_cong)
qed

lemma ow_flag_ok:
  assumes "ow_ok s" "i < length (ow_boxes s)"
  shows "ow_ok (s\<lparr>ow_boxes := (ow_boxes s)[i := (fst (ow_boxes s ! i), f)]\<rparr>)"
proof -
  have same: "box_addr (b, f) = box_addr (b, g)" "box_values h (b, f) = box_values h (b, g)" for b g and h :: "'a kheap"
    by (simp_all add: box_addr_def box_values_def)
  have "map F ((ow_boxes s)[i := (fst (ow_boxes s ! i), f)]) = map F (ow_boxes s)"
    if "\<And>b g. F (b, f) = F (b, g)" for F :: "kbox \<times> bool \<Rightarrow> 'b"
  proof -
    have "F (fst (ow_boxes s ! i), f) = map F (ow_boxes s) ! i" using assms(2) that by (metis nth_map prod.collapse)
    then show ?thesis by (simp add: map_update)
  qed
  note this [of box_addr, OF same(1)] this [of "box_values (ow_heap s)", OF same(2)]
  moreover have "\<forall>x \<in> set ((ow_boxes s)[i := (fst (ow_boxes s ! i), f)]). holds (ow_heap s) (fst x) (box_values (ow_heap s) x)"
    using assms same(2) by (auto simp: ow_ok_def dest!: set_update_subset_insert [THEN subsetD]) (metis nth_mem prod.collapse)
  ultimately show ?thesis using assms(1) by (simp add: ow_ok_def ow_addrs_def)
qed

lemma ow_make_ok:
  assumes "ow_ok s" "ow_step s l = Some s'" "l = BNew ty answer v \<or> l = BPinInit ty answer init"
  shows "ow_ok s'"
  using assms(3)
proof
  assume l: "l = BNew ty answer v"
  then have "0 < size_of ty" "fresh answer (ow_heap s)" using assms(2) by (auto split: if_splits)
  then show ?thesis
  proof (cases rule: box_new_cases [where v = v])
    case 1
    then have "s' = s\<lparr>ow_heap := (ow_heap s)\<lparr>kh_dropped := kh_dropped (ow_heap s) @ [v]\<rparr>, ow_made := ow_made s @ [v]\<rparr>"
      using assms(2) l by (simp split: if_splits)
    then show ?thesis using assms(1) by (simp add: ow_ok_def ow_addrs_def)
  next
    case (2 a)
    then show ?thesis using assms(2) l ow_put_ok [OF assms(1) 2(2,3), of "[v]"] by (simp split: if_splits)
  qed
next
  assume l: "l = BPinInit ty answer init"
  then have "0 < size_of ty" "fresh answer (ow_heap s)" using assms(2) by (auto split: if_splits)
  then show ?thesis
  proof (cases rule: box_pin_init_cases [where from_alloc = "\<lambda>_. ()" and init = init])
    case 1
    then show ?thesis using assms l by (auto split: if_splits)
  next
    case (2 a e)
    then show ?thesis using assms(2) l ow_lost_ok [OF assms(1) 2(3)] by (simp split: if_splits)
  next
    case (3 a v)
    then show ?thesis using assms(2) l ow_put_ok [OF assms(1) 3(2,3), of "[v]"] by (simp split: if_splits)
  qed
qed

lemma ow_slice_ok:
  assumes "ow_ok s" "ow_step s (BSlice ty zero answer vs) = Some s'"
  shows "ow_ok s'"
proof -
  have "0 < size_of ty" "fresh answer (ow_heap s)" using assms(2) by (auto split: if_splits)
  then show ?thesis
  proof (cases rule: box_new_slice_copy_cases [where zero = zero and vs = vs])
    case 1
    then show ?thesis using assms by (auto split: if_splits)
  next
    case 2
    then have "s' = ow_put (ow_heap s) \<lparr>bx_ptr = DANGLING, bx_len = 0\<rparr> [] s" using assms(2) by (simp split: if_splits)
    then show ?thesis using assms(1) by (simp add: ow_ok_def ow_put_def ow_addrs_def)
  next
    case (3 a)
    then show ?thesis using assms(2) ow_put_ok [OF assms(1) 3(3,4,1)] by (simp split: if_splits)
  qed
qed

lemma ow_release_ok:
  assumes "ow_ok s" "ow_step s l = Some s'" "l = BIntoInner i \<or> l = BDrop i"
  shows "ow_ok s'"
proof -
  let ?h = "ow_heap s"
  obtain b f where b: "ow_boxes s ! i = (b, f)" by force
  have i: "ow_held s i True" using assms(2,3) by (auto split: if_splits)
  then have len: "i < length (ow_boxes s)" by (simp add: ow_held_def)
  then have h: "holds ?h b (box_values ?h (b, f))" using assms(1) b by (auto simp: ow_ok_def) (metis fst_conv nth_mem)
  show ?thesis using assms(3)
  proof
    assume l: "l = BIntoInner i"
    then have "bx_len b = 1" using assms(2) b by (auto split: if_splits)
    then obtain v where v: "box_values ?h (b, f) = [v]" using h by (auto simp: holds_def length_Suc_conv)
    then have "s' = s\<lparr>ow_heap := without b (kh_dropped ?h) ?h, ow_boxes := remove_at i (ow_boxes s), ow_moved := ow_moved s @ [v]\<rparr>"
      using assms(2) l b i box_into_inner_held [of ?h b v] h by (simp split: if_splits)
    then show ?thesis using ow_remove_ok [OF assms(1) len b, of "kh_dropped ?h" "ow_moved s @ [v]"] v by simp
  next
    assume "l = BDrop i"
    then have "s' = s\<lparr>ow_heap := without b (kh_dropped ?h @ box_values ?h (b, f)) ?h, ow_boxes := remove_at i (ow_boxes s)\<rparr>"
      using assms(2) b i box_drop_held [OF h] by simp
    then have "s' = s\<lparr>ow_heap := without b (kh_dropped ?h @ box_values ?h (b, f)) ?h, ow_boxes := remove_at i (ow_boxes s), ow_moved := ow_moved s\<rparr>"
      by (cases s) simp
    then show ?thesis using ow_remove_ok [OF assms(1) len b, of "kh_dropped ?h @ box_values ?h (b, f)" "ow_moved s"] by simp
  qed
qed

lemma ow_step_ok:
  assumes "ow_ok s" "ow_step s l = Some s'"
  shows "ow_ok s'"
proof (cases l)
  case (BIntoRaw i)
  then show ?thesis using assms ow_flag_ok [OF assms(1), of i False] by (auto simp: ow_held_def split: if_splits)
next
  case (BFromRaw i)
  have "box_from_raw (box_into_raw b) = b" for b :: kbox by (simp add: box_from_raw_def box_into_raw_def)
  then show ?thesis using assms BFromRaw ow_flag_ok [OF assms(1), of i True] by (auto simp: ow_held_def split: if_splits)
next
  case (BSlice ty zero answer vs)
  then show ?thesis using assms ow_slice_ok by metis
qed (use ow_make_ok [OF assms] ow_release_ok [OF assms] in auto)

lemma ow_new_ok: "ow_ok ow_new"
  by (simp add: ow_ok_def ow_new_def kh_new_def ow_addrs_def)

interpretation ow: kept ow_step ow_new ow_ok
  by unfold_locales (fact ow_new_ok, fact ow_step_ok)

text \<open>Only an initialiser that fails loses memory.\<close>

definition fails :: "'a box_label \<Rightarrow> bool" where
  "fails l = (case l of BPinInit _ (Some _) (Inl _) \<Rightarrow> True | _ \<Rightarrow> False)"

lemma ow_lost_step:
  assumes "ow_step s l = Some s'"
  shows "length (ow_lost s') = length (ow_lost s) + of_bool (fails l)"
proof (cases l)
  case (BPinInit ty answer init)
  then have "0 < size_of ty" "fresh answer (ow_heap s)" using assms by (auto split: if_splits)
  then show ?thesis
    by (cases rule: box_pin_init_cases [where from_alloc = "\<lambda>_. ()" and init = init])
      (use assms BPinInit in \<open>auto simp: fails_def ow_put_def split: if_splits\<close>)
qed (use assms in \<open>auto simp: fails_def ow_put_def split: if_splits prod.splits sum.splits\<close>)

lemma ow_lost_run:
  "run ow_step s ls = Some s' \<Longrightarrow> length (ow_lost s') = length (ow_lost s) + length (filter fails ls)"
  by (induction ls arbitrary: s) (auto simp: ow_lost_step split: Option.bind_splits)

text \<open>
  C10. However boxes are made, moved out of, dropped, and turned into raw pointers
  and back: no dead address is released and no empty slot read or dropped; the live
  allocations are exactly those of the boxes and of the initialisers that failed,
  one each; every value put into a box was dropped once, was moved out once, or is
  in exactly one box.  So a program that gives up all its boxes and whose
  initialisers succeed leaves the heap empty.
\<close>

theorem boxes_own_once:
  assumes "run ow_step ow_new ls = Some s"
  shows "\<not> kh_fault (ow_heap s) \<and> distinct (concat (map box_addr (ow_boxes s)) @ ow_lost s)
    \<and> dom (kh_live (ow_heap s)) = set (concat (map box_addr (ow_boxes s))) \<union> set (ow_lost s)
    \<and> length (ow_lost s) = length (filter fails ls)
    \<and> mset (ow_made s) = mset (kh_dropped (ow_heap s)) + mset (ow_moved s)
        + mset (concat (map (box_values (ow_heap s)) (ow_boxes s)))
    \<and> (ow_boxes s = [] \<and> filter fails ls = [] \<longrightarrow> kh_live (ow_heap s) = (\<lambda>_. None))"
proof -
  have ok: "ow_ok s" using ow.reached [OF run_reachable [OF assms]] .
  have len: "length (ow_lost s) = length (filter fails ls)" using ow_lost_run [OF assms] by (simp add: ow_new_def)
  have "dom (kh_live (ow_heap s)) = {} \<Longrightarrow> kh_live (ow_heap s) = (\<lambda>_. None)" by (simp add: dom_eq_empty_conv)
  then show ?thesis using ok len by (auto simp: ow_ok_def ow_addrs_def)
qed

theorem boxes_own_once_witness:
  "\<exists>s. run ow_step ow_new [BNew \<lparr>size_of = 4, align_of = 4\<rparr> (Some 64) (7::nat), BIntoRaw 0, BFromRaw 0, BDrop 0] = Some s
     \<and> kh_live (ow_heap s) = (\<lambda>_. None) \<and> kh_dropped (ow_heap s) = [7]"
proof -
  obtain s where s: "run ow_step ow_new [BNew \<lparr>size_of = 4, align_of = 4\<rparr> (Some 64) (7::nat), BIntoRaw 0, BFromRaw 0, BDrop 0] = Some s"
      "ow_boxes s = []" "kh_dropped (ow_heap s) = [7]"
    by (simp add: ow_new_def kh_new_def fresh_def ZERO_SIZE_PTR_def box_new_def kmalloc_def fill_slots_def ow_put_def
        ow_held_def box_from_raw_def box_into_raw_def box_drop_def slots_def live_values_def kfree_def remove_at_def)
  then show ?thesis using boxes_own_once [OF s(1)] by (simp add: fails_def)
qed


section \<open>Strings\<close>

text \<open>
  A \<open>CString\<close> is a box of bytes that ends with a NUL and has no other; what
  C sees of it is its address.
\<close>

definition try_from_slice :: "nat option \<Rightarrow> byte list \<Rightarrow> byte kheap \<Rightarrow> (error + kbox) \<times> byte kheap" where
  "try_from_slice answer data h =
     (if 0 \<in> set data then (Inl EINVAL, h)
      else case checked_add (length data) 1 of
        None \<Rightarrow> (Inl ENOMEM, h)
      | Some len \<Rightarrow>
          (case box_new_zeroed_bytes answer len h of
             (Inl _, h1) \<Rightarrow> (Inl ENOMEM, h1)
           | (Inr buf, h1) \<Rightarrow> (Inr buf, box_write (length data) 0 buf (fill_slots (bx_ptr buf) data h1))))"

definition try_from_cstr :: "nat option \<Rightarrow> byte list \<Rightarrow> byte kheap \<Rightarrow> (error + kbox) \<times> byte kheap" where
  "try_from_cstr answer s h =
     (case box_new_slice answer (s @ [0]) h of (Inl _, h1) \<Rightarrow> (Inl ENOMEM, h1) | (Inr buf, h1) \<Rightarrow> (Inr buf, h1))"

definition as_cstr :: "kbox \<Rightarrow> byte kheap \<Rightarrow> byte list" where
  "as_cstr s h = butlast (live_values (slots (bx_ptr s) (bx_len s) h))"

definition cstring_len :: "kbox \<Rightarrow> nat" where
  "cstring_len s = bx_len s - 1"

definition cstring_is_empty :: "kbox \<Rightarrow> bool" where
  "cstring_is_empty s \<longleftrightarrow> cstring_len s = 0"

definition cstring_into_foreign :: "kbox \<Rightarrow> nat" where
  "cstring_into_foreign s = fst (box_into_raw s)"

text \<open>\<open>CStr::from_ptr\<close> counts the bytes up to the first NUL.\<close>

definition cstr_from_ptr :: "nat \<Rightarrow> byte kheap \<Rightarrow> byte list option" where
  "cstr_from_ptr p h = (case kh_live h p of
     None \<Rightarrow> None
   | Some blk \<Rightarrow> if Some 0 \<in> set blk then Some (live_values (takeWhile (\<lambda>x. x \<noteq> Some 0) blk)) else None)"

definition cstring_from_foreign :: "nat \<Rightarrow> byte kheap \<Rightarrow> kbox option" where
  "cstring_from_foreign p h = map_option (\<lambda>s. box_from_raw (p, length s + 1)) (cstr_from_ptr p h)"

text \<open>A string in the heap, and what its constructors do.\<close>

definition cstring_ok :: "byte kheap \<Rightarrow> kbox \<Rightarrow> byte list \<Rightarrow> bool" where
  "cstring_ok h s data \<longleftrightarrow> holds h s (data @ [0]) \<and> 0 \<notin> set data"

lemma cstring_ok_views:
  assumes "cstring_ok h s data"
  shows "as_cstr s h = data" "cstring_len s = length data" "cstring_is_empty s \<longleftrightarrow> data = []"
    "cstr_from_ptr (cstring_into_foreign s) h = Some data" "cstring_from_foreign (cstring_into_foreign s) h = Some s"
proof -
  have h: "holds h s (data @ [0])" and z: "0 \<notin> set data" using assms by (auto simp: cstring_ok_def)
  have len: "bx_len s = Suc (length data)" using h by (simp add: holds_def)
  show "as_cstr s h = data" using holds_slots [OF h] by (simp add: as_cstr_def flip: map_append list.map(1,2))
  show "cstring_len s = length data" "cstring_is_empty s \<longleftrightarrow> data = []" using len by (simp_all add: cstring_len_def cstring_is_empty_def)
  have "takeWhile (\<lambda>x. x \<noteq> Some 0) (map Some data @ [Some 0]) = map Some data" using z by (subst takeWhile_append2) auto
  then show p: "cstr_from_ptr (cstring_into_foreign s) h = Some data"
    using h by (simp add: cstr_from_ptr_def cstring_into_foreign_def box_into_raw_def holds_def)
  show "cstring_from_foreign (cstring_into_foreign s) h = Some s"
    using p len by (simp add: cstring_from_foreign_def box_from_raw_def cstring_into_foreign_def box_into_raw_def)
qed

lemma drop_replicate_Suc [simp]: "drop n (x # replicate n x) = [x]"
  using drop_replicate [of n "Suc n" x] by simp

lemma map_update_length [simp]: "(map f xs @ y # zs)[length xs := w] = map f xs @ w # zs"
  by (metis length_map list_update_length)

lemma try_from_slice_ok:
  assumes "fresh answer h"
  obtains "0 \<in> set data" "try_from_slice answer data h = (Inl EINVAL, h)"
  | "0 \<notin> set data" "answer = None \<or> isize_max < length data + 1" "try_from_slice answer data h = (Inl ENOMEM, h)"
  | a where "0 \<notin> set data" "answer = Some a" "length data + 1 \<le> isize_max"
      "try_from_slice answer data h = (Inr \<lparr>bx_ptr = a, bx_len = length data + 1\<rparr>, h\<lparr>kh_live := (kh_live h)(a \<mapsto> map Some (data @ [0]))\<rparr>)"
      "cstring_ok (snd (try_from_slice answer data h)) \<lparr>bx_ptr = a, bx_len = length data + 1\<rparr> data"
proof (cases "0 \<in> set data")
  case True
  then show ?thesis using that(1) by (simp add: try_from_slice_def)
next
  case False
  show ?thesis
  proof (cases "answer = None \<or> isize_max < length data + 1")
    case True
    then show ?thesis using False that(2)
      by (auto simp: try_from_slice_def box_new_zeroed_bytes_def from_size_align_def kmalloc_def checked_add_def split: option.splits)
  next
    case ok: False
    then obtain a where a: "answer = Some a" "length data + 1 \<le> isize_max" by auto
    then have "checked_add (length data) 1 = Some (length data + 1)" by (simp add: checked_add_def isize_max_def usize_max_def)
    moreover have "fill_slots a data (fill_slots a (replicate (length data + 1) 0) (h\<lparr>kh_live := (kh_live h)(a \<mapsto> replicate (length data + 1) None)\<rparr>))
        = h\<lparr>kh_live := (kh_live h)(a \<mapsto> map Some (data @ [0]))\<rparr>"
      by (auto simp: fill_slots_def)
    ultimately have r: "try_from_slice answer data h
        = (Inr \<lparr>bx_ptr = a, bx_len = length data + 1\<rparr>, h\<lparr>kh_live := (kh_live h)(a \<mapsto> map Some (data @ [0]))\<rparr>)"
      using False a by (simp add: try_from_slice_def box_new_zeroed_bytes_def from_size_align_def kmalloc_def box_write_def checked_add_def)
    moreover have "cstring_ok (snd (try_from_slice answer data h)) \<lparr>bx_ptr = a, bx_len = length data + 1\<rparr> data"
      using False assms a(1) unfolding r by (auto simp: cstring_ok_def holds_def fresh_def)
    ultimately show ?thesis using that(3) [OF False a] by blast
  qed
qed

lemma try_from_slice_Inr:
  assumes "fresh answer h" "try_from_slice answer data h = (Inr s, h')"
  shows "0 \<notin> set data" "cstring_ok h' s data" "kh_live (box_drop s h') = kh_live h" "kh_fault (box_drop s h') = kh_fault h"
proof -
  obtain a where a: "0 \<notin> set data" "answer = Some a" "s = \<lparr>bx_ptr = a, bx_len = length data + 1\<rparr>"
      "h' = h\<lparr>kh_live := (kh_live h)(a \<mapsto> map Some (data @ [0]))\<rparr>" "cstring_ok h' s data"
    using assms(1)
  proof (cases rule: try_from_slice_ok [where data = data])
    case (3 a)
    then show ?thesis using that [of a] assms(2) by simp
  qed (use assms(2) in simp_all)
  show "0 \<notin> set data" "cstring_ok h' s data" using a(1,5) .
  have "holds h' s (data @ [0])" using a(5) by (simp add: cstring_ok_def)
  from box_drop_held [OF this] a(2,3,4) assms(1)
  show "kh_live (box_drop s h') = kh_live h" "kh_fault (box_drop s h') = kh_fault h"
    by (auto simp: without_def fresh_def)
qed

lemma try_from_cstr_same:
  assumes "0 \<notin> set data"
  shows "try_from_cstr answer data h = try_from_slice answer data h"
proof (cases "isize_max < length data + 1")
  case True
  then show ?thesis using assms
    by (auto simp: try_from_cstr_def try_from_slice_def box_new_slice_def box_new_zeroed_bytes_def from_size_align_def
        checked_add_def split: option.splits)
next
  case False
  then have "checked_add (length data) 1 = Some (length data + 1)" by (simp add: checked_add_def isize_max_def usize_max_def)
  then show ?thesis using assms False
    by (cases answer) (auto simp: try_from_cstr_def try_from_slice_def box_new_slice_def box_new_zeroed_bytes_def
        from_size_align_def kmalloc_def copy_from_slice_def fill_slots_def box_write_def checked_add_def)
qed

text \<open>
  C28. A string made from bytes: bytes with a NUL are refused, and a refusal or a
  failed allocation leaves the heap alone.  Otherwise the string reads back as the
  bytes; handing its address to C and taking it back gives the same box, whose
  length the NUL tells; dropping it restores the heap; and copying a C string
  gives the same string.
\<close>

theorem cstring_roundtrip:
  assumes "fresh answer h" "try_from_slice answer data h = (r, h')"
  shows "(0 \<in> set data \<longrightarrow> r = Inl EINVAL) \<and> (isl r \<longrightarrow> h' = h) \<and> (0 \<notin> set data \<longrightarrow> try_from_cstr answer data h = (r, h'))
    \<and> (\<forall>s. r = Inr s \<longrightarrow> as_cstr s h' = data \<and> cstring_len s = length data
          \<and> cstr_from_ptr (cstring_into_foreign s) h' = Some data
          \<and> cstring_from_foreign (cstring_into_foreign s) h' = Some s
          \<and> kh_live (box_drop s h') = kh_live h \<and> kh_fault (box_drop s h') = kh_fault h)"
proof (intro conjI impI allI)
  show "r = Inl EINVAL" if "0 \<in> set data" using that assms(2) by (simp add: try_from_slice_def)
  show "h' = h" if "isl r" using assms(1)
    by (cases rule: try_from_slice_ok [where data = data]) (use that assms(2) in auto)
  show "try_from_cstr answer data h = (r, h')" if "0 \<notin> set data" using try_from_cstr_same [OF that] assms(2) by simp
  fix s
  assume "r = Inr s"
  note ok = try_from_slice_Inr [OF assms(1) assms(2) [unfolded this]]
  show "as_cstr s h' = data" "cstring_len s = length data" "cstr_from_ptr (cstring_into_foreign s) h' = Some data"
      "cstring_from_foreign (cstring_into_foreign s) h' = Some s"
    using cstring_ok_views [OF ok(2)] by auto
  show "kh_live (box_drop s h') = kh_live h" "kh_fault (box_drop s h') = kh_fault h" using ok(3,4) .
qed

theorem cstring_roundtrip_witness:
  "\<exists>s h'. try_from_slice (Some 64) [104, 105] kh_new = (Inr s, h') \<and> cstring_from_foreign (cstring_into_foreign s) h' = Some s"
proof -
  have f: "fresh (Some 64) (kh_new :: byte kheap)" by (simp add: fresh_def kh_new_def ZERO_SIZE_PTR_def)
  obtain s h' where "try_from_slice (Some 64) [104, 105] kh_new = (Inr s, h')"
    by (simp add: try_from_slice_def checked_add_def usize_max_def box_new_zeroed_bytes_def from_size_align_def isize_max_def kmalloc_def)
  then show ?thesis using cstring_roundtrip [OF f, of "[104, 105]" "Inr s" h'] by blast
qed

end
