(* ===== verification/User_Copy.thy ===== *)
theory User_Copy
  imports Rko_Error
begin

text \<open>
  Copying between kernel and user space: the bounded writer and reader of
  \<open>rko-core/src/user.rs\<close> and the scatter-gather iterator of
  \<open>rko-core/src/iov.rs\<close>.  How many bytes a kernel copy function leaves or
  copies is an argument, at most the number asked for.
\<close>

section \<open>Flat buffers\<close>

type_synonym umem = "nat \<Rightarrow> byte"

definition poke :: "nat \<Rightarrow> byte list \<Rightarrow> umem \<Rightarrow> umem" where
  "poke a bs mem = (\<lambda>x. if a \<le> x \<and> x < a + length bs then bs ! (x - a) else mem x)"

definition peek :: "nat \<Rightarrow> nat \<Rightarrow> umem \<Rightarrow> byte list" where
  "peek a n mem = map (\<lambda>i. mem (a + i)) [0..<n]"

record ubuf =
  ub_ptr :: nat
  ub_len :: nat

definition ubuf_is_empty :: "ubuf \<Rightarrow> bool" where
  "ubuf_is_empty b \<longleftrightarrow> ub_len b = 0"

definition ubuf_advance :: "nat \<Rightarrow> ubuf \<Rightarrow> ubuf" where
  "ubuf_advance n b = b\<lparr>ub_ptr := (ub_ptr b + n) mod 2 ^ 64, ub_len := ub_len b - n\<rparr>"

text \<open>\<open>left\<close>: the bytes that \<open>copy_to_user\<close> did not copy, the last ones.\<close>

definition writer_write :: "nat \<Rightarrow> byte list \<Rightarrow> ubuf \<times> umem \<Rightarrow> (error + unit) \<times> ubuf \<times> umem" where
  "writer_write left data st =
     (let (w, mem) = st; n = length data in
      if n > ub_len w then (Inl EFAULT, w, mem)
      else let mem' = poke (ub_ptr w) (take (n - left) data) mem in
           if left \<noteq> 0 then (Inl EFAULT, w, mem')
           else (Inr (), ubuf_advance n w, mem'))"

text \<open>\<open>copy_from_user\<close> pads what it could not copy with zeroes.\<close>

definition reader_read :: "nat \<Rightarrow> byte list \<Rightarrow> umem \<Rightarrow> ubuf \<Rightarrow> (error + nat) \<times> byte list \<times> ubuf" where
  "reader_read left buf mem r =
     (let n = min (length buf) (ub_len r) in
      if n = 0 then (Inr 0, buf, r)
      else let buf' = peek (ub_ptr r) (n - left) mem @ replicate (min left n) 0 @ drop n buf in
           if left \<noteq> 0 then (Inl EFAULT, buf', r)
           else (Inr n, buf', ubuf_advance n r))"

fun writes :: "(nat \<times> byte list) list \<Rightarrow> ubuf \<times> umem \<Rightarrow> (error + unit) \<times> ubuf \<times> umem" where
  "writes [] st = (Inr (), st)"
| "writes ((left, data) # ws) st =
     (case writer_write left data st of (Inl e, st') \<Rightarrow> (Inl e, st') | (Inr _, st') \<Rightarrow> writes ws st')"

fun reads :: "nat list \<Rightarrow> umem \<Rightarrow> ubuf \<Rightarrow> byte list \<times> ubuf" where
  "reads [] mem r = ([], r)"
| "reads (n # ns) mem r =
     (case reader_read 0 (replicate n 0) mem r of
        (Inl _, _, r') \<Rightarrow> ([], r')
      | (Inr k, buf, r') \<Rightarrow> (case reads ns mem r' of (bs, r'') \<Rightarrow> (take k buf @ bs, r'')))"

lemma length_peek [simp]: "length (peek a n mem) = n"
  by (simp add: peek_def)

lemma peek_0 [simp]: "peek a 0 mem = []"
  by (simp add: peek_def)

lemma peek_add: "peek a (m + n) mem = peek a m mem @ peek (a + m) n mem"
  by (rule nth_equalityI) (auto simp: peek_def nth_append)

lemma peek_poke: "peek a (length bs) (poke a bs mem) = bs"
  by (rule nth_equalityI) (auto simp: peek_def poke_def)

lemma peek_poke_after: "a + n \<le> b \<Longrightarrow> peek a n (poke b bs mem) = peek a n mem"
  by (rule nth_equalityI) (auto simp: peek_def poke_def)

lemma peek_cong: "\<forall>x. a \<le> x \<and> x < a + n \<longrightarrow> mem x = mem' x \<Longrightarrow> peek a n mem = peek a n mem'"
  by (rule nth_equalityI) (auto simp: peek_def)

text \<open>Writing one after the other: what lies before the writer or behind its end stays.\<close>

lemma writes_effect:
  assumes "ub_ptr w + ub_len w < 2 ^ 64" "writes ws (w, mem) = (r, w', mem')"
  shows "(\<forall>x. x < ub_ptr w \<or> ub_ptr w + ub_len w \<le> x \<longrightarrow> mem' x = mem x)
    \<and> (r = Inr () \<longrightarrow> peek (ub_ptr w) (length (concat (map snd ws))) mem' = concat (map snd ws)
         \<and> ub_ptr w' = ub_ptr w + length (concat (map snd ws)) \<and> ub_len w' + length (concat (map snd ws)) = ub_len w)"
  using assms
proof (induction ws arbitrary: w mem)
  case Nil
  then show ?case by simp
next
  case (Cons x ws)
  obtain left data where x: "x = (left, data)" by force
  show ?case
  proof (cases "length data \<le> ub_len w \<and> left = 0")
    case False
    then show ?thesis using Cons.prems x by (auto simp: writer_write_def poke_def Let_def split: if_splits)
  next
    case True
    let ?w = "ubuf_advance (length data) w" and ?m = "poke (ub_ptr w) data mem"
    have "writes ws (?w, ?m) = (r, w', mem')" using Cons.prems(2) x True by (simp add: writer_write_def Let_def)
    moreover have w: "ub_ptr ?w = ub_ptr w + length data" "ub_len ?w = ub_len w - length data"
      using Cons.prems(1) True by (auto simp: ubuf_advance_def)
    ultimately have ih: "\<forall>x. x < ub_ptr ?w \<or> ub_ptr ?w + ub_len ?w \<le> x \<longrightarrow> mem' x = ?m x"
      "r = Inr () \<longrightarrow> peek (ub_ptr ?w) (length (concat (map snd ws))) mem' = concat (map snd ws)
         \<and> ub_ptr w' = ub_ptr ?w + length (concat (map snd ws)) \<and> ub_len w' + length (concat (map snd ws)) = ub_len ?w"
      using Cons.IH [of ?w ?m] Cons.prems(1) True by auto
    have "peek (ub_ptr w) (length data) mem' = peek (ub_ptr w) (length data) ?m"
      using ih(1) w by (intro peek_cong) auto
    then have "peek (ub_ptr w) (length data) mem' = data" by (simp add: peek_poke)
    moreover have "x < ub_ptr w \<or> ub_ptr w + ub_len w \<le> x \<longrightarrow> mem' x = mem x" for x
      using ih(1) w True by (auto simp: poke_def)
    ultimately show ?thesis using ih(2) w True x by (auto simp: peek_add)
  qed
qed

lemma reads_effect:
  assumes "ub_ptr r + ub_len r < 2 ^ 64"
  shows "fst (reads ns mem r) = peek (ub_ptr r) (min (sum_list ns) (ub_len r)) mem"
  using assms
proof (induction ns arbitrary: r)
  case (Cons n ns)
  let ?k = "min n (ub_len r)"
  show ?case
  proof (cases "?k = 0")
    case True
    then have r: "reads (n # ns) mem r = reads ns mem r"
      by (auto simp: reader_read_def split: prod.splits)
    show ?thesis
    proof (cases "n = 0")
      case False
      then have "ub_len r = 0" using True by simp
      then show ?thesis using Cons r by simp
    qed (use Cons r in simp)
  next
    case False
    let ?r = "ubuf_advance ?k r"
    have r: "ub_ptr ?r = ub_ptr r + ?k" "ub_len ?r = ub_len r - ?k" "ub_ptr ?r + ub_len ?r < 2 ^ 64"
      using Cons.prems by (auto simp: ubuf_advance_def)
    have "fst (reads (n # ns) mem r) = peek (ub_ptr r) ?k mem @ fst (reads ns mem ?r)"
      using False by (auto simp: reader_read_def Let_def split: prod.splits)
    also have "\<dots> = peek (ub_ptr r) (?k + min (sum_list ns) (ub_len r - ?k)) mem"
      using Cons.IH [OF r(3)] r(1,2) by (simp add: peek_add)
    also have "?k + min (sum_list ns) (ub_len r - ?k) = min (sum_list (n # ns)) (ub_len r)" by auto
    finally show ?thesis .
  qed
qed simp




section \<open>Scatter-gather iterators\<close>

text \<open>The bytes an iterator can still take, and what it has taken; a source holds the bytes themselves.\<close>

record iov =
  iov_count :: nat
  iov_out :: "byte list"

definition iov_is_empty :: "iov \<Rightarrow> bool" where
  "iov_is_empty it \<longleftrightarrow> iov_count it = 0"

text \<open>\<open>copied\<close>: the answer of \<open>_copy_to_iter\<close>, which advances the iterator by as much.\<close>

definition iov_write :: "nat \<Rightarrow> byte list \<Rightarrow> iov \<Rightarrow> (error + nat) \<times> iov" where
  "iov_write copied data it =
     (let n = min (length data) (iov_count it) in
      if n = 0 then (Inr 0, it)
      else let it' = it\<lparr>iov_count := iov_count it - copied, iov_out := iov_out it @ take copied data\<rparr> in
           if copied = 0 \<and> n > 0 then (Inl EFAULT, it') else (Inr copied, it'))"

definition iov_write_all :: "nat \<Rightarrow> byte list \<Rightarrow> iov \<Rightarrow> (error + unit) \<times> iov" where
  "iov_write_all copied data it =
     (case iov_write copied data it of
        (Inl e, it') \<Rightarrow> (Inl e, it')
      | (Inr written, it') \<Rightarrow> if written \<noteq> length data then (Inl EFAULT, it') else (Inr (), it'))"

definition iov_read :: "nat \<Rightarrow> byte list \<Rightarrow> byte list \<Rightarrow> (error + nat) \<times> byte list \<times> byte list" where
  "iov_read copied buf src =
     (let n = min (length buf) (length src) in
      if n = 0 then (Inr 0, buf, src)
      else let buf' = take copied src @ drop copied buf; src' = drop copied src in
           if copied = 0 \<and> n > 0 then (Inl EFAULT, buf', src') else (Inr copied, buf', src'))"

text \<open>Success means that all bytes arrived; bytes that arrived are a prefix of them in any case.\<close>

lemma iov_write_all_Inr:
  assumes "iov_write_all copied data it = (Inr (), it')" "copied \<le> min (length data) (iov_count it)"
  shows "it' = it\<lparr>iov_count := iov_count it - length data, iov_out := iov_out it @ data\<rparr>" "length data \<le> iov_count it"
  using assms by (auto simp: iov_write_all_def iov_write_def Let_def split: if_splits)

lemma iov_write_all_prefix:
  "\<exists>k. iov_out (snd (iov_write_all copied data it)) = iov_out it @ take k data"
proof -
  have "iov_out (snd (iov_write_all copied data it)) \<in> {iov_out it @ take 0 data, iov_out it @ take copied data}"
    by (auto simp: iov_write_all_def iov_write_def Let_def)
  then show ?thesis by blast
qed

lemma iov_read_source:
  assumes "iov_read copied buf src = (Inr k, buf', src')" "copied \<le> min (length buf) (length src)"
  shows "take k buf' @ src' = src" "length buf' = length buf"
  using assms by (auto simp: iov_read_def Let_def split: if_splits)

end
