(* ===== verification/Rofs_Test.thy ===== *)
theory Rofs_Test
  imports Vfs_Vtable Kernel_Box User_Copy
begin

unbundle bit_operations_syntax

text \<open>
  The read-only file system of \<open>samples/rofs_test/rofs_test.rs\<close>: one
  directory with two files, read both through the page cache and directly, and a
  symbolic link whose target is made when it is asked for.
\<close>

section \<open>Operations\<close>

definition ascii :: "string \<Rightarrow> byte list" where
  "ascii s = map of_char s"

definition ROOT_INO :: nat where "ROOT_INO = 1"
definition HELLO_INO :: nat where "HELLO_INO = 2"
definition INFO_INO :: nat where "INFO_INO = 3"
definition LINK_INO :: nat where "LINK_INO = 4"
definition HELLO_CONTENT :: "byte list" where "HELLO_CONTENT = ascii ''Hello from rofs!'' @ [10]"
definition INFO_CONTENT :: "byte list" where "INFO_CONTENT = ascii ''custom read works'' @ [10]"
definition HELLO_NAME :: "byte list" where "HELLO_NAME = ascii ''hello.txt''"
definition INFO_NAME :: "byte list" where "INFO_NAME = ascii ''info.txt''"
definition LINK_NAME :: "byte list" where "LINK_NAME = ascii ''link.txt''"
definition LINK_TARGET :: "byte list" where "LINK_TARGET = ascii ''hello.txt''"

lemmas rofs_consts = ROOT_INO_def HELLO_INO_def INFO_INO_def LINK_INO_def HELLO_CONTENT_def INFO_CONTENT_def
  HELLO_NAME_def INFO_NAME_def LINK_NAME_def LINK_TARGET_def ascii_def

definition EPOCH :: time where "EPOCH = \<lparr>secs = 0, nsecs = 0\<rparr>"

type_synonym rofs_data = "byte list option"

definition rofs_flags :: fs_flags where
  "rofs_flags = \<lparr>has_statfs = False, has_seek = True, has_read = False, has_read_iter = True, has_get_link = True,
     has_read_xattr = False, inode_data_size = 16\<rparr>"

definition rofs_fill_super :: "super_block \<Rightarrow> (error + unit) \<times> super_block" where
  "rofs_fill_super sb = (Inr (), init_simple \<lparr>sp_maxbytes = 2 ^ 63 - 1, sp_blocksize_bits = 12, sp_magic = 0x524F4653, sp_time_gran = 1\<rparr> sb)"

definition rofs_root_params :: "rofs_data inode_params" where
  "rofs_root_params = \<lparr>ip_mode = 365, ip_typ = IDir, ip_size = 0, ip_blocks = 0, ip_nlink = 2, ip_uid = 0, ip_gid = 0,
     ip_ctime = EPOCH, ip_mtime = EPOCH, ip_atime = EPOCH, ip_value = None\<rparr>"

definition rofs_file_params :: "byte list \<Rightarrow> rofs_data inode_params" where
  "rofs_file_params content = \<lparr>ip_mode = 292, ip_typ = IReg, ip_size = int (length content), ip_blocks = 1, ip_nlink = 1,
     ip_uid = 0, ip_gid = 0, ip_ctime = EPOCH, ip_mtime = EPOCH, ip_atime = EPOCH, ip_value = Some content\<rparr>"

definition rofs_link_params :: "rofs_data inode_params" where
  "rofs_link_params = \<lparr>ip_mode = 511, ip_typ = ILnk None, ip_size = int (length LINK_TARGET), ip_blocks = 0, ip_nlink = 1,
     ip_uid = 0, ip_gid = 0, ip_ctime = EPOCH, ip_mtime = EPOCH, ip_atime = EPOCH, ip_value = None\<rparr>"

text \<open>An inode from the cache, or a new one set up with some operations and parameters.\<close>

definition rofs_iget ::
  "(nat \<Rightarrow> 'd iget_locked) \<Rightarrow> nat \<Rightarrow> (new_inode \<Rightarrow> new_inode) \<Rightarrow> 'd inode_params \<Rightarrow> error + 'd inode" where
  "rofs_iget iget_locked ino ops params =
     rbind (sb_iget (iget_locked ino)) (\<lambda>r. case r of Inl new_inode \<Rightarrow> Inr (inode_init (ops new_inode) params) | Inr cached \<Rightarrow> Inr cached)"

definition rofs_init_root :: "(nat \<Rightarrow> rofs_data iget_locked) \<Rightarrow> (rofs_data inode \<Rightarrow> nat) \<Rightarrow> error + nat" where
  "rofs_init_root iget_locked d_make_root =
     rbind (rofs_iget iget_locked ROOT_INO id rofs_root_params) (\<lambda>root. root_try_new (d_make_root root))"

definition rofs_find :: "(nat \<Rightarrow> rofs_data iget_locked) \<Rightarrow> nat \<Rightarrow> byte list \<Rightarrow> error + rofs_data inode option" where
  "rofs_find iget_locked parent name =
     (if parent \<noteq> ROOT_INO then Inr None
      else if name = HELLO_NAME then rbind (rofs_iget iget_locked HELLO_INO id (rofs_file_params HELLO_CONTENT)) (\<lambda>n. Inr (Some n))
      else if name = INFO_NAME then rbind (rofs_iget iget_locked INFO_INO id (rofs_file_params INFO_CONTENT)) (\<lambda>n. Inr (Some n))
      else if name = LINK_NAME then rbind (rofs_iget iget_locked LINK_INO (set_iops SymlinkInodeOps) rofs_link_params) (\<lambda>n. Inr (Some n))
      else Inr None)"

definition rofs_lookup ::
  "(nat \<Rightarrow> rofs_data iget_locked) \<Rightarrow> nat \<Rightarrow> (rofs_data inode option \<Rightarrow> nat) \<Rightarrow> nat \<Rightarrow> byte list \<Rightarrow> error + nat option" where
  "rofs_lookup iget_locked sb d_splice_alias parent name =
     rbind (rofs_find iget_locked parent name) (\<lambda>found. splice_alias sb (map_option (\<lambda>_. sb) found) (d_splice_alias found))"

definition rofs_get_link :: "nat option \<Rightarrow> byte kheap \<Rightarrow> (error + kbox get_link_result) \<times> byte kheap" where
  "rofs_get_link answer h =
     (case try_from_slice answer LINK_TARGET h of (Inl e, h') \<Rightarrow> (Inl e, h') | (Inr target, h') \<Rightarrow> (Inr (Owned target), h'))"

definition rofs_entries :: "dirent list" where
  "rofs_entries =
     [(ascii ''.'', ROOT_INO, DtDir), (ascii ''..'', ROOT_INO, DtDir), (HELLO_NAME, HELLO_INO, DtReg),
      (INFO_NAME, INFO_INO, DtReg), (LINK_NAME, LINK_INO, DtLnk)]"

fun rofs_emit_loop :: "dir_emit \<Rightarrow> nat \<Rightarrow> nat \<Rightarrow> dirent list \<Rightarrow> emitter \<Rightarrow> emitter" where
  "rofs_emit_loop accepts start i [] em = em"
| "rofs_emit_loop accepts start i (ent # ents) em =
     (if i < start then rofs_emit_loop accepts start (i + 1) ents em
      else case emit accepts 1 ent em of
        (True, em') \<Rightarrow> rofs_emit_loop accepts start (i + 1) ents em'
      | (False, em') \<Rightarrow> em')"

definition rofs_read_dir :: "dir_emit \<Rightarrow> nat \<Rightarrow> emitter \<Rightarrow> (error + unit) \<times> emitter" where
  "rofs_read_dir accepts ino em =
     (if ino \<noteq> ROOT_INO then (Inl ENOTDIR, em)
      else (Inr (), rofs_emit_loop accepts (nat (em_pos em mod 2 ^ 64)) 0 rofs_entries em))"

definition rofs_seek :: "int \<Rightarrow> int \<Rightarrow> whence \<Rightarrow> error + int" where
  "rofs_seek sz offset wh =
     (case wh of
        SeekData \<Rightarrow> if offset < 0 \<or> offset \<ge> sz then Inl ENXIO else Inr offset
      | SeekHole \<Rightarrow> if offset < 0 \<or> offset \<ge> sz then Inl ENXIO else Inr sz
      | _ \<Rightarrow> Inl EINVAL)"

definition rofs_read_iter :: "nat \<Rightarrow> rofs_data \<Rightarrow> int \<Rightarrow> iov \<Rightarrow> (error + nat) \<times> iov" where
  "rofs_read_iter copied data offset it =
     (let content = unwrap_or data []; pos = nat (offset mod 2 ^ 64) in
      if pos \<ge> length content then (Inr 0, it)
      else let available = length content - pos; to_copy = min available (iov_count it) in
           case iov_write_all copied (take to_copy (drop pos content)) it of
             (Inl e, it') \<Rightarrow> (Inl e, it')
           | (Inr _, it') \<Rightarrow> (Inr to_copy, it'))"

text \<open>
  The window that \<open>Folio::map\<close> opens, at most a page long; whether the
  kernel can map the page is an argument.
\<close>

definition folio_map :: "bool \<Rightarrow> nat \<Rightarrow> byte list \<Rightarrow> error + byte list" where
  "folio_map mapped offset folio =
     (if offset \<ge> length folio then Inl EINVAL
      else if \<not> mapped then Inl ENOMEM
      else Inr (take (min PAGE_SIZE (length folio - offset)) (drop offset folio)))"

definition rofs_read_folio :: "bool \<Rightarrow> rofs_data \<Rightarrow> int \<Rightarrow> byte list \<Rightarrow> (error Rko_Prelude.fault + unit) \<times> byte list" where
  "rofs_read_folio mapped data pos folio =
     (let content = unwrap_or data []; folio_offset = nat (pos mod 2 ^ 64); folio_size = length folio in
      case folio_map mapped 0 folio of
        Inl e \<Rightarrow> (Inl (Fail e), folio)
      | Inr buf \<Rightarrow>
          if folio_size > length buf then (Inl Panic, folio)
          else let buf1 = replicate folio_size 0 @ drop folio_size buf in
               if folio_offset < length content
               then let to_copy = min (length content - folio_offset) folio_size
                    in (Inr (), take to_copy (drop folio_offset content) @ drop to_copy buf1 @ drop (length buf) folio)
               else (Inr (), buf1 @ drop (length buf) folio))"


section \<open>Names\<close>

lemma rofs_emit_loop_from:
  assumes "start \<le> i" "em_pos em = int i" "i + length ents < 2 ^ 63"
  shows "\<exists>k \<le> length ents. rofs_emit_loop accepts start i ents em
      = em\<lparr>em_pos := int (i + k), em_out := em_out em @ take k ents\<rparr>
    \<and> ((\<forall>out ent. accepts out ent) \<longrightarrow> k = length ents)"
  using assms
proof (induction ents arbitrary: i em)
  case (Cons ent ents)
  show ?case
  proof (cases "accepts (em_out em) ent")
    case True
    let ?em = "em\<lparr>em_pos := int (i + 1), em_out := em_out em @ [ent]\<rparr>"
    have "wrap_i64 (em_pos em + 1) = int (i + 1)" using Cons.prems by (simp add: in_i64_def)
    then have "rofs_emit_loop accepts start i (ent # ents) em = rofs_emit_loop accepts start (i + 1) ents ?em"
      using Cons.prems(1) True by (simp add: emit_def)
    moreover have "start \<le> i + 1" "em_pos ?em = int (i + 1)" "i + 1 + length ents < 2 ^ 63" using Cons.prems by simp_all
    from Cons.IH [OF this] obtain k where "k \<le> length ents" "rofs_emit_loop accepts start (i + 1) ents ?em
        = ?em\<lparr>em_pos := int (i + 1 + k), em_out := em_out ?em @ take k ents\<rparr>"
        "(\<forall>out ent. accepts out ent) \<longrightarrow> k = length ents"
      by blast
    ultimately show ?thesis by (intro exI [of _ "Suc k"]) simp
  next
    case False
    then have "\<not> (\<forall>out ent. accepts out ent)" by blast
    then show ?thesis using False Cons.prems by (intro exI [of _ 0]) (simp add: emit_def)
  qed
qed auto

lemma rofs_emit_loop_skip:
  "i \<le> start \<Longrightarrow> rofs_emit_loop accepts start i ents em
     = rofs_emit_loop accepts start (min start (i + length ents)) (drop (start - i) ents) em"
proof (induction ents arbitrary: i)
  case (Cons ent ents)
  show ?case
  proof (cases "i < start")
    case True
    then show ?thesis using Cons.IH [of "i + 1"] by (simp add: drop_Cons' min_def)
  qed (use Cons.prems in simp)
qed simp

lemma rofs_read_dir_lists:
  assumes "0 \<le> em_pos em" "em_pos em \<le> 5"
  shows "\<exists>k \<le> 5 - nat (em_pos em). rofs_read_dir accepts ROOT_INO em
      = (Inr (), em\<lparr>em_pos := em_pos em + int k, em_out := em_out em @ take k (drop (nat (em_pos em)) rofs_entries)\<rparr>)
    \<and> ((\<forall>out ent. accepts out ent) \<longrightarrow> k = 5 - nat (em_pos em))"
proof -
  let ?p = "nat (em_pos em)"
  have p: "nat (em_pos em mod 2 ^ 64) = ?p" using assms by simp
  have len: "length rofs_entries = 5" by (simp add: rofs_entries_def)
  have "rofs_emit_loop accepts ?p 0 rofs_entries em = rofs_emit_loop accepts ?p ?p (drop ?p rofs_entries) em"
    using rofs_emit_loop_skip [of 0 ?p accepts rofs_entries em] len assms by (simp add: min_def)
  moreover have "?p \<le> ?p" "em_pos em = int ?p" "?p + length (drop ?p rofs_entries) < 2 ^ 63" using assms len by simp_all
  from rofs_emit_loop_from [OF this, of accepts] obtain k where "k \<le> length (drop ?p rofs_entries)" "rofs_emit_loop accepts ?p ?p (drop ?p rofs_entries) em
      = em\<lparr>em_pos := int (?p + k), em_out := em_out em @ take k (drop ?p rofs_entries)\<rparr>"
      "(\<forall>out ent. accepts out ent) \<longrightarrow> k = length (drop ?p rofs_entries)"
    by blast
  ultimately show ?thesis using assms len by (intro exI [of _ k]) (simp add: rofs_read_dir_def p)
qed

text \<open>A cache in which one inode number can be made anew and no other is available.\<close>

definition only_new :: "nat \<Rightarrow> nat \<Rightarrow> 'd iget_locked" where
  "only_new ino i = (if i = ino then IgetNew else IgetNull)"

text \<open>
  C20. Listing and lookup of the directory agree.  Listing from a position shows
  consecutive entries from there on, all of them when the reader takes them all, and
  moves the position behind those shown, so that the next call goes on.  Every
  entry but the two dots is found under its name, as the inode of its number and
  type, and no other name is.  The link resolves, through the trampoline, to the
  name of a listed file, and the delayed call gives its memory back.
\<close>

theorem rofs_namespace:
  assumes "0 \<le> em_pos em" "em_pos em \<le> 5" "fresh answer h"
  shows "(\<exists>k \<le> 5 - nat (em_pos em). rofs_read_dir accepts ROOT_INO em
        = (Inr (), em\<lparr>em_pos := em_pos em + int k, em_out := em_out em @ take k (drop (nat (em_pos em)) rofs_entries)\<rparr>)
        \<and> ((\<forall>out ent. accepts out ent) \<longrightarrow> k = 5 - nat (em_pos em)))
    \<and> (\<forall>(name, ino, dt) \<in> set (drop 2 rofs_entries).
         \<exists>node. rofs_find (only_new ino) ROOT_INO name = Inr (Some node) \<and> i_mode node AND 0xF000 = dt_code dt * 2 ^ 12)
    \<and> (name \<notin> fst ` set (drop 2 rofs_entries) \<longrightarrow> rofs_find iget_locked ROOT_INO name = Inr None)
    \<and> (\<forall>r h' target late. rofs_get_link answer h = (r, h') \<and> get_link_trampoline r = (Ptr target, Some late) \<longrightarrow>
         cstr_from_ptr (cstring_into_foreign target) h' = Some HELLO_NAME \<and> cstring_from_foreign (cstring_into_foreign late) h' = Some late
         \<and> kh_live (box_drop late h') = kh_live h)"
proof (intro conjI impI allI)
  show "\<exists>k \<le> 5 - nat (em_pos em). rofs_read_dir accepts ROOT_INO em
        = (Inr (), em\<lparr>em_pos := em_pos em + int k, em_out := em_out em @ take k (drop (nat (em_pos em)) rofs_entries)\<rparr>)
        \<and> ((\<forall>out ent. accepts out ent) \<longrightarrow> k = 5 - nat (em_pos em))"
    by (rule rofs_read_dir_lists [OF assms(1,2)])
  show "\<forall>(name, ino, dt) \<in> set (drop 2 rofs_entries).
      \<exists>node. rofs_find (only_new ino) ROOT_INO name = Inr (Some node) \<and> i_mode node AND 0xF000 = dt_code dt * 2 ^ 12"
    by (simp add: rofs_entries_def rofs_consts rofs_find_def rofs_iget_def only_new_def sb_iget_def inode_init_def
        rofs_file_params_def rofs_link_params_def type_bits_def S_IF_defs)
  show "rofs_find iget_locked ROOT_INO name = Inr None" if "name \<notin> fst ` set (drop 2 rofs_entries)"
    using that by (simp add: rofs_entries_def rofs_find_def)
next
  fix r h' target late
  assume l: "rofs_get_link answer h = (r, h') \<and> get_link_trampoline r = (Ptr target, Some late)"
  obtain t ht where t: "try_from_slice answer LINK_TARGET h = (t, ht)" by force
  then obtain s where s: "t = Inr s" "h' = ht" "target = s" "late = s"
    using l by (cases t) (auto simp: rofs_get_link_def get_link_trampoline_def to_err_ptr_def)
  have eq: "LINK_TARGET = HELLO_NAME" by (simp add: LINK_TARGET_def HELLO_NAME_def)
  have "cstring_ok h' s LINK_TARGET" "kh_live (box_drop s h') = kh_live h"
    using try_from_slice_Inr [OF assms(3)] t s by blast+
  then show "cstr_from_ptr (cstring_into_foreign target) h' = Some HELLO_NAME"
      "cstring_from_foreign (cstring_into_foreign late) h' = Some late" "kh_live (box_drop late h') = kh_live h"
    using cstring_ok_views [of h' s LINK_TARGET] s eq by simp_all
qed

theorem rofs_namespace_witness:
  "\<exists>k \<le> 4. rofs_read_dir (\<lambda>out _. out = []) ROOT_INO \<lparr>em_pos = 1, em_out = []\<rparr>
      = (Inr (), \<lparr>em_pos = 1 + int k, em_out = take k (drop 1 rofs_entries)\<rparr>)"
proof -
  have "fresh (Some 64) (kh_new :: byte kheap)" by (simp add: fresh_def kh_new_def ZERO_SIZE_PTR_def)
  from rofs_namespace [OF _ _ this, of "\<lparr>em_pos = 1, em_out = []\<rparr>" "\<lambda>out _. out = []" "[]" "\<lambda>_. IgetNull"]
  show ?thesis by simp blast
qed


section \<open>Contents\<close>

text \<open>A file read through the trampoline into buffers of the given sizes, none of which faults.\<close>

fun rofs_cat :: "rofs_data \<Rightarrow> nat list \<Rightarrow> int \<Rightarrow> byte list \<times> int" where
  "rofs_cat data [] pos = ([], pos)"
| "rofs_cat data (c # cs) pos =
     (let it = \<lparr>iov_count = c, iov_out = []\<rparr>; copied = min c (length (unwrap_or data []) - nat pos);
          (ret, pos') = custom_read_iter_trampoline (\<lambda>off. fst (rofs_read_iter copied data off it)) pos;
          (bs, end_pos) = rofs_cat data cs pos'
      in (iov_out (snd (rofs_read_iter copied data pos it)) @ bs, end_pos))"

lemma rofs_read_iter_step:
  assumes "0 \<le> pos" "pos \<le> int (length content)" "int (length content) < 2 ^ 63"
  shows "rofs_read_iter (min c (length content - nat pos)) (Some content) pos \<lparr>iov_count = c, iov_out = []\<rparr>
    = (Inr (min c (length content - nat pos)), \<lparr>iov_count = c - (length content - nat pos), iov_out = take c (drop (nat pos) content)\<rparr>)"
proof -
  have m: "pos mod 2 ^ 64 = pos" using assms by simp
  show ?thesis
  proof (cases "nat pos < length content")
    case True
    then show ?thesis unfolding rofs_read_iter_def m
      by (cases c) (auto simp: Let_def iov_write_all_def iov_write_def min_def)
  next
    case False
    then show ?thesis using assms unfolding rofs_read_iter_def m by simp
  qed
qed

lemma rofs_cat_reads:
  assumes "0 \<le> pos" "pos \<le> int (length content)" "int (length content) < 2 ^ 63"
  shows "rofs_cat (Some content) cs pos
    = (take (sum_list cs) (drop (nat pos) content), int (min (nat pos + sum_list cs) (length content)))"
  using assms(1,2)
proof (induction cs arbitrary: pos)
  case Nil
  then show ?case by simp
next
  case (Cons c cs)
  let ?k = "min c (length content - nat pos)"
  have k: "in_i64 (int ?k)" "in_i64 (pos + int ?k)" using Cons.prems assms(3) by (auto simp: in_i64_def)
  have step: "rofs_read_iter ?k (Some content) pos \<lparr>iov_count = c, iov_out = []\<rparr>
      = (Inr ?k, \<lparr>iov_count = c - (length content - nat pos), iov_out = take c (drop (nat pos) content)\<rparr>)"
    using rofs_read_iter_step Cons.prems assms(3) by blast
  have ih: "rofs_cat (Some content) cs (pos + int ?k)
      = (take (sum_list cs) (drop (nat (pos + int ?k)) content), int (min (nat (pos + int ?k) + sum_list cs) (length content)))"
    using Cons.prems by (intro Cons.IH) auto
  have "nat (pos + int ?k) = nat pos + ?k" using Cons.prems(1) by (simp add: nat_add_distrib)
  then have all: "rofs_cat (Some content) (c # cs) pos = (take c (drop (nat pos) content) @ take (sum_list cs) (drop (nat pos + ?k) content),
      int (min (nat pos + ?k + sum_list cs) (length content)))"
    using ih step k by (simp add: custom_read_iter_trampoline_def Let_def)
  have bytes: "take c (drop (nat pos) content) @ take (sum_list cs) (drop (nat pos + ?k) content)
      = take (c + sum_list cs) (drop (nat pos) content)"
    by (cases "c \<le> length content - nat pos") (auto simp: take_add add.commute)
  have pos: "min (nat pos + ?k + sum_list cs) (length content) = min (nat pos + (c + sum_list cs)) (length content)"
    using Cons.prems by (simp add: min_def) arith
  show ?case unfolding all bytes pos by simp
qed

text \<open>
  C22. Both ways of reading a file return its contents.  Reads into buffers of any
  sizes, one after the other, return the bytes of the file in order and stop at
  its end.  A folio of at most a page is filled with the bytes of the file at its
  position and with zeroes behind the end; a larger folio panics the kernel, since
  only one page of it is mapped.  Seeking to data stays and seeking to a hole goes
  to the end, inside the file only.
\<close>

theorem rofs_contents:
  assumes "int (length content) < 2 ^ 63" "folio \<noteq> []" "0 \<le> pos" "pos < 2 ^ 63"
  shows "rofs_cat (Some content) cs 0 = (take (sum_list cs) content, int (min (sum_list cs) (length content)))
    \<and> (length folio \<le> PAGE_SIZE \<longrightarrow> rofs_read_folio True (Some content) pos folio
        = (Inr (), take (length folio) (drop (nat pos) content) @ replicate (length folio - (length content - nat pos)) 0))
    \<and> (PAGE_SIZE < length folio \<longrightarrow> fst (rofs_read_folio True (Some content) pos folio) = Inl Panic)
    \<and> (rofs_seek (int (length content)) pos SeekData = (if nat pos < length content then Inr pos else Inl ENXIO))
    \<and> (rofs_seek (int (length content)) pos SeekHole = (if nat pos < length content then Inr (int (length content)) else Inl ENXIO))"
proof (intro conjI impI)
  show "rofs_cat (Some content) cs 0 = (take (sum_list cs) content, int (min (sum_list cs) (length content)))"
    using rofs_cat_reads [of 0 content cs] assms(1) by simp
  have m: "pos mod 2 ^ 64 = pos" using assms(3,4) by simp
  show "rofs_read_folio True (Some content) pos folio
      = (Inr (), take (length folio) (drop (nat pos) content) @ replicate (length folio - (length content - nat pos)) 0)"
    if "length folio \<le> PAGE_SIZE"
    using that assms(2) unfolding rofs_read_folio_def m by (auto simp: folio_map_def Let_def min_def)
  show "fst (rofs_read_folio True (Some content) pos folio) = Inl Panic" if "PAGE_SIZE < length folio"
    using that assms(2) unfolding rofs_read_folio_def m by (auto simp: folio_map_def Let_def min_def)
qed (use assms(3) in \<open>auto simp: rofs_seek_def\<close>)

theorem rofs_contents_witness:
  "rofs_cat (Some HELLO_CONTENT) [5, 100] 0 = (HELLO_CONTENT, 17)"
  using rofs_contents [of HELLO_CONTENT "[0]" 0 "[5, 100]"] by (simp add: HELLO_CONTENT_def ascii_def)

end
