(* ===== verification/Sync_Channel.thy ===== *)
theory Sync_Channel
  imports Interleaving "HOL-Library.Word"
begin

text \<open>
  The blocking one-shot channel of \<open>rko-core/src/sync/oneshot.rs\<close> with the
  completion of \<open>rko-core/src/sync/completion.rs\<close>: the sender writes a value
  and a flag and signals, the receiver blocks, for ever or for some time, and
  then looks at the flag.  A completion counts the signals nobody has waited for
  yet; a wait with a time limit gives up only while there is none.
\<close>

section \<open>The two halves\<close>

datatype ch_send_pc = CHeld | CWritten | CFlagged | CDec | CFree | CGone

text \<open>From \<open>WDec\<close> on, the counter of the receiver carries what it returns.\<close>

datatype 'a ch_recv_pc = WHeld | WWait bool | WRead | WDec "'a option" | WFree "'a option" | WGone "'a option"

record 'a blocking_chan =
  ch_value :: "'a option"
  ch_sent :: bool
  ch_done :: nat
  ch_refs :: "8 word"
  ch_send :: ch_send_pc
  ch_recv :: "'a ch_recv_pc"
  ch_reads :: nat
  ch_freed :: nat

definition ch_channel :: "'a blocking_chan" where
  "ch_channel = \<lparr>ch_value = None, ch_sent = False, ch_done = 0, ch_refs = 2, ch_send = CHeld, ch_recv = WHeld,
     ch_reads = 0, ch_freed = 0\<rparr>"

definition ch_dec_ref :: "8 word \<Rightarrow> bool \<times> 8 word" where
  "ch_dec_ref refs = (refs = 1, refs - 1)"

definition read_value :: "'a blocking_chan \<Rightarrow> 'a option \<times> 'a blocking_chan" where
  "read_value s = (if ch_sent s then (ch_value s, s\<lparr>ch_reads := ch_reads s + 1\<rparr>) else (None, s))"

definition complete :: "'a blocking_chan \<Rightarrow> 'a blocking_chan" where
  "complete s = s\<lparr>ch_done := ch_done s + 1\<rparr>"

definition wait :: "'a blocking_chan \<Rightarrow> 'a blocking_chan option" where
  "wait s = (if 0 < ch_done s then Some (s\<lparr>ch_done := ch_done s - 1\<rparr>) else None)"

definition ch_send_step :: "'a blocking_chan \<Rightarrow> 'a blocking_chan option" where
  "ch_send_step s = (case ch_send s of
     CWritten \<Rightarrow> Some (s\<lparr>ch_sent := True, ch_send := CFlagged\<rparr>)
   | CFlagged \<Rightarrow> Some ((complete s)\<lparr>ch_send := CDec\<rparr>)
   | CDec \<Rightarrow> (case ch_dec_ref (ch_refs s) of
       (is_last, refs) \<Rightarrow> Some (s\<lparr>ch_refs := refs, ch_send := if is_last then CFree else CGone\<rparr>))
   | CFree \<Rightarrow> Some (s\<lparr>ch_freed := ch_freed s + 1, ch_send := CGone\<rparr>)
   | _ \<Rightarrow> None)"

definition ch_recv_step :: "'a blocking_chan \<Rightarrow> 'a blocking_chan option" where
  "ch_recv_step s = (case ch_recv s of
     WWait _ \<Rightarrow> map_option (\<lambda>s. s\<lparr>ch_recv := WRead\<rparr>) (wait s)
   | WRead \<Rightarrow> (case read_value s of (r, s') \<Rightarrow> Some (s'\<lparr>ch_recv := WDec r\<rparr>))
   | WDec r \<Rightarrow> (case ch_dec_ref (ch_refs s) of
       (is_last, refs) \<Rightarrow> Some (s\<lparr>ch_refs := refs, ch_recv := if is_last then WFree r else WGone r\<rparr>))
   | WFree r \<Rightarrow> Some (s\<lparr>ch_freed := ch_freed s + 1, ch_recv := WGone r\<rparr>)
   | _ \<Rightarrow> None)"

datatype 'a ch_label = ChSend 'a | ChSenderDrop | ChSendStep | ChRecv | ChRecvTimeout | ChElapse | ChRecvStep | ChReceiverDrop

fun ch_step :: "'a blocking_chan \<Rightarrow> 'a ch_label \<Rightarrow> 'a blocking_chan option" where
  "ch_step s (ChSend v) = (if ch_send s = CHeld then Some (s\<lparr>ch_value := Some v, ch_send := CWritten\<rparr>) else None)"
| "ch_step s ChSenderDrop = (if ch_send s = CHeld then Some ((complete s)\<lparr>ch_send := CDec\<rparr>) else None)"
| "ch_step s ChSendStep = ch_send_step s"
| "ch_step s ChRecv = (if ch_recv s = WHeld then Some (s\<lparr>ch_recv := WWait False\<rparr>) else None)"
| "ch_step s ChRecvTimeout = (if ch_recv s = WHeld then Some (s\<lparr>ch_recv := WWait True\<rparr>) else None)"
| "ch_step s ChElapse = (if ch_recv s = WWait True \<and> ch_done s = 0 then Some (s\<lparr>ch_recv := WDec None\<rparr>) else None)"
| "ch_step s ChRecvStep = ch_recv_step s"
| "ch_step s ChReceiverDrop = (if ch_recv s = WHeld then Some (s\<lparr>ch_recv := WDec None\<rparr>) else None)"

lemmas ch_ops = ch_send_step_def ch_recv_step_def ch_dec_ref_def read_value_def complete_def wait_def


section \<open>Invariants\<close>

definition signalled :: "'a blocking_chan \<Rightarrow> bool" where
  "signalled s \<longleftrightarrow> ch_send s \<in> {CDec, CFree, CGone}"

definition ch_send_owns :: "'a blocking_chan \<Rightarrow> bool" where
  "ch_send_owns s \<longleftrightarrow> ch_send s \<notin> {CFree, CGone}"

definition ch_recv_owns :: "'a blocking_chan \<Rightarrow> bool" where
  "ch_recv_owns s \<longleftrightarrow> (case ch_recv s of WFree _ \<Rightarrow> False | WGone _ \<Rightarrow> False | _ \<Rightarrow> True)"

fun result_of :: "'a ch_recv_pc \<Rightarrow> 'a option" where
  "result_of (WDec r) = r"
| "result_of (WFree r) = r"
| "result_of (WGone r) = r"
| "result_of _ = None"

text \<open>The value and the flag follow the sender.\<close>

definition flag_ok :: "'a blocking_chan \<Rightarrow> bool" where
  "flag_ok s \<longleftrightarrow> (ch_send s = CHeld \<longrightarrow> ch_value s = None \<and> \<not> ch_sent s) \<and> (ch_send s = CWritten \<longrightarrow> ch_value s \<noteq> None \<and> \<not> ch_sent s)
     \<and> (ch_send s \<notin> {CHeld, CWritten} \<longrightarrow> ch_sent s = (ch_value s \<noteq> None)) \<and> (ch_send s = CFlagged \<longrightarrow> ch_sent s)"

text \<open>The receiver reads only after the signal, when the sender touches neither.\<close>

definition done_ok :: "'a blocking_chan \<Rightarrow> bool" where
  "done_ok s \<longleftrightarrow> (\<not> signalled s \<longrightarrow> ch_done s = 0 \<and> ch_recv s \<noteq> WRead)
     \<and> (signalled s \<and> (ch_recv s = WHeld \<or> (\<exists>t. ch_recv s = WWait t)) \<longrightarrow> ch_done s = 1)"

definition read_ok :: "'a blocking_chan \<Rightarrow> bool" where
  "read_ok s \<longleftrightarrow> ch_reads s = of_bool (result_of (ch_recv s) \<noteq> None)
     \<and> (result_of (ch_recv s) \<noteq> None \<longrightarrow> result_of (ch_recv s) = ch_value s \<and> signalled s)"

definition ch_refs_ok :: "'a blocking_chan \<Rightarrow> bool" where
  "ch_refs_ok s \<longleftrightarrow> ch_refs s = of_bool (ch_send_owns s) + of_bool (ch_recv_owns s)
     \<and> ch_freed s + of_bool (ch_send s = CFree) + of_bool (\<exists>r. ch_recv s = WFree r)
       = of_bool (\<not> ch_send_owns s \<and> \<not> ch_recv_owns s)"

definition ch_ok :: "'a blocking_chan \<Rightarrow> bool" where
  "ch_ok s \<longleftrightarrow> flag_ok s \<and> done_ok s \<and> read_ok s \<and> ch_refs_ok s"

lemma flag_step: "flag_ok s \<Longrightarrow> pred_option flag_ok (ch_step s l)"
proof (cases l)
  case ChSendStep
  assume "flag_ok s"
  then show ?thesis using ChSendStep by (cases "ch_send s") (simp_all add: flag_ok_def ch_ops)
next
  case ChRecvStep
  assume "flag_ok s"
  then show ?thesis using ChRecvStep by (cases "ch_recv s") (auto simp: flag_ok_def ch_ops)
qed (auto simp: flag_ok_def ch_ops)

lemma done_step: "done_ok s \<Longrightarrow> pred_option done_ok (ch_step s l)"
proof (cases l)
  case ChSendStep
  assume "done_ok s"
  then show ?thesis using ChSendStep by (cases "ch_send s") (simp_all add: done_ok_def signalled_def ch_ops)
next
  case ChRecvStep
  assume "done_ok s"
  then show ?thesis using ChRecvStep by (cases "ch_recv s") (auto simp: done_ok_def signalled_def ch_ops)
qed (auto simp: done_ok_def signalled_def ch_ops)

lemma read_step: "flag_ok s \<Longrightarrow> done_ok s \<Longrightarrow> read_ok s \<Longrightarrow> pred_option read_ok (ch_step s l)"
proof (cases l)
  case ChSendStep
  assume "flag_ok s" "done_ok s" "read_ok s"
  then show ?thesis using ChSendStep by (cases "ch_send s") (simp_all add: flag_ok_def done_ok_def read_ok_def signalled_def ch_ops)
next
  case ChRecvStep
  assume "flag_ok s" "done_ok s" "read_ok s"
  then show ?thesis using ChRecvStep by (cases "ch_recv s") (auto simp: flag_ok_def done_ok_def read_ok_def signalled_def ch_ops)
qed (auto simp: flag_ok_def done_ok_def read_ok_def signalled_def ch_ops)

lemma ch_refs_step: "ch_refs_ok s \<Longrightarrow> pred_option ch_refs_ok (ch_step s l)"
proof (cases l)
  case ChSendStep
  assume "ch_refs_ok s"
  then show ?thesis using ChSendStep by (cases "ch_send s") (simp_all add: ch_refs_ok_def ch_send_owns_def ch_recv_owns_def ch_ops)
next
  case ChRecvStep
  assume "ch_refs_ok s"
  then show ?thesis using ChRecvStep by (cases "ch_recv s") (auto simp: ch_refs_ok_def ch_send_owns_def ch_recv_owns_def ch_ops)
qed (auto simp: ch_refs_ok_def ch_send_owns_def ch_recv_owns_def ch_ops)

interpretation chi: kept ch_step ch_channel ch_ok
proof
  show "ch_ok ch_channel"
    by (simp add: ch_ok_def ch_channel_def flag_ok_def done_ok_def read_ok_def ch_refs_ok_def signalled_def ch_send_owns_def ch_recv_owns_def)
next
  fix s :: "'a blocking_chan" and l s' assume "ch_ok s" "ch_step s l = Some s'"
  then show "ch_ok s'" using flag_step [of s l] done_step [of s l] read_step [of s l] ch_refs_step [of s l]
    by (simp add: ch_ok_def)
qed

text \<open>Where the value and the missing value come from.\<close>

definition sent_from :: "'a ch_label list \<Rightarrow> 'a blocking_chan \<Rightarrow> bool" where
  "sent_from ls s \<longleftrightarrow> (\<forall>v. ch_value s = Some v \<longrightarrow> ChSend v \<in> set ls) \<and> (ch_value s = None \<and> signalled s \<longrightarrow> ChSenderDrop \<in> set ls)"

lemma sent_from_step: "flag_ok s \<Longrightarrow> sent_from ls s \<Longrightarrow> pred_option (sent_from (ls @ [l])) (ch_step s l)"
proof (cases l)
  case ChSendStep
  assume "flag_ok s" "sent_from ls s"
  then show ?thesis using ChSendStep by (cases "ch_send s") (auto simp: sent_from_def flag_ok_def signalled_def ch_ops)
next
  case ChRecvStep
  assume "sent_from ls s"
  then show ?thesis using ChRecvStep by (cases "ch_recv s") (auto simp: sent_from_def signalled_def ch_ops)
qed (auto simp: sent_from_def signalled_def ch_ops)

definition gave_up :: "'a ch_label list \<Rightarrow> bool" where
  "gave_up ls \<longleftrightarrow> ChSenderDrop \<in> set ls \<or> ChElapse \<in> set ls \<or> ChReceiverDrop \<in> set ls"

fun returned :: "'a ch_recv_pc \<Rightarrow> bool" where
  "returned (WDec r) = True"
| "returned (WFree r) = True"
| "returned (WGone r) = True"
| "returned _ = False"

definition none_from :: "'a ch_label list \<Rightarrow> 'a blocking_chan \<Rightarrow> bool" where
  "none_from ls s \<longleftrightarrow> (returned (ch_recv s) \<and> result_of (ch_recv s) = None \<longrightarrow> gave_up ls)"

lemma none_from_step:
  "flag_ok s \<Longrightarrow> done_ok s \<Longrightarrow> sent_from ls s \<Longrightarrow> none_from ls s \<Longrightarrow> pred_option (none_from (ls @ [l])) (ch_step s l)"
proof (cases l)
  case ChSendStep
  assume "none_from ls s"
  then show ?thesis using ChSendStep by (cases "ch_send s") (auto simp: none_from_def gave_up_def ch_ops)
next
  case ChRecvStep
  assume ok: "flag_ok s" "done_ok s" "sent_from ls s" "none_from ls s"
  show ?thesis
  proof (cases "ch_recv s")
    case WRead
    then have "signalled s" using ok(2) by (auto simp: done_ok_def)
    then have "ch_value s = None \<Longrightarrow> gave_up ls" "\<not> ch_sent s \<Longrightarrow> ch_value s = None"
      using ok(1,3) by (auto simp: flag_ok_def signalled_def sent_from_def gave_up_def)
    then show ?thesis using ChRecvStep WRead by (auto simp: none_from_def gave_up_def ch_ops)
  qed (use ok(4) ChRecvStep in \<open>auto simp: none_from_def gave_up_def ch_ops\<close>)
qed (auto simp: none_from_def gave_up_def ch_ops)

lemma run_told: "run ch_step ch_channel ls = Some s \<Longrightarrow> sent_from ls s \<and> none_from ls s"
proof (induction ls arbitrary: s rule: rev_induct)
  case Nil
  then show ?case by (auto simp: sent_from_def none_from_def ch_channel_def signalled_def)
next
  case (snoc l ls)
  then obtain s1 where s1: "run ch_step ch_channel ls = Some s1" "ch_step s1 l = Some s"
    by (auto simp: run_append split: Option.bind_splits)
  then have "ch_ok s1" by (blast intro: chi.reached run_reachable)
  then show ?case using sent_from_step [of s1 ls l] none_from_step [of s1 ls l] snoc.IH s1 by (simp add: ch_ok_def)
qed

text \<open>A receiver that waits gets its answer from at most two more steps of the sender and two of its own.\<close>

lemma signalled_gets:
  assumes "ch_ok s" "signalled s" "ch_recv s = WWait t"
  shows "\<exists>s'. run ch_step s [ChRecvStep, ChRecvStep] = Some s' \<and> ch_recv s' = WDec (ch_value s)"
proof -
  have "ch_done s = 1" "ch_sent s = (ch_value s \<noteq> None)"
    using assms by (auto simp: ch_ok_def done_ok_def flag_ok_def signalled_def)
  then show ?thesis using assms(3) by (auto simp: ch_ops)
qed

lemma waiting_gets:
  assumes "ch_ok s" "ch_send s \<noteq> CHeld" "ch_recv s = WWait t"
  shows "\<exists>ms s'. set ms \<subseteq> {ChSendStep, ChRecvStep} \<and> length ms \<le> 4 \<and> run ch_step s ms = Some s' \<and> ch_recv s' = WDec (ch_value s)"
proof -
  let ?f = "s\<lparr>ch_sent := True, ch_send := CFlagged\<rparr>" and ?c = "\<lambda>s. (complete s)\<lparr>ch_send := CDec\<rparr>"
  consider (sig) "signalled s" | (flag) "ch_send s = CFlagged" | (wr) "ch_send s = CWritten"
    using assms(2) by (cases "ch_send s") (auto simp: signalled_def)
  then show ?thesis
  proof cases
    case sig
    from signalled_gets [OF assms(1) this assms(3)] show ?thesis by (intro exI [of _ "[ChRecvStep, ChRecvStep]"]) simp
  next
    case flag
    then have one: "ch_step s ChSendStep = Some (?c s)" by (simp add: ch_send_step_def)
    have "\<exists>s'. run ch_step (?c s) [ChRecvStep, ChRecvStep] = Some s' \<and> ch_recv s' = WDec (ch_value (?c s))"
      using assms(3) by (intro signalled_gets [OF chi.kept [OF assms(1) one], of t]) (simp_all add: signalled_def complete_def)
    then show ?thesis using one
      by (intro exI [of _ "[ChSendStep, ChRecvStep, ChRecvStep]"]) (simp add: complete_def)
  next
    case wr
    then have one: "ch_step s ChSendStep = Some ?f" by (simp add: ch_send_step_def)
    have two: "ch_step ?f ChSendStep = Some (?c ?f)" by (simp add: ch_send_step_def)
    have "\<exists>s'. run ch_step (?c ?f) [ChRecvStep, ChRecvStep] = Some s' \<and> ch_recv s' = WDec (ch_value (?c ?f))"
      using assms(3) by (intro signalled_gets [OF chi.kept [OF chi.kept [OF assms(1) one] two], of t]) (simp_all add: signalled_def complete_def)
    then show ?thesis using one two
      by (intro exI [of _ "[ChSendStep, ChSendStep, ChRecvStep, ChRecvStep]"]) (simp add: complete_def)
  qed
qed

text \<open>
  C35. However the two halves of a blocking channel interleave: a received value
  was sent, and nothing is received only if the sender or the receiver was dropped
  or the time limit passed; the value is read once if it is received and else never;
  the memory is freed once, when both halves have let go of it, and not before.  A
  receiver that waits after the sender has begun to send, or was dropped, returns
  within four steps of the two halves.  A value that comes too late for the time
  limit is lost: its memory is freed without anybody having read or dropped it.
\<close>

theorem blocking_channel_delivers:
  assumes "run ch_step ch_channel ls = Some s"
  shows "(result_of (ch_recv s) = Some v \<longrightarrow> ChSend v \<in> set ls \<and> ch_reads s = 1)
    \<and> (ch_recv s = WGone None \<longrightarrow> gave_up ls \<and> ch_reads s = 0)
    \<and> ch_freed s \<le> 1 \<and> (ch_send_owns s \<or> ch_recv_owns s \<longrightarrow> ch_freed s = 0)
    \<and> (ch_send s = CGone \<and> ch_recv s = WGone r \<longrightarrow> ch_freed s = 1)
    \<and> (ch_send s \<noteq> CHeld \<and> ch_recv s = WWait t \<longrightarrow>
         (\<exists>ms s'. set ms \<subseteq> {ChSendStep, ChRecvStep} \<and> length ms \<le> 4 \<and> run ch_step s ms = Some s' \<and> ch_recv s' = WDec (ch_value s)))
    \<and> (\<exists>ms s'. run ch_step ch_channel ms = Some s' \<and> ch_value s' = Some v \<and> ch_reads s' = 0 \<and> ch_freed s' = 1)"
proof -
  have ok: "ch_ok s" using chi.reached [OF run_reachable [OF assms]] .
  then have rd: "read_ok s" and refs: "ch_refs_ok s" by (simp_all add: ch_ok_def)
  have 1: "result_of (ch_recv s) = Some v \<longrightarrow> ChSend v \<in> set ls \<and> ch_reads s = 1"
    using rd run_told [OF assms] by (auto simp: read_ok_def sent_from_def none_from_def)
  have 2: "ch_recv s = WGone None \<longrightarrow> gave_up ls \<and> ch_reads s = 0"
    using rd run_told [OF assms] by (auto simp: read_ok_def sent_from_def none_from_def)
  have 3: "ch_freed s \<le> 1" "ch_send_owns s \<or> ch_recv_owns s \<longrightarrow> ch_freed s = 0"
    using refs by (auto simp: ch_refs_ok_def of_bool_def split: if_splits)
  have 4: "ch_send s = CGone \<and> ch_recv s = WGone r \<longrightarrow> ch_freed s = 1"
    using refs by (auto simp: ch_refs_ok_def ch_send_owns_def ch_recv_owns_def)
  have 5: "\<exists>ms s'. run ch_step ch_channel ms = Some s' \<and> ch_value s' = Some v \<and> ch_reads s' = 0 \<and> ch_freed s' = 1"
    by (intro exI [of _ "[ChRecvTimeout, ChElapse, ChRecvStep, ChSend v, ChSendStep, ChSendStep, ChSendStep, ChSendStep]"])
      (simp add: ch_channel_def ch_ops)
  show ?thesis using 1 2 3 4 5 waiting_gets [OF ok] by blast
qed

theorem blocking_channel_delivers_witness:
  "\<exists>s. run ch_step ch_channel [ChRecv, ChSend (7::nat), ChSendStep, ChSendStep, ChRecvStep, ChRecvStep] = Some s
     \<and> result_of (ch_recv s) = Some 7 \<and> ch_reads s = 1 \<and> ch_freed s = 0"
proof -
  obtain s :: "nat blocking_chan" where s: "run ch_step ch_channel [ChRecv, ChSend (7::nat), ChSendStep, ChSendStep, ChRecvStep, ChRecvStep] = Some s"
    "result_of (ch_recv s) = Some 7" "ch_recv_owns s"
    by (simp add: ch_channel_def ch_ops ch_recv_owns_def)
  then show ?thesis using blocking_channel_delivers [OF s(1), of 7] by auto
qed

end
