(* ===== verification/Arc_Queue.thy ===== *)
theory Arc_Queue
  imports Sync_Prims Kernel_Box
begin

text \<open>
  The pointers of \<open>Arc\<close>, \<open>ArcBorrow\<close> and \<open>UniqueArc\<close> of
  \<open>rko-core/src/sync/arc.rs\<close> and the work items of
  \<open>rko-core/src/workqueue.rs\<close>: an \<open>Arc\<close> goes through a foreign pointer
  to its data, or through a work queue as a pointer to a work field inside
  its data, and comes back by subtracting offsets.  The machine follows all
  pointers into all allocations.
\<close>

section \<open>Pointers\<close>

text \<open>The offset at which a value of some layout goes behind another one, \<open>Layout::extend\<close>.\<close>

definition round_up :: "nat \<Rightarrow> nat \<Rightarrow> nat" where
  "round_up n a = (n + a - 1) div a * a"

definition layout_extend :: "layout \<Rightarrow> layout \<Rightarrow> layout \<times> nat" where
  "layout_extend self next =
     (let offset = round_up (lsize self) (lalign next)
      in (\<lparr>lsize = offset + lsize next, lalign = max (lalign self) (lalign next)\<rparr>, offset))"

definition REFCOUNT :: layout where
  "REFCOUNT = \<lparr>lsize = 4, lalign = 4\<rparr>"

text \<open>A type that can be queued: its layout, and the offset of its \<open>Work\<close> field for each \<open>ID\<close>.\<close>

record work_ty =
  wt_layout :: layout
  wt_works :: "(nat \<times> nat) list"

definition wt_ok :: "work_ty \<Rightarrow> bool" where
  "wt_ok ty \<longleftrightarrow> distinct (map fst (wt_works ty)) \<and> distinct (map snd (wt_works ty))
     \<and> (\<forall>w \<in> set (wt_works ty). snd w < lsize (wt_layout ty))"

definition DATA_OFFSET :: "work_ty \<Rightarrow> nat" where
  "DATA_OFFSET ty = round_up (lsize REFCOUNT) (lalign (wt_layout ty))"

definition arc_into_raw :: "work_ty \<Rightarrow> nat \<Rightarrow> nat" where
  "arc_into_raw ty inner = inner + DATA_OFFSET ty"

definition arc_container_of :: "work_ty \<Rightarrow> nat \<Rightarrow> nat" where
  "arc_container_of ty ptr = (let val_offset = snd (layout_extend REFCOUNT (wt_layout ty)) in ptr - val_offset)"

definition arc_from_raw :: "work_ty \<Rightarrow> nat \<Rightarrow> nat" where
  "arc_from_raw ty ptr = arc_container_of ty ptr"

definition raw_get_work :: "nat \<Rightarrow> nat \<Rightarrow> nat" where
  "raw_get_work offset ptr = ptr + offset"

definition work_container_of :: "nat \<Rightarrow> nat \<Rightarrow> nat" where
  "work_container_of offset ptr = ptr - offset"

text \<open>The \<open>Work\<close> field for an \<open>ID\<close> of the object behind an \<open>Arc\<close>.\<close>

definition work_ptr :: "work_ty \<Rightarrow> nat \<Rightarrow> nat \<Rightarrow> nat option" where
  "work_ptr ty ident inner = map_option (\<lambda>offset. raw_get_work offset (arc_into_raw ty inner)) (map_of (wt_works ty) ident)"

lemma arc_raw_inverse [simp]: "arc_from_raw ty (arc_into_raw ty inner) = inner"
  by (simp add: arc_from_raw_def arc_container_of_def arc_into_raw_def DATA_OFFSET_def layout_extend_def Let_def)

lemma work_inverse [simp]: "work_container_of offset (raw_get_work offset ptr) = ptr"
  by (simp add: work_container_of_def raw_get_work_def)


section \<open>The machine\<close>

text \<open>
  The live allocations with their reference counts, the initialised
  work items, with the type and the \<open>ID\<close> for which their callback was set, and
  the pointers: \<open>UniqueArc\<close>s to memory that is not initialised yet,
  \<open>Arc\<close>s, foreign pointers to the data, and queued work items.
\<close>

type_synonym handle = "work_ty \<times> nat"

record wq =
  wq_live :: "nat \<rightharpoonup> work_ty \<times> 32 word"
  wq_func :: "nat \<rightharpoonup> work_ty \<times> nat"
  wq_unique :: "handle list"
  wq_arcs :: "handle list"
  wq_foreign :: "handle list"
  wq_pending :: "nat list"
  wq_fault :: bool

definition wq_new :: wq where
  "wq_new = \<lparr>wq_live = (\<lambda>_. None), wq_func = (\<lambda>_. None), wq_unique = [], wq_arcs = [], wq_foreign = [], wq_pending = [],
     wq_fault = False\<rparr>"

definition inside :: "work_ty \<Rightarrow> nat \<Rightarrow> nat \<Rightarrow> bool" where
  "inside ty inner w \<longleftrightarrow> inner \<le> w \<and> w < inner + DATA_OFFSET ty + lsize (wt_layout ty)"

text \<open>An allocation that the kernel may answer with does not overlap a live one.\<close>

definition apart :: "work_ty \<Rightarrow> nat \<Rightarrow> wq \<Rightarrow> bool" where
  "apart ty a s \<longleftrightarrow> (\<forall>p t c w. wq_live s p = Some (t, c) \<longrightarrow> \<not> (inside ty a w \<and> inside t p w)) \<and> wq_live s a = None"

definition new_uninit :: "work_ty \<Rightarrow> nat option \<Rightarrow> wq \<Rightarrow> (alloc_error + handle) \<times> wq" where
  "new_uninit ty answer s =
     (case answer of
        None \<Rightarrow> (Inl AllocError, s)
      | Some a \<Rightarrow> (Inr (ty, a), s\<lparr>wq_live := (wq_live s)(a \<mapsto> (ty, 1))\<rparr>))"

text \<open>\<open>MaybeUninit<T>\<close> and \<open>T\<close> have one layout: the pointer stays and its type changes.\<close>

definition assume_init :: "handle \<Rightarrow> handle" where
  "assume_init me = (let ptr = snd me in (fst me, ptr))"

lemma assume_init_same [simp]: "assume_init me = me"
  by (simp add: assume_init_def)

definition work_init :: "handle \<Rightarrow> nat \<Rightarrow> wq \<Rightarrow> wq" where
  "work_init h ident s = (case work_ptr (fst h) ident (snd h) of
     Some w \<Rightarrow> s\<lparr>wq_func := (wq_func s)(w \<mapsto> (fst h, ident))\<rparr> | None \<Rightarrow> s)"

definition clone_at :: "nat \<Rightarrow> wq \<Rightarrow> wq" where
  "clone_at p s = (case wq_live s p of
     Some (ty, c) \<Rightarrow> s\<lparr>wq_live := (wq_live s)(p \<mapsto> (ty, refcount_inc c))\<rparr> | None \<Rightarrow> s\<lparr>wq_fault := True\<rparr>)"

definition drop_at :: "nat \<Rightarrow> wq \<Rightarrow> wq" where
  "drop_at p s = (case wq_live s p of
     Some (ty, c) \<Rightarrow> (case dec_and_test c of
         (True, _) \<Rightarrow> s\<lparr>wq_live := (wq_live s)(p := None), wq_func := (\<lambda>w. if inside ty p w then None else wq_func s w)\<rparr>
       | (False, c') \<Rightarrow> s\<lparr>wq_live := (wq_live s)(p \<mapsto> (ty, c'))\<rparr>)
   | None \<Rightarrow> s\<lparr>wq_fault := True\<rparr>)"

definition foreign_borrow :: "handle \<Rightarrow> handle" where
  "foreign_borrow f = (fst f, arc_container_of (fst f) (snd f))"

text \<open>
  Queuing the work item of an \<open>Arc\<close>.  The kernel refuses, and the \<open>Arc\<close> comes
  back, only when the item is queued already; an item that was never initialised is a fault.
\<close>

definition queue_work_on :: "nat \<Rightarrow> wq \<Rightarrow> bool \<times> wq" where
  "queue_work_on w s = (if wq_func s w = None then (False, s\<lparr>wq_fault := True\<rparr>)
     else if w \<in> set (wq_pending s) then (False, s) else (True, s\<lparr>wq_pending := wq_pending s @ [w]\<rparr>))"

definition enqueue :: "handle \<Rightarrow> nat \<Rightarrow> wq \<Rightarrow> (handle + unit) \<times> wq" where
  "enqueue h ident s =
     (let ptr = arc_into_raw (fst h) (snd h) in
      case map_of (wt_works (fst h)) ident of
        None \<Rightarrow> (Inl h, s)
      | Some offset \<Rightarrow>
          (case queue_work_on (raw_get_work offset ptr) s of
             (True, s') \<Rightarrow> (Inr (), s')
           | (False, s') \<Rightarrow> (Inl (fst h, arc_from_raw (fst h) ptr), s')))"

text \<open>The callback of a queued item gets the \<open>Arc\<close> back.\<close>

definition run_item :: "nat \<Rightarrow> wq \<Rightarrow> handle option" where
  "run_item w s = (case wq_func s w of
     None \<Rightarrow> None
   | Some (ty, ident) \<Rightarrow> map_option (\<lambda>offset. (ty, arc_from_raw ty (work_container_of offset w))) (map_of (wt_works ty) ident))"

datatype wq_label = QNew work_ty "nat option" | QInit nat nat | QAssumeInit nat | QClone nat | QDrop nat
  | QIntoForeign nat | QFromForeign nat | QBorrow nat | QEnqueue nat nat | QRun nat

text \<open>
  \<open>assume_init\<close> is the promise of the caller that every \<open>Work\<close> field is initialised.
\<close>

definition initialised :: "wq \<Rightarrow> handle \<Rightarrow> bool" where
  "initialised s h \<longleftrightarrow> (\<forall>(ident, offset) \<in> set (wt_works (fst h)).
     wq_func s (raw_get_work offset (arc_into_raw (fst h) (snd h))) = Some (fst h, ident))"

fun wq_step :: "wq \<Rightarrow> wq_label \<Rightarrow> wq option" where
  "wq_step s (QNew ty answer) =
     (if wt_ok ty \<and> 0 < lalign (wt_layout ty) \<and> (\<forall>a. answer = Some a \<longrightarrow> apart ty a s)
      then (case new_uninit ty answer s of
              (Inl _, s') \<Rightarrow> Some s'
            | (Inr h, s') \<Rightarrow> Some (s'\<lparr>wq_unique := wq_unique s @ [h]\<rparr>))
      else None)"
| "wq_step s (QInit i ident) = (if i < length (wq_unique s) then Some (work_init (wq_unique s ! i) ident s) else None)"
| "wq_step s (QAssumeInit i) =
     (if i < length (wq_unique s) \<and> initialised s (wq_unique s ! i)
      then Some (s\<lparr>wq_unique := remove_at i (wq_unique s), wq_arcs := wq_arcs s @ [assume_init (wq_unique s ! i)]\<rparr>) else None)"
| "wq_step s (QClone i) =
     (if i < length (wq_arcs s)
      then Some ((clone_at (snd (wq_arcs s ! i)) s)\<lparr>wq_arcs := wq_arcs s @ [wq_arcs s ! i]\<rparr>) else None)"
| "wq_step s (QDrop i) =
     (if i < length (wq_arcs s)
      then Some ((drop_at (snd (wq_arcs s ! i)) s)\<lparr>wq_arcs := remove_at i (wq_arcs s)\<rparr>) else None)"
| "wq_step s (QIntoForeign i) =
     (if i < length (wq_arcs s)
      then (case wq_arcs s ! i of (ty, p) \<Rightarrow>
              Some (s\<lparr>wq_arcs := remove_at i (wq_arcs s), wq_foreign := wq_foreign s @ [(ty, arc_into_raw ty p)]\<rparr>)) else None)"
| "wq_step s (QFromForeign i) =
     (if i < length (wq_foreign s)
      then (case wq_foreign s ! i of (ty, d) \<Rightarrow>
              Some (s\<lparr>wq_foreign := remove_at i (wq_foreign s), wq_arcs := wq_arcs s @ [(ty, arc_from_raw ty d)]\<rparr>)) else None)"
| "wq_step s (QBorrow i) =
     (if i < length (wq_foreign s)
      then let b = foreign_borrow (wq_foreign s ! i) in Some ((clone_at (snd b) s)\<lparr>wq_arcs := wq_arcs s @ [b]\<rparr>) else None)"
| "wq_step s (QEnqueue i ident) =
     (if i < length (wq_arcs s) \<and> ident \<in> fst ` set (wt_works (fst (wq_arcs s ! i)))
      then (case enqueue (wq_arcs s ! i) ident (s\<lparr>wq_arcs := remove_at i (wq_arcs s)\<rparr>) of
              (Inr _, s') \<Rightarrow> Some s'
            | (Inl h, s') \<Rightarrow> Some (s'\<lparr>wq_arcs := wq_arcs s' @ [h]\<rparr>)) else None)"
| "wq_step s (QRun i) =
     (if i < length (wq_pending s)
      then let s' = s\<lparr>wq_pending := remove_at i (wq_pending s)\<rparr> in
           Some (case run_item (wq_pending s ! i) s of
             Some h \<Rightarrow> s'\<lparr>wq_arcs := wq_arcs s @ [h]\<rparr>
           | None \<Rightarrow> s'\<lparr>wq_fault := True\<rparr>)
      else None)"


section \<open>Owners\<close>

text \<open>Every pointer owns one reference of the allocation it leads back to.\<close>

definition shared :: "wq \<Rightarrow> handle list" where
  "shared s = wq_arcs s @ map foreign_borrow (wq_foreign s) @ map (\<lambda>w. the (run_item w s)) (wq_pending s)"

definition owners :: "wq \<Rightarrow> handle multiset" where
  "owners s = mset (wq_unique s) + mset (shared s)"

definition mem_ok :: "(nat \<rightharpoonup> work_ty \<times> 32 word) \<Rightarrow> (nat \<rightharpoonup> work_ty \<times> nat) \<Rightarrow> handle multiset \<Rightarrow> bool" where
  "mem_ok live func M \<longleftrightarrow>
     (\<forall>p ty c. live p = Some (ty, c) \<longrightarrow> wt_ok ty \<and> 0 < unat c \<and> unat c = count M (ty, p))
     \<and> (\<forall>h \<in># M. \<exists>c. live (snd h) = Some (fst h, c))
     \<and> (\<forall>p ty c q t d w. live p = Some (ty, c) \<and> live q = Some (t, d) \<and> inside ty p w \<and> inside t q w \<longrightarrow> p = q)
     \<and> (\<forall>w ty ident. func w = Some (ty, ident) \<longrightarrow> (\<exists>p c. live p = Some (ty, c) \<and> work_ptr ty ident p = Some w))"

definition wq_ok :: "wq \<Rightarrow> bool" where
  "wq_ok s \<longleftrightarrow> \<not> wq_fault s \<and> mem_ok (wq_live s) (wq_func s) (owners s)
     \<and> distinct (wq_pending s) \<and> (\<forall>w \<in> set (wq_pending s). wq_func s w \<noteq> None)
     \<and> (\<forall>h \<in> set (shared s). initialised s h)
     \<and> (\<forall>h \<in> set (wq_unique s). count (owners s) h = 1)"

subsection \<open>Memory\<close>

lemma work_ptr_inside: "wt_ok ty \<Longrightarrow> work_ptr ty ident p = Some w \<Longrightarrow> inside ty p w"
  by (auto simp: wt_ok_def work_ptr_def raw_get_work_def arc_into_raw_def inside_def dest!: map_of_SomeD)

lemma work_ptr_inj: "wt_ok ty \<Longrightarrow> work_ptr ty i p = Some w \<Longrightarrow> work_ptr ty j p = Some w \<Longrightarrow> i = j"
  by (auto simp: wt_ok_def work_ptr_def raw_get_work_def dest!: map_of_SomeD) (metis (mono_tags) fst_conv distinct_map inj_on_def snd_conv)

lemma run_item_work: "wq_func s w = Some (ty, ident) \<Longrightarrow> work_ptr ty ident p = Some w \<Longrightarrow> run_item w s = Some (ty, p)"
  by (auto simp: run_item_def work_ptr_def)

lemma mem_okD:
  assumes "mem_ok live func M"
  shows "live p = Some (ty, c) \<Longrightarrow> wt_ok ty \<and> 0 < unat c \<and> unat c = count M (ty, p)"
    "h \<in># M \<Longrightarrow> \<exists>c. live (snd h) = Some (fst h, c)"
    "live p = Some (ty, c) \<Longrightarrow> live q = Some (t, d) \<Longrightarrow> inside ty p w \<Longrightarrow> inside t q w \<Longrightarrow> p = q"
    "func w = Some (ty, ident) \<Longrightarrow> \<exists>p c. live p = Some (ty, c) \<and> work_ptr ty ident p = Some w"
  using assms unfolding mem_ok_def by blast+

text \<open>A live allocation is known under one type only.\<close>

lemma count_other: "mem_ok live func M \<Longrightarrow> live p = Some (ty, c) \<Longrightarrow> t \<noteq> ty \<Longrightarrow> count M (t, p) = 0"
  using mem_okD(2) [of live func M "(t, p)"] by (auto simp: count_eq_zero_iff)

lemma mem_new:
  assumes "mem_ok live func M" "wt_ok ty" "0 < lalign (wt_layout ty)" "live a = None"
    and "\<And>p t c w. live p = Some (t, c) \<Longrightarrow> \<not> (inside ty a w \<and> inside t p w)"
  shows "mem_ok (live(a \<mapsto> (ty, 1))) func (add_mset (ty, a) M)"
proof -
  have no: "count M (t, a) = 0" for t using mem_okD(2) [OF assms(1), of "(t, a)"] assms(4) by (auto simp: count_eq_zero_iff)
  let ?live = "live(a \<mapsto> (ty, 1))"
  have old: "live p = Some (t, c) \<and> p \<noteq> a \<or> p = a \<and> t = ty \<and> c = 1" if "?live p = Some (t, c)" for p t c
    using that by (auto split: if_splits)
  show ?thesis unfolding mem_ok_def
  proof (intro conjI allI impI ballI)
    fix h assume "h \<in># add_mset (ty, a) M"
    then show "\<exists>c. ?live (snd h) = Some (fst h, c)" using mem_okD(2) [OF assms(1), of h] assms(4) by auto
  next
    fix w t ident assume "func w = Some (t, ident)"
    then obtain p c where "live p = Some (t, c)" "work_ptr t ident p = Some w" using mem_okD(4) [OF assms(1)] by blast
    moreover from this have "p \<noteq> a" using assms(4) by auto
    ultimately show "\<exists>p c. ?live p = Some (t, c) \<and> work_ptr t ident p = Some w" by auto
  next
    fix p t c q u d w
    assume *: "?live p = Some (t, c) \<and> ?live q = Some (u, d) \<and> inside t p w \<and> inside u q w"
    from old [of p t c] old [of q u d] * show "p = q"
      using mem_okD(3) [OF assms(1), of p t c q u d w] assms(5) [of p t c w] assms(5) [of q u d w] by blast
  next
    fix p t c assume "?live p = Some (t, c)"
    then show "wt_ok t" "0 < unat c" "unat c = count (add_mset (ty, a) M) (t, p)"
      using old [of p t c] mem_okD(1) [OF assms(1), of p t c] assms(2) no [of ty] by auto
  qed
qed

lemma mem_count:
  assumes "mem_ok live func M" "live p = Some (ty, c)" "0 < unat c'" "unat c' = count M' (ty, p)"
    and "\<And>h. h \<noteq> (ty, p) \<Longrightarrow> count M' h = count M h"
  shows "mem_ok (live(p \<mapsto> (ty, c'))) func M'"
  unfolding mem_ok_def
proof (intro conjI allI impI ballI)
  fix h assume "h \<in># M'"
  then show "\<exists>c. (live(p \<mapsto> (ty, c'))) (snd h) = Some (fst h, c)"
  proof (cases "h = (ty, p)")
    case False
    then have "h \<in># M" using assms(5) \<open>h \<in># M'\<close> by (metis count_greater_zero_iff)
    then show ?thesis using mem_okD(2) [OF assms(1), of h] assms(2) by auto
  qed simp
next
  fix w t ident assume "func w = Some (t, ident)"
  from mem_okD(4) [OF assms(1) this] show "\<exists>q c. (live(p \<mapsto> (ty, c'))) q = Some (t, c) \<and> work_ptr t ident q = Some w"
    using assms(2) by (metis Pair_inject fun_upd_apply option.inject)
next
  fix q t d r u e w
  assume "(live(p \<mapsto> (ty, c'))) q = Some (t, d) \<and> (live(p \<mapsto> (ty, c'))) r = Some (u, e) \<and> inside t q w \<and> inside u r w"
  then have "\<exists>d'. live q = Some (t, d')" "\<exists>e'. live r = Some (u, e')" "inside t q w" "inside u r w"
    using assms(2) by (auto split: if_splits)
  then show "q = r" using mem_okD(3) [OF assms(1)] by blast
next
  fix q t d assume "(live(p \<mapsto> (ty, c'))) q = Some (t, d)"
  then have "wt_ok t \<and> 0 < unat d \<and> unat d = count M' (t, q)"
    using mem_okD(1) [OF assms(1), of q t d] mem_okD(1) [OF assms(1,2)] assms(3-5) by (auto split: if_splits)
  then show "wt_ok t" "0 < unat d" "unat d = count M' (t, q)" by blast+
qed

lemma mem_free:
  assumes "mem_ok live func M" "live p = Some (ty, 1)"
  shows "mem_ok (live(p := None)) (\<lambda>w. if inside ty p w then None else func w) (M - {#(ty, p)#})"
proof -
  have one: "count M (ty, p) = 1" using mem_okD(1) [OF assms] by simp
  show ?thesis unfolding mem_ok_def
  proof (intro conjI allI impI ballI)
    fix h assume h: "h \<in># M - {#(ty, p)#}"
    then have "h \<noteq> (ty, p)" using one by (auto simp: in_diff_count)
    moreover obtain c where "live (snd h) = Some (fst h, c)" using mem_okD(2) [OF assms(1)] in_diffD [OF h] by blast
    ultimately show "\<exists>c. (live(p := None)) (snd h) = Some (fst h, c)" using assms(2) by (cases h) auto
  next
    fix w t ident assume "(if inside ty p w then None else func w) = Some (t, ident)"
    then have w: "\<not> inside ty p w" "func w = Some (t, ident)" by (simp_all split: if_splits)
    obtain q c where q: "live q = Some (t, c)" "work_ptr t ident q = Some w" using mem_okD(4) [OF assms(1) w(2)] by blast
    then have "inside t q w" using work_ptr_inside mem_okD(1) [OF assms(1)] by blast
    then have "q \<noteq> p" using w(1) q(1) assms(2) by auto
    then show "\<exists>q c. (live(p := None)) q = Some (t, c) \<and> work_ptr t ident q = Some w" using q by auto
  next
    fix q t d r u e w
    assume "(live(p := None)) q = Some (t, d) \<and> (live(p := None)) r = Some (u, e) \<and> inside t q w \<and> inside u r w"
    then have "live q = Some (t, d)" "live r = Some (u, e)" "inside t q w" "inside u r w" by (auto split: if_splits)
    then show "q = r" using mem_okD(3) [OF assms(1)] by blast
  next
    fix q t d assume "(live(p := None)) q = Some (t, d)"
    then have "q \<noteq> p" "live q = Some (t, d)" by (auto split: if_splits)
    then show "wt_ok t" "0 < unat d" "unat d = count (M - {#(ty, p)#}) (t, q)"
      using mem_okD(1) [OF assms(1), of q t d] by auto
  qed
qed

lemma mem_init:
  assumes "mem_ok live func M" "live p = Some (ty, c)" "work_ptr ty ident p = Some w"
  shows "mem_ok live (func(w \<mapsto> (ty, ident))) M"
proof -
  have "\<forall>v t i. (func(w \<mapsto> (ty, ident))) v = Some (t, i) \<longrightarrow> (\<exists>p c. live p = Some (t, c) \<and> work_ptr t i p = Some v)"
    using mem_okD(4) [OF assms(1)] assms(2,3) by (auto split: if_splits)
  then show ?thesis using assms(1) unfolding mem_ok_def by blast
qed

subsection \<open>Pointers\<close>

lemma func_frame:
  assumes "wq_func s' = wq_func s"
  shows "run_item w s' = run_item w s" "initialised s' h = initialised s h"
  using assms by (simp_all add: run_item_def initialised_def)

lemma func_grows:
  assumes "\<And>w x. wq_func s w = Some x \<Longrightarrow> wq_func s' w = Some x"
  shows "wq_func s w \<noteq> None \<Longrightarrow> run_item w s' = run_item w s" "initialised s h \<Longrightarrow> initialised s' h"
  using assms by (auto simp: run_item_def initialised_def split: option.splits)

lemma foreign_borrow_into [simp]: "foreign_borrow (ty, arc_into_raw ty p) = (ty, p)"
  using arc_raw_inverse [of ty p] unfolding arc_from_raw_def by (simp add: foreign_borrow_def)

lemma foreign_borrow_from: "foreign_borrow (ty, d) = (ty, arc_from_raw ty d)"
  by (simp add: foreign_borrow_def arc_from_raw_def)

lemma wq_okD:
  assumes "wq_ok s"
  shows "\<not> wq_fault s" "mem_ok (wq_live s) (wq_func s) (owners s)" "distinct (wq_pending s)"
    "w \<in> set (wq_pending s) \<Longrightarrow> wq_func s w \<noteq> None" "h \<in> set (shared s) \<Longrightarrow> initialised s h"
    "h \<in> set (wq_unique s) \<Longrightarrow> count (owners s) h = 1"
  using assms unfolding wq_ok_def by blast+

text \<open>A pointer that changes its kind.\<close>

lemma wq_moved:
  assumes "wq_ok s" "wq_live s' = wq_live s" "wq_func s' = wq_func s" "\<not> wq_fault s'" "owners s' = owners s"
    and "distinct (wq_pending s')" "\<And>w. w \<in> set (wq_pending s') \<Longrightarrow> wq_func s w \<noteq> None"
    and "\<And>h. h \<in> set (shared s') \<Longrightarrow> initialised s h" "set (wq_unique s') \<subseteq> set (wq_unique s)"
  shows "wq_ok s'"
  using assms(2-9) wq_okD(2,6) [OF assms(1)] func_frame(2) [OF assms(3)] unfolding wq_ok_def by auto

lemma shared_not_unique:
  assumes "wq_ok s" "h \<in> set (shared s)"
  shows "h \<notin> set (wq_unique s)"
proof
  assume "h \<in> set (wq_unique s)"
  moreover from this have "count (mset (wq_unique s)) h \<ge> 1" by (simp add: Suc_le_eq count_greater_zero_iff)
  moreover have "count (mset (shared s)) h \<ge> 1" using assms(2) by (simp add: Suc_le_eq count_greater_zero_iff)
  ultimately show False using wq_okD(6) [OF assms(1), of h] unfolding owners_def count_union by linarith
qed

lemma live_of: "wq_ok s \<Longrightarrow> h \<in># owners s \<Longrightarrow> \<exists>c. wq_live s (snd h) = Some (fst h, c) \<and> unat c = count (owners s) h"
  using mem_okD(1,2) wq_okD(2) by (metis prod.collapse)

lemma pending_run:
  assumes "wq_ok s" "w \<in> set (wq_pending s)"
  shows "\<exists>h ident. run_item w s = Some h \<and> wq_func s w = Some (fst h, ident) \<and> work_ptr (fst h) ident (snd h) = Some w \<and> h \<in> set (shared s)"
proof -
  obtain ty ident where f: "wq_func s w = Some (ty, ident)" using wq_okD(4) [OF assms] by auto
  then obtain p where p: "work_ptr ty ident p = Some w" using mem_okD(4) [OF wq_okD(2) [OF assms(1)]] by blast
  have r: "run_item w s = Some (ty, p)" using run_item_work [OF f p] .
  then have "(ty, p) \<in> set (shared s)" using assms(2) by (force simp: shared_def)
  then show ?thesis using r f p by auto
qed

lemma wq_cloned:
  assumes "wq_ok s" "h \<in> set (shared s)" "size (owners s) < 2 ^ 32 - 1"
  shows "wq_ok ((clone_at (snd h) s)\<lparr>wq_arcs := wq_arcs s @ [h]\<rparr>)"
    "owners ((clone_at (snd h) s)\<lparr>wq_arcs := wq_arcs s @ [h]\<rparr>) = add_mset h (owners s)"
proof -
  have "h \<in># owners s" using assms(2) by (simp add: owners_def)
  then obtain c where c: "wq_live s (snd h) = Some (fst h, c)" "unat c = count (owners s) h" using live_of [OF assms(1)] by blast
  define s' where "s' = (clone_at (snd h) s)\<lparr>wq_arcs := wq_arcs s @ [h]\<rparr>"
  have s': "wq_live s' = (wq_live s)(snd h \<mapsto> (fst h, c + 1))" "wq_func s' = wq_func s" "wq_unique s' = wq_unique s"
      "wq_arcs s' = wq_arcs s @ [h]" "wq_foreign s' = wq_foreign s" "wq_pending s' = wq_pending s" "wq_fault s' = wq_fault s"
    using c(1) by (simp_all add: s'_def clone_at_def refcount_inc_def)
  have sh: "mset (shared s') = add_mset h (mset (shared s))"
    unfolding shared_def s' func_frame(1) [OF s'(2)] by simp
  then have ow: "owners s' = add_mset h (owners s)" by (simp add: owners_def s'(3))
  then show "owners ((clone_at (snd h) s)\<lparr>wq_arcs := wq_arcs s @ [h]\<rparr>) = add_mset h (owners s)" unfolding s'_def .
  have "count (owners s) h \<le> size (owners s)" by (rule count_le_size)
  then have "unat c + 1 < 2 ^ 32" using c(2) assms(3) by simp
  then have u: "unat (c + 1) = unat c + 1" by (simp add: unat_word_ariths)
  have "mem_ok (wq_live s') (wq_func s') (owners s')" unfolding s'(1,2) ow
    by (rule mem_count [OF wq_okD(2) [OF assms(1)] c(1)]) (use c(2) u in \<open>auto simp: prod_eq_iff\<close>)
  moreover have "set (shared s') = set (shared s)"
    using arg_cong [OF sh, of set_mset] assms(2) by auto
  moreover have "count (owners s') k = 1" if "k \<in> set (wq_unique s)" for k
    using that shared_not_unique [OF assms(1,2)] wq_okD(6) [OF assms(1) that] ow by auto
  ultimately have "wq_ok s'" using wq_okD(1,3-5) [OF assms(1)] func_frame(2) [OF s'(2)] unfolding wq_ok_def s' by blast
  then show "wq_ok ((clone_at (snd h) s)\<lparr>wq_arcs := wq_arcs s @ [h]\<rparr>)" unfolding s'_def .
qed

lemma shared_split:
  assumes "i < length (wq_arcs s)"
  shows "mset (shared s) = add_mset (wq_arcs s ! i) (mset (remove_at i (wq_arcs s) @ map foreign_borrow (wq_foreign s)
    @ map (\<lambda>w. the (run_item w s)) (wq_pending s)))"
  using mset_remove_at [OF assms] unfolding shared_def by simp

text \<open>Freeing an allocation does not reach into the others.\<close>

lemma freed_away:
  assumes "wq_ok s" "wq_live s (snd h) = Some (fst h, 1)" "k \<in># owners s" "k \<noteq> h" "work_ptr (fst k) ident (snd k) = Some w"
  shows "\<not> inside (fst h) (snd h) w"
proof
  assume "inside (fst h) (snd h) w"
  moreover obtain d where d: "wq_live s (snd k) = Some (fst k, d)" using live_of [OF assms(1,3)] by blast
  moreover note mem = wq_okD(2) [OF assms(1)]
  moreover have "inside (fst k) (snd k) w" using work_ptr_inside [OF _ assms(5)] mem_okD(1) [OF mem d] by blast
  ultimately have "snd k = snd h" using mem_okD(3) [OF mem d assms(2)] by blast
  then show False using d assms(2,4) by (simp add: prod_eq_iff)
qed

lemma freed_initialised:
  assumes "wq_ok s" "wq_live s (snd h) = Some (fst h, 1)" "k \<in># owners s" "k \<noteq> h" "initialised s k"
    and "wq_func s' = (\<lambda>w. if inside (fst h) (snd h) w then None else wq_func s w)"
  shows "initialised s' k"
proof -
  have "wt_ok (fst k)" using live_of [OF assms(1,3)] mem_okD(1) [OF wq_okD(2) [OF assms(1)]] by blast
  then have "\<not> inside (fst h) (snd h) (raw_get_work off (arc_into_raw (fst k) (snd k)))" if "(ident, off) \<in> set (wt_works (fst k))" for ident off
    using that by (intro freed_away [OF assms(1-4), of ident]) (simp add: work_ptr_def wt_ok_def)
  then show ?thesis using assms(5) unfolding initialised_def assms(6) by auto
qed

lemma freed_pending:
  assumes "wq_ok s" "wq_live s (snd h) = Some (fst h, 1)" "w \<in> set (wq_pending s)" "run_item w s \<noteq> Some h"
    and "wq_func s' = (\<lambda>w. if inside (fst h) (snd h) w then None else wq_func s w)"
  shows "run_item w s' = run_item w s \<and> wq_func s' w \<noteq> None"
proof -
  obtain k ident where k: "run_item w s = Some k" "wq_func s w = Some (fst k, ident)" "work_ptr (fst k) ident (snd k) = Some w" "k \<in> set (shared s)"
    using pending_run [OF assms(1,3)] by blast
  then have "\<not> inside (fst h) (snd h) w" using assms(4) by (intro freed_away [OF assms(1,2) _ _ k(3)]) (auto simp: owners_def)
  then show ?thesis using k(2) by (simp add: assms(5) run_item_def)
qed

text \<open>Dropping a pointer gives its reference back, and the memory with the last one.\<close>

lemma drop_memory:
  assumes "wq_ok s" "h \<in> set (shared s)"
  shows "mem_ok (wq_live (drop_at (snd h) s)) (wq_func (drop_at (snd h) s)) (owners s - {#h#})"
    "drop_at (snd h) s = s\<lparr>wq_live := wq_live (drop_at (snd h) s), wq_func := wq_func (drop_at (snd h) s)\<rparr>"
    "wq_func (drop_at (snd h) s) = wq_func s \<or> wq_live s (snd h) = Some (fst h, 1) \<and> count (owners s) h = 1
       \<and> wq_func (drop_at (snd h) s) = (\<lambda>w. if inside (fst h) (snd h) w then None else wq_func s w)"
proof -
  obtain c where c: "wq_live s (snd h) = Some (fst h, c)" "unat c = count (owners s) h"
    using live_of [OF assms(1), of h] assms(2) by (auto simp: owners_def)
  note mem = wq_okD(2) [OF assms(1)]
  show "drop_at (snd h) s = s\<lparr>wq_live := wq_live (drop_at (snd h) s), wq_func := wq_func (drop_at (snd h) s)\<rparr>"
    using c(1) by (cases "c = 1") (simp_all add: drop_at_def dec_and_test_def)
  show "wq_func (drop_at (snd h) s) = wq_func s \<or> wq_live s (snd h) = Some (fst h, 1) \<and> count (owners s) h = 1
       \<and> wq_func (drop_at (snd h) s) = (\<lambda>w. if inside (fst h) (snd h) w then None else wq_func s w)"
    using c by (cases "c = 1") (simp_all add: drop_at_def dec_and_test_def)
  show "mem_ok (wq_live (drop_at (snd h) s)) (wq_func (drop_at (snd h) s)) (owners s - {#h#})"
  proof (cases "c = 1")
    case True
    then show ?thesis using mem_free [OF mem, of "snd h" "fst h"] c(1) by (simp add: drop_at_def dec_and_test_def)
  next
    case False
    have "0 < unat c" using mem_okD(1) [OF mem c(1)] by blast
    moreover have "unat c \<noteq> 1" using False by (metis unat_1 word_unat_eq_iff)
    ultimately have "1 < unat c" by linarith
    moreover from this have "unat (c - 1) = unat c - 1" by (intro unat_minus_one) auto
    ultimately have u: "unat (c - 1) = unat c - 1" "1 < unat c" by blast+
    have "mem_ok ((wq_live s)(snd h \<mapsto> (fst h, c - 1))) (wq_func s) (owners s - {#h#})"
      by (rule mem_count [OF mem c(1)]) (use c(2) u in \<open>auto simp: prod_eq_iff\<close>)
    then show ?thesis using c(1) False by (simp add: drop_at_def dec_and_test_def)
  qed
qed

lemma wq_dropped:
  assumes "wq_ok s" "i < length (wq_arcs s)" "wq_arcs s ! i = h"
  shows "wq_ok ((drop_at (snd h) s)\<lparr>wq_arcs := remove_at i (wq_arcs s)\<rparr>)"
    "owners ((drop_at (snd h) s)\<lparr>wq_arcs := remove_at i (wq_arcs s)\<rparr>) = owners s - {#h#}"
proof -
  define s' where "s' = (drop_at (snd h) s)\<lparr>wq_arcs := remove_at i (wq_arcs s)\<rparr>"
  define rest where "rest = remove_at i (wq_arcs s) @ map foreign_borrow (wq_foreign s) @ map (\<lambda>w. the (run_item w s)) (wq_pending s)"
  have sh: "h \<in> set (shared s)" using assms(2,3) by (auto simp: shared_def)
  note mem = drop_memory [OF assms(1) sh]
  have fields: "wq_unique s' = wq_unique s" "wq_arcs s' = remove_at i (wq_arcs s)" "wq_foreign s' = wq_foreign s"
      "wq_pending s' = wq_pending s" "wq_fault s' = wq_fault s" "wq_live s' = wq_live (drop_at (snd h) s)"
      "wq_func s' = wq_func (drop_at (snd h) s)"
    unfolding s'_def by (subst mem(2), simp)+
  have own: "owners s = add_mset h (mset (wq_unique s) + mset rest)"
    using shared_split [OF assms(2)] assms(3) by (simp add: owners_def rest_def)
  have sub: "set rest \<subseteq> set (shared s)" using set_remove_at [of i "wq_arcs s"] unfolding rest_def shared_def by auto
  have kept: "(\<forall>k \<in> set rest. initialised s' k) \<and> (\<forall>w \<in> set (wq_pending s). run_item w s' = run_item w s \<and> wq_func s' w \<noteq> None)"
    using mem(3)
  proof
    assume "wq_func (drop_at (snd h) s) = wq_func s"
    then have "wq_func s' = wq_func s" using fields(7) by simp
    then show ?thesis using func_frame [of s' s] wq_okD(4,5) [OF assms(1)] sub by auto
  next
    assume last: "wq_live s (snd h) = Some (fst h, 1) \<and> count (owners s) h = 1
       \<and> wq_func (drop_at (snd h) s) = (\<lambda>w. if inside (fst h) (snd h) w then None else wq_func s w)"
    then have "count (mset rest) h = 0" using own by simp
    then have gone: "h \<notin> set rest" by (simp add: count_eq_zero_iff)
    have "run_item w s \<noteq> Some h" if "w \<in> set (wq_pending s)" for w using gone that by (force simp: rest_def)
    then have "\<forall>w \<in> set (wq_pending s). run_item w s' = run_item w s \<and> wq_func s' w \<noteq> None"
      using freed_pending [of s h _ s'] assms(1) last fields(7) by simp
    moreover have "initialised s' k" if "k \<in> set rest" for k
    proof (rule freed_initialised [of s h])
      show "k \<in># owners s" "k \<noteq> h" "initialised s k" using that own gone sub wq_okD(5) [OF assms(1), of k] by auto
    qed (use assms(1) last fields(7) in simp_all)
    ultimately show ?thesis by blast
  qed
  have "shared s' = rest" using kept by (simp add: shared_def rest_def fields cong: map_cong)
  moreover from this have ow: "owners s' = owners s - {#h#}" using own fields(1) by (simp add: owners_def)
  moreover have "count (owners s - {#h#}) k = 1" if "k \<in> set (wq_unique s)" for k
    using that shared_not_unique [OF assms(1) sh] wq_okD(6) [OF assms(1) that] by auto
  ultimately have "wq_ok s'" using kept mem(1) wq_okD(1,3) [OF assms(1)] unfolding wq_ok_def fields by auto
  then show "wq_ok ((drop_at (snd h) s)\<lparr>wq_arcs := remove_at i (wq_arcs s)\<rparr>)"
    "owners ((drop_at (snd h) s)\<lparr>wq_arcs := remove_at i (wq_arcs s)\<rparr>) = owners s - {#h#}" using ow unfolding s'_def by simp_all
qed

lemma wq_allocated:
  assumes "wq_ok s" "wt_ok ty" "0 < lalign (wt_layout ty)" "apart ty a s"
  shows "wq_ok (s\<lparr>wq_live := (wq_live s)(a \<mapsto> (ty, 1)), wq_unique := wq_unique s @ [(ty, a)]\<rparr>)"
    "owners (s\<lparr>wq_live := (wq_live s)(a \<mapsto> (ty, 1)), wq_unique := wq_unique s @ [(ty, a)]\<rparr>) = add_mset (ty, a) (owners s)"
proof -
  define s' where "s' = s\<lparr>wq_live := (wq_live s)(a \<mapsto> (ty, 1)), wq_unique := wq_unique s @ [(ty, a)]\<rparr>"
  have s': "wq_live s' = (wq_live s)(a \<mapsto> (ty, 1))" "wq_func s' = wq_func s" "wq_unique s' = wq_unique s @ [(ty, a)]"
      "wq_arcs s' = wq_arcs s" "wq_foreign s' = wq_foreign s" "wq_pending s' = wq_pending s" "wq_fault s' = wq_fault s"
    by (simp_all add: s'_def)
  have sh: "shared s' = shared s" unfolding shared_def s' func_frame(1) [OF s'(2)] ..
  then have ow: "owners s' = add_mset (ty, a) (owners s)" by (simp add: owners_def s'(3))
  have none: "wq_live s a = None" using assms(4) by (simp add: apart_def)
  have new: "k \<notin># owners s" if "snd k = a" for k using live_of [OF assms(1), of k] none that by auto
  have "mem_ok (wq_live s') (wq_func s') (owners s')" unfolding s'(1,2) ow
    by (rule mem_new [OF wq_okD(2) [OF assms(1)] assms(2,3) none]) (use assms(4) in \<open>auto simp: apart_def\<close>)
  moreover have "count (owners s') k = 1" if "k \<in> set (wq_unique s')" for k
  proof (cases "k = (ty, a)")
    case True
    then show ?thesis using new [of k] ow by (simp add: not_in_iff)
  next
    case False
    then show ?thesis using that wq_okD(6) [OF assms(1), of k] ow by (simp add: s'(3))
  qed
  ultimately have "wq_ok s'" using wq_okD(1,3-5) [OF assms(1)] func_frame(2) [OF s'(2)] unfolding wq_ok_def sh s'(2,6,7) by blast
  then show "wq_ok (s\<lparr>wq_live := (wq_live s)(a \<mapsto> (ty, 1)), wq_unique := wq_unique s @ [(ty, a)]\<rparr>)"
    "owners (s\<lparr>wq_live := (wq_live s)(a \<mapsto> (ty, 1)), wq_unique := wq_unique s @ [(ty, a)]\<rparr>) = add_mset (ty, a) (owners s)"
    using ow unfolding s'_def by simp_all
qed

text \<open>A work item is initialised for its own object, again or for the first time.\<close>

lemma wq_inited:
  assumes "wq_ok s" "h \<in> set (wq_unique s)"
  shows "wq_ok (work_init h ident s)" "owners (work_init h ident s) = owners s"
proof -
  define s' where "s' = work_init h ident s"
  note mem = wq_okD(2) [OF assms(1)]
  obtain c where c: "wq_live s (snd h) = Some (fst h, c)" using live_of [OF assms(1), of h] assms(2) by (auto simp: owners_def)
  have s': "wq_live s' = wq_live s" "wq_unique s' = wq_unique s" "wq_arcs s' = wq_arcs s" "wq_foreign s' = wq_foreign s"
      "wq_pending s' = wq_pending s" "wq_fault s' = wq_fault s"
    by (simp_all add: s'_def work_init_def split: option.splits)
  have grows: "wq_func s' v = Some x" if f: "wq_func s v = Some x" for v x
  proof (cases "work_ptr (fst h) ident (snd h) = Some v")
    case True
    obtain ty i where x: "x = (ty, i)" by (cases x)
    then obtain p d where p: "wq_live s p = Some (ty, d)" "work_ptr ty i p = Some v" using mem_okD(4) [OF mem] f by blast
    then have "inside ty p v" "inside (fst h) (snd h) v" using mem_okD(1) [OF mem] c work_ptr_inside True by blast+
    then have "p = snd h" using mem_okD(3) [OF mem p(1) c] by blast
    then have "x = (fst h, ident)" using p c x True work_ptr_inj mem_okD(1) [OF mem c] by auto
    then show ?thesis using True by (simp add: s'_def work_init_def)
  qed (use f in \<open>auto simp: s'_def work_init_def split: option.splits\<close>)
  have sh: "shared s' = shared s" unfolding shared_def s'
    using func_grows(1) [of s s', OF grows] wq_okD(4) [OF assms(1)] by (simp cong: map_cong)
  then have ow: "owners s' = owners s" by (simp add: owners_def s'(2))
  have "mem_ok (wq_live s') (wq_func s') (owners s')"
    using mem mem_init [OF mem c] unfolding ow s'(1) by (simp add: s'_def work_init_def split: option.splits)
  moreover have "wq_func s' w \<noteq> None" if "w \<in> set (wq_pending s)" for w using wq_okD(4) [OF assms(1) that] grows by auto
  ultimately have "wq_ok s'" using wq_okD(1,3,5,6) [OF assms(1)] func_grows(2) [of s s', OF grows] ow
    unfolding wq_ok_def sh s'(2,5,6) by (metis (no_types, lifting))
  then show "wq_ok (work_init h ident s)" "owners (work_init h ident s) = owners s" using ow unfolding s'_def by simp_all
qed

lemma run_item_fields [simp]:
  "run_item w (s\<lparr>wq_arcs := x\<rparr>) = run_item w s" "run_item w (s\<lparr>wq_unique := x\<rparr>) = run_item w s"
  "run_item w (s\<lparr>wq_foreign := x\<rparr>) = run_item w s" "run_item w (s\<lparr>wq_pending := p\<rparr>) = run_item w s"
  by (simp_all add: run_item_def)

text \<open>A queued item comes back as the \<open>Arc\<close> that was queued; one that is not taken comes back at once.\<close>

lemma enqueue_answers:
  assumes "initialised s h" "ident \<in> fst ` set (wt_works (fst h))" "wt_ok (fst h)"
  shows "\<exists>w. wq_func s w \<noteq> None \<and> run_item w s = Some h \<and> enqueue h ident s =
    (if w \<in> set (wq_pending s) then (Inl h, s) else (Inr (), s\<lparr>wq_pending := wq_pending s @ [w]\<rparr>))"
proof -
  obtain off where off: "map_of (wt_works (fst h)) ident = Some off" using assms(2) by (metis domIff dom_map_of_conv_image_fst not_Some_eq)
  let ?w = "raw_get_work off (arc_into_raw (fst h) (snd h))"
  have f: "wq_func s ?w = Some (fst h, ident)" using assms(1) map_of_SomeD [OF off] by (auto simp: initialised_def)
  moreover from this have "run_item ?w s = Some h" using off by (simp add: run_item_def)
  ultimately show ?thesis using off
    by (intro exI [of _ ?w]) (simp add: enqueue_def queue_work_on_def Let_def)
qed

text \<open>The same pointers in another order.\<close>

lemma wq_shuffled:
  assumes "wq_ok s" "wq_live s' = wq_live s" "wq_func s' = wq_func s" "wq_fault s' = wq_fault s" "wq_unique s' = wq_unique s"
    and "mset (shared s') = mset (shared s)" "distinct (wq_pending s')" "\<And>w. w \<in> set (wq_pending s') \<Longrightarrow> wq_func s w \<noteq> None"
  shows "wq_ok s' \<and> owners s' = owners s"
proof
  show ow: "owners s' = owners s" using assms(5,6) by (simp add: owners_def)
  show "wq_ok s'"
  proof (rule wq_moved [OF assms(1-3) _ ow assms(7,8)])
    show "initialised s h" if "h \<in> set (shared s')" for h using that assms(6) wq_okD(5) [OF assms(1)] by (metis set_mset_mset)
  qed (use wq_okD(1) [OF assms(1)] assms(4,5) in simp_all)
qed

lemma wq_enqueued:
  assumes "wq_ok s" "wq_step s (QEnqueue i ident) = Some s'"
  shows "wq_ok s' \<and> owners s' = owners s"
proof -
  let ?h = "wq_arcs s ! i" and ?s = "s\<lparr>wq_arcs := remove_at i (wq_arcs s)\<rparr>"
  have i: "i < length (wq_arcs s)" "ident \<in> fst ` set (wt_works (fst ?h))" using assms(2) by (simp_all split: if_splits)
  have h: "?h \<in> set (shared s)" using i(1) by (simp add: shared_def)
  then have "wt_ok (fst ?h)" using live_of [OF assms(1), of ?h] mem_okD(1) [OF wq_okD(2) [OF assms(1)]] by (auto simp: owners_def)
  moreover have "initialised ?s ?h" using wq_okD(5) [OF assms(1) h] by (simp add: initialised_def)
  ultimately obtain w where "wq_func ?s w \<noteq> None" "run_item w ?s = Some ?h" and e: "enqueue ?h ident ?s =
      (if w \<in> set (wq_pending ?s) then (Inl ?h, ?s) else (Inr (), ?s\<lparr>wq_pending := wq_pending ?s @ [w]\<rparr>))"
    using enqueue_answers [of ?s ?h ident] i(2) by blast
  then have w: "wq_func s w \<noteq> None" "run_item w s = Some ?h" by simp_all
  show ?thesis
  proof (cases "w \<in> set (wq_pending s)")
    case True
    then have s': "s' = s\<lparr>wq_arcs := remove_at i (wq_arcs s) @ [?h]\<rparr>" using assms(2) i e by simp
    show ?thesis using shared_split [OF i(1)] wq_okD(3,4) [OF assms(1)] unfolding s'
      by (intro wq_shuffled [OF assms(1)]) (simp_all add: shared_def)
  next
    case False
    then have s': "s' = s\<lparr>wq_arcs := remove_at i (wq_arcs s), wq_pending := wq_pending s @ [w]\<rparr>" using assms(2) i e by simp
    show ?thesis using shared_split [OF i(1)] wq_okD(3,4) [OF assms(1)] w False unfolding s'
      by (intro wq_shuffled [OF assms(1)]) (auto simp: shared_def)
  qed
qed

lemma wq_ran:
  assumes "wq_ok s" "wq_step s (QRun i) = Some s'"
  shows "wq_ok s' \<and> owners s' = owners s"
proof -
  let ?w = "wq_pending s ! i"
  have i: "i < length (wq_pending s)" using assms(2) by (simp split: if_splits)
  then obtain h where h: "run_item ?w s = Some h" using pending_run [OF assms(1)] by (metis nth_mem)
  have s': "s' = s\<lparr>wq_pending := remove_at i (wq_pending s), wq_arcs := wq_arcs s @ [h]\<rparr>"
    using assms(2) i h by (simp add: Let_def)
  have "mset (wq_pending s) = add_mset ?w (mset (remove_at i (wq_pending s)))" using mset_remove_at [OF i] by simp
  from arg_cong [OF this, of "image_mset (\<lambda>w. the (run_item w s))"]
  have sh: "mset (shared s') = mset (shared s)" using h unfolding s' by (simp add: shared_def)
  have "distinct (remove_at i (wq_pending s))"
    using wq_okD(3) [OF assms(1)] by (simp add: remove_at_def distinct_drop set_take_disj_set_drop_if_distinct)
  then show ?thesis using sh wq_okD(4) [OF assms(1)] set_remove_at [of i "wq_pending s"]
    by (intro wq_shuffled [OF assms(1)]) (auto simp: s')
qed

lemma wq_assumed:
  assumes "wq_ok s" "wq_step s (QAssumeInit i) = Some s'"
  shows "wq_ok s' \<and> owners s' = owners s"
proof
  have i: "i < length (wq_unique s)" "initialised s (wq_unique s ! i)"
    and s': "s' = s\<lparr>wq_unique := remove_at i (wq_unique s), wq_arcs := wq_arcs s @ [wq_unique s ! i]\<rparr>"
    using assms(2) by (simp_all split: if_splits)
  have sh: "mset (shared s') = add_mset (wq_unique s ! i) (mset (shared s))" unfolding s' by (simp add: shared_def)
  have "mset (wq_unique s) = add_mset (wq_unique s ! i) (mset (wq_unique s'))" using mset_remove_at [OF i(1)] by (simp add: s')
  then show ow: "owners s' = owners s" using sh by (simp add: owners_def)
  show "wq_ok s'"
  proof (rule wq_moved [OF assms(1) _ _ _ ow])
    show "initialised s h" if "h \<in> set (shared s')" for h
      using that arg_cong [OF sh, of set_mset] wq_okD(5) [OF assms(1), of h] i(2) by auto
  qed (use wq_okD(1,3,4) [OF assms(1)] set_remove_at [of i "wq_unique s"] s' in simp_all)
qed

lemma wq_foreigned:
  assumes "wq_ok s" "wq_step s (QIntoForeign i) = Some s'"
  shows "wq_ok s' \<and> owners s' = owners s"
proof -
  obtain ty p where h: "wq_arcs s ! i = (ty, p)" by force
  then have i: "i < length (wq_arcs s)"
    and s': "s' = s\<lparr>wq_arcs := remove_at i (wq_arcs s), wq_foreign := wq_foreign s @ [(ty, arc_into_raw ty p)]\<rparr>"
    using assms(2) by (simp_all split: if_splits)
  have "mset (shared s') = mset (shared s)" using shared_split [OF i] h unfolding s' by (simp add: shared_def)
  then show ?thesis using wq_okD(3,4) [OF assms(1)] by (intro wq_shuffled [OF assms(1)]) (simp_all add: s')
qed

lemma wq_reclaimed:
  assumes "wq_ok s" "wq_step s (QFromForeign i) = Some s'"
  shows "wq_ok s' \<and> owners s' = owners s"
proof -
  obtain ty d where h: "wq_foreign s ! i = (ty, d)" by force
  then have i: "i < length (wq_foreign s)"
    and s': "s' = s\<lparr>wq_foreign := remove_at i (wq_foreign s), wq_arcs := wq_arcs s @ [(ty, arc_from_raw ty d)]\<rparr>"
    using assms(2) by (simp_all split: if_splits)
  have "mset (wq_foreign s) = add_mset (ty, d) (mset (remove_at i (wq_foreign s)))" using mset_remove_at [OF i] h by simp
  from arg_cong [OF this, of "image_mset foreign_borrow"]
  have "mset (shared s') = mset (shared s)" unfolding s' by (simp add: shared_def foreign_borrow_from)
  then show ?thesis using wq_okD(3,4) [OF assms(1)] by (intro wq_shuffled [OF assms(1)]) (simp_all add: s')
qed

lemma wq_step_ok:
  assumes "wq_ok s" "size (owners s) < 2 ^ 32 - 1" "wq_step s l = Some s'"
  shows "wq_ok s' \<and> size (owners s') \<le> size (owners s) + 1"
proof (cases l)
  case (QNew ty answer)
  then have new: "wt_ok ty" "0 < lalign (wt_layout ty)" "\<And>a. answer = Some a \<Longrightarrow> apart ty a s"
    using assms(3) by (simp_all split: if_splits)
  show ?thesis
  proof (cases answer)
    case None
    then show ?thesis using assms(1,3) QNew by (simp add: new_uninit_def split: if_splits)
  next
    case (Some a)
    then have "s' = s\<lparr>wq_live := (wq_live s)(a \<mapsto> (ty, 1)), wq_unique := wq_unique s @ [(ty, a)]\<rparr>"
      using assms(3) QNew by (simp add: new_uninit_def split: if_splits)
    then show ?thesis using wq_allocated [OF assms(1) new(1,2) new(3) [OF Some]] by simp
  qed
next
  case (QInit i ident)
  then have "wq_unique s ! i \<in> set (wq_unique s)" "s' = work_init (wq_unique s ! i) ident s" using assms(3) by (simp_all split: if_splits)
  then show ?thesis using wq_inited [OF assms(1)] by simp
next
  case (QClone i)
  then have "wq_arcs s ! i \<in> set (shared s)" "s' = (clone_at (snd (wq_arcs s ! i)) s)\<lparr>wq_arcs := wq_arcs s @ [wq_arcs s ! i]\<rparr>"
    using assms(3) by (simp_all add: shared_def split: if_splits)
  then show ?thesis using wq_cloned [OF assms(1) _ assms(2)] by simp
next
  case (QDrop i)
  then have i: "i < length (wq_arcs s)" and s': "s' = (drop_at (snd (wq_arcs s ! i)) s)\<lparr>wq_arcs := remove_at i (wq_arcs s)\<rparr>"
    using assms(3) by (simp_all split: if_splits)
  then show ?thesis using wq_dropped [OF assms(1) i refl] size_mset_mono [OF diff_subset_eq_self, of "owners s" "{#wq_arcs s ! i#}"]
    by (simp add: le_SucI)
next
  case (QBorrow i)
  let ?b = "foreign_borrow (wq_foreign s ! i)"
  have "?b \<in> set (shared s)" "s' = (clone_at (snd ?b) s)\<lparr>wq_arcs := wq_arcs s @ [?b]\<rparr>"
    using assms(3) QBorrow by (simp_all add: shared_def Let_def split: if_splits)
  then show ?thesis using wq_cloned [OF assms(1) _ assms(2)] by simp
qed (use assms wq_assumed [OF assms(1)] wq_foreigned [OF assms(1)] wq_reclaimed [OF assms(1)] wq_enqueued [OF assms(1)] wq_ran [OF assms(1)]
  in fastforce)+

lemma wq_run_ok:
  "run wq_step wq_new ls = Some s \<Longrightarrow> length ls < 2 ^ 32 \<Longrightarrow> wq_ok s \<and> size (owners s) \<le> length ls"
proof (induction ls arbitrary: s rule: rev_induct)
  case Nil
  then show ?case by (auto simp: wq_new_def wq_ok_def owners_def shared_def mem_ok_def)
next
  case (snoc l ls)
  then obtain s1 where s1: "run wq_step wq_new ls = Some s1" "wq_step s1 l = Some s"
    by (auto simp: run_append split: Option.bind_splits)
  moreover from this snoc have "wq_ok s1" "size (owners s1) \<le> length ls" by simp_all
  ultimately show ?case using wq_step_ok [of s1 l s] snoc.prems(2) by simp
qed

text \<open>
  C11. Reference counts of \<open>Arc\<close> are exact, whatever becomes of the pointers: in
  any program of fewer than \<open>2 ^ 32\<close> steps that makes, clones, borrows and drops
  them, passes them as foreign pointers and queues them as work items, nothing is
  touched after it was freed, an allocation is live just as long as some
  pointer leads to it, its count is the number of them, and an object under
  construction has exactly one.  An \<open>Arc\<close> that is queued comes out of the queue as
  the same \<open>Arc\<close>; one whose item is queued already is handed back and
  nothing has changed.
\<close>

theorem arc_pointers_counted:
  assumes "run wq_step wq_new ls = Some s" "length ls < 2 ^ 32"
  shows "\<not> wq_fault s
    \<and> (wq_live s p = Some (ty, c) \<longrightarrow> 0 < unat c \<and> unat c = count (owners s) (ty, p))
    \<and> ((\<exists>c. wq_live s p = Some (ty, c)) \<longleftrightarrow> (ty, p) \<in># owners s)
    \<and> (h \<in> set (wq_unique s) \<longrightarrow> count (owners s) h = 1)
    \<and> (h \<in> set (wq_arcs s) \<and> ident \<in> fst ` set (wt_works (fst h)) \<longrightarrow>
        enqueue h ident s = (Inl h, s)
        \<or> (\<exists>w s'. enqueue h ident s = (Inr (), s') \<and> wq_pending s' = wq_pending s @ [w] \<and> run_item w s' = Some h))"
proof -
  have ok: "wq_ok s" using wq_run_ok [OF assms] by blast
  note mem = wq_okD(2) [OF ok]
  have 1: "wq_live s p = Some (ty, c) \<longrightarrow> 0 < unat c \<and> unat c = count (owners s) (ty, p)" for c
    using mem_okD(1) [OF mem] by blast
  then have 2: "(\<exists>c. wq_live s p = Some (ty, c)) \<longleftrightarrow> (ty, p) \<in># owners s"
    using mem_okD(2) [OF mem, of "(ty, p)"] by (metis count_greater_zero_iff fst_conv snd_conv)
  have 3: "enqueue h ident s = (Inl h, s)
      \<or> (\<exists>w s'. enqueue h ident s = (Inr (), s') \<and> wq_pending s' = wq_pending s @ [w] \<and> run_item w s' = Some h)"
    if h: "h \<in> set (wq_arcs s)" "ident \<in> fst ` set (wt_works (fst h))"
  proof -
    have sh: "h \<in> set (shared s)" using h(1) by (simp add: shared_def)
    then have "wt_ok (fst h)" using live_of [OF ok, of h] mem_okD(1) [OF mem] by (auto simp: owners_def)
    from enqueue_answers [OF wq_okD(5) [OF ok sh] h(2) this] show ?thesis by (auto split: if_splits)
  qed
  show ?thesis using wq_okD(1,6) [OF ok] 1 2 3 by blast
qed

definition demo_ty :: work_ty where
  "demo_ty = \<lparr>wt_layout = \<lparr>lsize = 40, lalign = 8\<rparr>, wt_works = [(0, 8)]\<rparr>"

theorem arc_pointers_counted_witness:
  "\<exists>s. run wq_step wq_new [QNew demo_ty (Some 64), QInit 0 0, QAssumeInit 0, QClone 0, QEnqueue 0 0, QDrop 0, QRun 0] = Some s
     \<and> \<not> wq_fault s \<and> wq_live s 64 = Some (demo_ty, 1) \<and> count (owners s) (demo_ty, 64) = 1"
proof -
  obtain s where s: "run wq_step wq_new [QNew demo_ty (Some 64), QInit 0 0, QAssumeInit 0, QClone 0, QEnqueue 0 0, QDrop 0, QRun 0] = Some s"
    "wq_live s 64 = Some (demo_ty, 1)"
    by (simp add: wq_new_def demo_ty_def wt_ok_def apart_def new_uninit_def work_init_def work_ptr_def initialised_def clone_at_def
        drop_at_def enqueue_def queue_work_on_def run_item_def refcount_inc_def dec_and_test_def raw_get_work_def arc_into_raw_def
        arc_from_raw_def arc_container_of_def work_container_of_def DATA_OFFSET_def layout_extend_def round_up_def REFCOUNT_def Let_def)
  from arc_pointers_counted [OF s(1), of 64 demo_ty 1] s show ?thesis by auto
qed

end
