(* ===== verification/Misc_Device.thy ===== *)
theory Misc_Device
  imports Arc_Queue
begin

text \<open>
  Objects in a \<open>void *\<close> of the kernel, \<open>rko-core/src/types/foreign_ownable.rs\<close>,
  and the character devices of \<open>rko-core/src/miscdevice.rs\<close> that keep one per
  open file.
\<close>

section \<open>Foreign ownership\<close>

text \<open>
  The promise of \<open>ForeignOwnable\<close>: the pointer made of an object gives the object
  back and, before that, lends it.  Boxes, strings and \<open>Arc\<close>s keep it.
\<close>

locale foreign_ownable =
  fixes valid :: "'h \<Rightarrow> 'p \<Rightarrow> bool" and view :: "'h \<Rightarrow> 'p \<Rightarrow> 'b"
    and into_foreign :: "'p \<Rightarrow> nat" and from_foreign :: "nat \<Rightarrow> 'h \<Rightarrow> 'p option" and borrow :: "nat \<Rightarrow> 'h \<Rightarrow> 'b option"
  assumes gives_back: "valid h p \<Longrightarrow> from_foreign (into_foreign p) h = Some p"
    and lends: "valid h p \<Longrightarrow> borrow (into_foreign p) h = Some (view h p)"

definition box_into_foreign :: "kbox \<Rightarrow> nat" where
  "box_into_foreign b = fst (box_into_raw b)"

definition box_from_foreign :: "nat \<Rightarrow> 'a kheap \<Rightarrow> kbox option" where
  "box_from_foreign ptr h = Some (box_from_raw (ptr, 1))"

definition box_borrow :: "nat \<Rightarrow> 'a kheap \<Rightarrow> 'a option" where
  "box_borrow ptr h = (case slots ptr 1 h of [Some v] \<Rightarrow> Some v | _ \<Rightarrow> None)"

definition arc_from_foreign :: "work_ty \<Rightarrow> nat \<Rightarrow> unit \<Rightarrow> nat option" where
  "arc_from_foreign ty ptr h = Some (arc_from_raw ty ptr)"

definition arc_borrow :: "work_ty \<Rightarrow> nat \<Rightarrow> unit \<Rightarrow> nat option" where
  "arc_borrow ty ptr h = Some (arc_container_of ty ptr)"

interpretation fbox: foreign_ownable "\<lambda>h b. \<exists>v. holds h b [v]" "\<lambda>h b. the (box_borrow (bx_ptr b) h)"
  box_into_foreign box_from_foreign box_borrow
proof
  fix h :: "'a kheap" and p assume "\<exists>v. holds h p [v]"
  then obtain v where v: "holds h p [v]" ..
  then have one: "bx_len p = 1" by (simp add: holds_def)
  then show "box_from_foreign (box_into_foreign p) h = Some p"
    by (simp add: box_from_foreign_def box_into_foreign_def box_into_raw_def box_from_raw_def)
  show "box_borrow (box_into_foreign p) h = Some (the (box_borrow (bx_ptr p) h))"
    using holds_slots [OF v] one by (simp add: box_borrow_def box_into_foreign_def box_into_raw_def)
qed

interpretation fstr: foreign_ownable "\<lambda>h s. cstring_ok h s (as_cstr s h)" "\<lambda>h s. as_cstr s h"
  cstring_into_foreign cstring_from_foreign cstr_from_ptr
  by unfold_locales (auto dest: cstring_ok_views)

interpretation farc: foreign_ownable "\<lambda>_ _. True" "\<lambda>_ inner. inner" "arc_into_raw ty" "arc_from_foreign ty" "arc_borrow ty"
  using arc_raw_inverse [of ty] by unfold_locales (simp_all add: arc_from_foreign_def arc_borrow_def arc_from_raw_def)


section \<open>Devices\<close>

text \<open>
  \<open>KBox\<close> of the \<open>struct miscdevice\<close>: registered it stays, else it is released
  again.  The answer of \<open>misc_register\<close> is an argument.
\<close>

definition register :: "elem_ty \<Rightarrow> nat option \<Rightarrow> int \<Rightarrow> 'd \<Rightarrow> 'd kheap \<Rightarrow> (error + kbox) \<times> 'd kheap" where
  "register ty answer ret dev h =
     (case box_new ty answer dev h of
        (Inl _, h') \<Rightarrow> (Inl ENOMEM, h')
      | (Inr inner, h') \<Rightarrow> if ret < 0 then (Inl (from_errno ret), box_drop inner h') else (Inr inner, h'))"

text \<open>
  The trampolines.  The file arrives with the address of the \<open>struct miscdevice\<close>
  in its private data; \<open>open\<close> reads it as a \<open>MiscDeviceRegistration\<close>, whose only
  field is a pointer, so that the device sees the first word of the structure.
\<close>

definition misc_open :: "(nat \<Rightarrow> nat) \<Rightarrow> ('p \<Rightarrow> nat) \<Rightarrow> (nat \<Rightarrow> error + 'p) \<Rightarrow> nat \<Rightarrow> int \<times> nat" where
  "misc_open load into_foreign T_open private_data =
     (case T_open (load private_data) of
        Inl err \<Rightarrow> (to_errno err, private_data)
      | Inr ptr \<Rightarrow> (0, into_foreign ptr))"

definition misc_release :: "(nat \<Rightarrow> 'h \<Rightarrow> 'p option) \<Rightarrow> nat \<Rightarrow> 'h \<Rightarrow> 'p option" where
  "misc_release from_foreign private_data h = from_foreign private_data h"

definition misc_uring_cmd :: "(nat \<Rightarrow> 'h \<Rightarrow> 'b option) \<Rightarrow> ('b \<Rightarrow> 'c \<Rightarrow> 32 word \<Rightarrow> 'r) \<Rightarrow> nat \<Rightarrow> 'h \<Rightarrow> 'c \<Rightarrow> 32 word \<Rightarrow> 'r option" where
  "misc_uring_cmd borrow T_uring_cmd private_data h cmd issue_flags =
     map_option (\<lambda>device. T_uring_cmd device cmd issue_flags) (borrow private_data h)"

record file_operations =
  fo_open :: bool
  fo_release :: bool
  fo_uring_cmd :: bool

definition VTABLE :: "bool \<Rightarrow> file_operations" where
  "VTABLE has_uring_cmd = \<lparr>fo_open = True, fo_release = True, fo_uring_cmd = has_uring_cmd\<rparr>"

text \<open>Open files of a device, with what \<open>T::open\<close> has made, \<open>T::uring_cmd\<close> was shown and \<open>T::release\<close> was given.\<close>

record ('p, 'b) misc =
  md_files :: "(nat \<times> nat) list"
  md_opened :: "(nat \<times> 'p) list"
  md_seen :: "(nat \<times> 'b) list"
  md_released :: "(nat \<times> 'p) list"
  md_fault :: bool

definition md_new :: "('p, 'b) misc" where
  "md_new = \<lparr>md_files = [], md_opened = [], md_seen = [], md_released = [], md_fault = False\<rparr>"

datatype 'p md_label = MOpen nat nat "error + 'p" | MCmd nat "32 word" | MRelease nat

text \<open>
  The kernel opens a file once, sends commands to open files only, and
  releases a file once, when it was opened.  What \<open>T::open\<close> answers is
  part of the label.
\<close>

fun md_step :: "('p \<Rightarrow> nat) \<Rightarrow> (nat \<Rightarrow> 'h \<Rightarrow> 'p option) \<Rightarrow> (nat \<Rightarrow> 'h \<Rightarrow> 'b option) \<Rightarrow> 'h
    \<Rightarrow> ('p, 'b) misc \<Rightarrow> 'p md_label \<Rightarrow> ('p, 'b) misc option" where
  "md_step into_foreign from_foreign borrow h s (MOpen fd dev answer) =
     (if fd \<in> fst ` set (md_opened s) then None
      else case answer of
        Inl _ \<Rightarrow> Some s
      | Inr p \<Rightarrow> (case misc_open id into_foreign (\<lambda>_. answer) dev of (_, priv) \<Rightarrow>
          Some (s\<lparr>md_files := (fd, priv) # md_files s, md_opened := (fd, p) # md_opened s\<rparr>)))"
| "md_step into_foreign from_foreign borrow h s (MCmd fd flags) =
     (case map_of (md_files s) fd of
        None \<Rightarrow> None
      | Some priv \<Rightarrow> Some (case misc_uring_cmd borrow (\<lambda>device _ _. device) priv h () flags of
          Some b \<Rightarrow> s\<lparr>md_seen := (fd, b) # md_seen s\<rparr> | None \<Rightarrow> s\<lparr>md_fault := True\<rparr>))"
| "md_step into_foreign from_foreign borrow h s (MRelease fd) =
     (case map_of (md_files s) fd of
        None \<Rightarrow> None
      | Some priv \<Rightarrow> Some (case misc_release from_foreign priv h of
          Some p \<Rightarrow> s\<lparr>md_files := filter (\<lambda>f. fst f \<noteq> fd) (md_files s), md_released := (fd, p) # md_released s\<rparr>
        | None \<Rightarrow> s\<lparr>md_fault := True\<rparr>))"

text \<open>
  Every file holds what was made for it, until it is released; commands see that
  and \<open>release\<close> gets it back.
\<close>

definition md_ok :: "('h \<Rightarrow> 'p \<Rightarrow> 'b) \<Rightarrow> ('p \<Rightarrow> nat) \<Rightarrow> 'h \<Rightarrow> ('p, 'b) misc \<Rightarrow> bool" where
  "md_ok view into_foreign h s \<longleftrightarrow> \<not> md_fault s \<and> distinct (map fst (md_opened s))
     \<and> (\<exists>held. md_files s = map (map_prod id into_foreign) held \<and> mset (md_opened s) = mset held + mset (md_released s))
     \<and> (\<forall>x \<in> set (md_seen s). \<exists>p. (fst x, p) \<in> set (md_opened s) \<and> snd x = view h p)"

lemma md_okI:
  assumes "\<not> md_fault s" "distinct (map fst (md_opened s))" "md_files s = map (map_prod id into_foreign) held"
    and "mset (md_opened s) = mset held + mset (md_released s)"
    and "\<And>fd b. (fd, b) \<in> set (md_seen s) \<Longrightarrow> \<exists>p. (fd, p) \<in> set (md_opened s) \<and> b = view h p"
  shows "md_ok view into_foreign h s"
  using assms by (fastforce simp: md_ok_def)

context foreign_ownable
begin

lemma held_lookup:
  assumes "md_files s = map (map_prod id into_foreign) held" "map_of (md_files s) fd = Some priv"
    and "mset (md_opened s) = mset held + mset (md_released s)" "\<And>x. x \<in> set (md_opened s) \<Longrightarrow> valid h (snd x)"
  shows "\<exists>p. (fd, p) \<in> set held \<and> (fd, p) \<in> set (md_opened s) \<and> priv = into_foreign p
    \<and> from_foreign priv h = Some p \<and> borrow priv h = Some (view h p)"
proof -
  obtain p where p: "(fd, p) \<in> set held" "priv = into_foreign p"
    using map_of_SomeD [OF assms(2)] assms(1) by auto
  moreover from this have "(fd, p) \<in> set (md_opened s)" using assms(3) by (metis Un_iff set_mset_mset set_mset_union)
  ultimately show ?thesis using assms(4) [of "(fd, p)"] gives_back lends by auto
qed

lemma released_one:
  assumes "distinct (map fst held)" "(fd, p) \<in> set held"
  shows "mset held = add_mset (fd, p) (mset (filter (\<lambda>f. fst f \<noteq> fd) held))"
proof -
  have "filter (\<lambda>f. fst f = fd) held = [(fd, p)]" using assms
  proof (induction held)
    case (Cons x held)
    show ?case
    proof (cases "fst x = fd")
      case True
      then have no: "\<forall>f \<in> set held. fst f \<noteq> fd" using Cons.prems(1) by (simp add: image_iff) metis
      then have "x = (fd, p)" using Cons.prems(2) by auto
      moreover have "filter (\<lambda>f. fst f = fd) held = []" using no by (simp add: filter_empty_conv)
      ultimately show ?thesis by simp
    qed (use Cons in auto)
  qed simp
  then have "mset held = {#(fd, p)#} + mset (filter (\<lambda>f. fst f \<noteq> fd) held)"
    using multiset_partition [of "mset held" "\<lambda>f. fst f = fd"] by (simp flip: mset_filter)
  then show ?thesis by simp
qed

lemma md_step_ok:
  assumes "md_ok view into_foreign h s" "\<And>x. x \<in> set (md_opened s) \<Longrightarrow> valid h (snd x)"
    and "md_step into_foreign from_foreign borrow h s l = Some s'"
  shows "md_ok view into_foreign h s'"
proof -
  obtain held where held: "md_files s = map (map_prod id into_foreign) held" "mset (md_opened s) = mset held + mset (md_released s)"
    and ok: "\<not> md_fault s" "distinct (map fst (md_opened s))"
    and seen: "\<And>fd b. (fd, b) \<in> set (md_seen s) \<Longrightarrow> \<exists>p. (fd, p) \<in> set (md_opened s) \<and> b = view h p"
    using assms(1) by (fastforce simp: md_ok_def)
  show ?thesis
  proof (cases l)
    case (MOpen fd dev answer)
    then have new: "fd \<notin> fst ` set (md_opened s)" using assms(3) by (simp split: if_splits)
    show ?thesis
    proof (cases answer)
      case (Inr p)
      then have s': "s' = s\<lparr>md_files := (fd, into_foreign p) # md_files s, md_opened := (fd, p) # md_opened s\<rparr>"
        using assms(3) MOpen new by (simp add: misc_open_def)
      show ?thesis by (rule md_okI [where held = "(fd, p) # held"]) (use ok held new in \<open>auto simp: s' dest: seen\<close>)
    qed (use assms(1,3) MOpen new in simp)
  next
    case (MCmd fd flags)
    then obtain priv where f: "map_of (md_files s) fd = Some priv" using assms(3) by (auto split: option.splits)
    from held_lookup [OF held(1) f held(2) assms(2)] obtain p where p: "(fd, p) \<in> set (md_opened s)" "borrow priv h = Some (view h p)" by blast
    then have s': "s' = s\<lparr>md_seen := (fd, view h p) # md_seen s\<rparr>" using assms(3) MCmd f by (simp add: misc_uring_cmd_def)
    show ?thesis by (rule md_okI [where held = held]) (use ok held p(1) in \<open>auto simp: s' dest: seen\<close>)
  next
    case (MRelease fd)
    then obtain priv where f: "map_of (md_files s) fd = Some priv" using assms(3) by (auto split: option.splits)
    from held_lookup [OF held(1) f held(2) assms(2)] obtain p where p: "(fd, p) \<in> set held" "from_foreign priv h = Some p" by blast
    then have s': "s' = s\<lparr>md_files := filter (\<lambda>f. fst f \<noteq> fd) (md_files s), md_released := (fd, p) # md_released s\<rparr>"
      using assms(3) MRelease f by (simp add: misc_release_def)
    have "mset (map fst (md_opened s)) = mset (map fst held @ map fst (md_released s))" using held(2) by simp
    then have "distinct (map fst held)" using ok(2) by (metis distinct_append mset_eq_imp_distinct_iff)
    define rest where "rest = filter (\<lambda>f. fst f \<noteq> fd) held"
    have "mset held = add_mset (fd, p) (mset rest)" using released_one [OF \<open>distinct (map fst held)\<close> p(1)] unfolding rest_def .
    moreover have "filter (\<lambda>f. fst f \<noteq> fd) (md_files s) = map (map_prod id into_foreign) rest"
      by (simp add: rest_def held(1) filter_map comp_def)
    ultimately show ?thesis using ok held(2) seen by (intro md_okI [where held = rest]) (simp_all add: s')
  qed
qed

lemma md_run_ok:
  assumes "run (md_step into_foreign from_foreign borrow h) md_new ls = Some s"
    and "\<And>fd dev p. MOpen fd dev (Inr p) \<in> set ls \<Longrightarrow> valid h p"
  shows "md_ok view into_foreign h s \<and> (\<forall>x \<in> set (md_opened s). \<exists>dev. MOpen (fst x) dev (Inr (snd x)) \<in> set ls)"
  using assms
proof (induction ls arbitrary: s rule: rev_induct)
  case Nil
  then show ?case by (auto simp: md_ok_def md_new_def)
next
  case (snoc l ls)
  then obtain s1 where s1: "run (md_step into_foreign from_foreign borrow h) md_new ls = Some s1"
      "md_step into_foreign from_foreign borrow h s1 l = Some s"
    by (auto simp: run_append split: Option.bind_splits)
  then have ih: "md_ok view into_foreign h s1" "\<forall>x \<in> set (md_opened s1). \<exists>dev. MOpen (fst x) dev (Inr (snd x)) \<in> set ls"
    using snoc by auto
  then have "md_ok view into_foreign h s" using md_step_ok [OF ih(1) _ s1(2)] snoc.prems(2) by fastforce
  moreover have "set (md_opened s) \<subseteq> set (md_opened s1) \<union> {x. \<exists>dev. l = MOpen (fst x) dev (Inr (snd x))}"
    using s1(2) by (cases l) (auto simp: misc_open_def split: if_splits sum.splits option.splits)
  ultimately show ?case using ih(2) by fastforce
qed

end

text \<open>A registration that fails leaves no memory behind.\<close>

lemma register_failed:
  assumes "0 < size_of ty" "fresh answer h" "register ty answer ret dev h = (Inl e, h')"
  shows "kh_live h' = kh_live h \<and> (kh_fault h' \<longrightarrow> kh_fault h)"
proof (cases answer)
  case None
  then show ?thesis using assms(1,3) by (auto simp: register_def box_new_def kmalloc_def)
next
  case (Some a)
  then have a: "ZERO_SIZE_PTR < a" "kh_live h a = None" using assms(2) by (simp_all add: fresh_def)
  then show ?thesis using assms(1,3) Some
    by (auto simp: register_def box_new_def kmalloc_def fill_slots_def box_drop_def kfree_def slots_def Let_def fun_upd_idem split: if_splits)
qed



end
