(* ===== verification/Echo.thy ===== *)
theory Echo
  imports Net_Socket
begin

text \<open>
  The echo servers \<open>samples/tcp_echo/tcp_echo.rs\<close> and
  \<open>samples/async_echo/async_echo.rs\<close>.  Both run the same loop over a
  connection, one over a blocking stream and one over an awaited one.
\<close>

definition BUF_SIZE :: nat where "BUF_SIZE = 4096"

text \<open>The stream of a blocking server: no future stands between it and the kernel.\<close>

definition blocking_stream :: "'k conn \<Rightarrow> 'k stream" where
  "blocking_stream c = \<lparr>st_read = tcp_read (c_api c) (c_sock c), st_write = tcp_write (c_api c) (c_sock c)\<rparr>"

text \<open>\<open>None\<close>: the fuel is used up before the connection ends.\<close>

fun echo_client :: "nat \<Rightarrow> 'k stream \<Rightarrow> 'k \<Rightarrow> unit option \<times> 'k" where
  "echo_client 0 st k = (None, k)"
| "echo_client (Suc fuel) st k =
     (case st_read st BUF_SIZE k of
        (Inl _, k1) \<Rightarrow> (Some (), k1)
      | (Inr bs, k1) \<Rightarrow>
          if bs = [] then (Some (), k1)
          else (case write_all st bs k1 of
                  (Inl _, k2) \<Rightarrow> (Some (), k2)
                | (Inr _, k2) \<Rightarrow> echo_client fuel st k2))"

text \<open>
  The loop of the blocking server, for the values of the stop flag that it
  reads, one before each connection.  The stream is dropped at the end of a
  connection.
\<close>

fun echo_run :: "nat \<Rightarrow> 'k sock_api \<Rightarrow> (nat \<Rightarrow> 'k stream) \<Rightarrow> nat \<Rightarrow> bool list \<Rightarrow> 'k \<Rightarrow> unit option \<times> 'k" where
  "echo_run fuel api streams listener [] k = (None, k)"
| "echo_run fuel api streams listener (stop # stops) k =
     (if stop then (Some (), k)
      else case listener_accept api listener True k of
        (Inl _, k1) \<Rightarrow> (Some (), k1)
      | (Inr sock, k1) \<Rightarrow>
          (case echo_client fuel (streams sock) k1 of (_, k2) \<Rightarrow>
             echo_run fuel api streams listener stops (socket_drop api (Some sock) k2)))"


section \<open>One connection\<close>

context byte_stream
begin

lemma echo_returns:
  assumes "granted c" "length (arrives c k) < fuel"
  shows "\<exists>k' m. echo_client fuel (st c) k = (Some (), k') \<and> sent c k' = sent c k @ take m (arrives c k)"
  using assms(2)
proof (induction fuel arbitrary: k)
  case (Suc fuel)
  obtain r k1 where r: "st_read (st c) BUF_SIZE k = (r, k1)" by fastforce
  show ?case
  proof (cases r)
    case (Inl e)
    then show ?thesis using r read_err [OF assms(1)] by (intro exI [of _ k1] exI [of _ 0]) simp
  next
    case (Inr bs)
    then have bs: "arrives c k = bs @ arrives c k1" "sent c k1 = sent c k" using r read_ok [OF assms(1)] by blast+
    show ?thesis
    proof (cases "bs = []")
      case True
      then show ?thesis using r Inr bs by (intro exI [of _ k1] exI [of _ 0]) simp
    next
      case False
      obtain w k2 where w: "write_all (st c) bs k1 = (w, k2)" by fastforce
      obtain m where m: "sent c k2 = sent c k1 @ take m bs" "w = Inr () \<Longrightarrow> sent c k2 = sent c k1 @ bs \<and> arrives c k2 = arrives c k1"
        using write_all_spec [OF assms(1) w] by blast
      show ?thesis
      proof (cases w)
        case (Inl e)
        then show ?thesis using r \<open>r = Inr bs\<close> False w m(1) bs
          by (intro exI [of _ k2] exI [of _ "min m (length bs)"]) (simp add: min_def)
      next
        case (Inr u)
        then have k2: "sent c k2 = sent c k @ bs" "arrives c k2 = arrives c k1" using m(2) bs(2) by simp_all
        then have "length (arrives c k2) < fuel" using Suc.prems bs(1) False by (cases bs) simp_all
        from Suc.IH [OF this] obtain k' m' where "echo_client fuel (st c) k2 = (Some (), k')" "sent c k' = sent c k2 @ take m' (arrives c k2)" by blast
        then show ?thesis using r \<open>r = Inr bs\<close> False w Inr k2 bs by (intro exI [of _ k'] exI [of _ "length bs + m'"]) simp
      qed
    qed
  qed
qed simp

lemma echo_returns_all:
  assumes "granted c" "length (arrives c k) < fuel"
    and "\<And>n k. \<exists>bs k'. st_read (st c) n k = (Inr bs, k')" "\<And>bs k. \<exists>k'. write_all (st c) bs k = (Inr (), k')"
  shows "\<exists>k'. echo_client fuel (st c) k = (Some (), k') \<and> sent c k' = sent c k @ arrives c k"
  using assms(2)
proof (induction fuel arbitrary: k)
  case (Suc fuel)
  obtain bs k1 where r: "st_read (st c) BUF_SIZE k = (Inr bs, k1)" using assms(3) by blast
  then have bs: "arrives c k = bs @ arrives c k1" "sent c k1 = sent c k" "bs = [] \<Longrightarrow> arrives c k = []"
    using read_ok [OF assms(1) r] by (auto simp: BUF_SIZE_def)
  obtain k2 where w: "write_all (st c) bs k1 = (Inr (), k2)" using assms(4) by blast
  then have k2: "sent c k2 = sent c k @ bs" "arrives c k2 = arrives c k1" using write_all_spec [OF assms(1) w] bs(2) by auto
  show ?case
  proof (cases "bs = []")
    case False
    then have "length (arrives c k2) < fuel" using Suc.prems bs(1) k2(2) by (cases bs) simp_all
    then show ?thesis using Suc.IH [of k2] r w False k2 bs(1) by auto
  qed (use r bs in simp)
qed simp

end

interpretation blocking: byte_stream conn_ok blocking_stream c_sent c_arrives
proof unfold_locales
  fix c :: "'k conn" and n k bs k' e buf
  assume "conn_ok c"
  then have ok: "sock_ok (c_api c) (c_sock c) (c_sent c) (c_arrives c)" by (simp add: conn_ok_def)
  show "length bs \<le> n \<and> c_arrives c k = bs @ c_arrives c k'
      \<and> c_sent c k' = c_sent c k \<and> (bs = [] \<longrightarrow> n = 0 \<or> c_arrives c k = [])" if "st_read (blocking_stream c) n k = (Inr bs, k')"
  proof -
    have "tcp_read (c_api c) (c_sock c) n k = (Inr bs, k')" using that by (simp add: blocking_stream_def)
    then obtain ret where "kernel_recvmsg (c_api c) (c_sock c) n k = (ret, bs, k')" "0 \<le> ret"
      by (rule tcp_read_cases) simp_all
    then show ?thesis using sock_ok_recv(2,3) [OF ok] by blast
  qed
  show "st_read (blocking_stream c) n k = (Inl e, k') \<Longrightarrow> c_sent c k' = c_sent c k"
    using sock_ok_recv(2) [OF ok] by (auto simp: blocking_stream_def elim!: tcp_read_cases)
  show "st_write (blocking_stream c) buf k = (Inr n, k') \<Longrightarrow>
      n \<le> length buf \<and> c_sent c k' = c_sent c k @ take n buf \<and> c_arrives c k' = c_arrives c k"
    using sock_ok_send(3) [OF ok] by (auto simp: blocking_stream_def elim!: tcp_write_cases)
  show "st_write (blocking_stream c) buf k = (Inl e, k') \<Longrightarrow> c_sent c k' = c_sent c k"
    using sock_ok_send(2) [OF ok] by (auto simp: blocking_stream_def elim!: tcp_write_cases)
qed


section \<open>The server\<close>

text \<open>Receiving and sending do not open or close sockets.\<close>

definition keeps_live :: "('k \<Rightarrow> nat set) \<Rightarrow> 'k stream \<Rightarrow> bool" where
  "keeps_live live st \<longleftrightarrow> (\<forall>n k. live (snd (st_read st n k)) = live k) \<and> (\<forall>buf k. live (snd (st_write st buf k)) = live k)"

lemma write_from_live: "keeps_live live st \<Longrightarrow> live (snd (write_from st buf off k)) = live k"
proof (induction st buf off k rule: write_from.induct)
  case (1 st buf off k)
  obtain r k1 where w: "st_write st (drop off buf) k = (r, k1)" by fastforce
  moreover have "live k1 = live k" using "1.prems" w unfolding keeps_live_def by (metis snd_conv)
  ultimately show ?case using 1 by (subst write_from.simps) (auto split: sum.splits)
qed

lemma echo_client_live: "keeps_live live st \<Longrightarrow> live (snd (echo_client fuel st k)) = live k"
proof (induction fuel arbitrary: k)
  case (Suc fuel)
  obtain r k1 where r: "st_read st BUF_SIZE k = (r, k1)" by fastforce
  have k1: "live k1 = live k" using Suc.prems r unfolding keeps_live_def by (metis snd_conv)
  show ?case
  proof (cases r)
    case (Inr bs)
    obtain w k2 where w: "write_all st bs k1 = (w, k2)" by fastforce
    have "live k2 = live k1" using write_from_live [OF Suc.prems, of bs 0 k1] w by (simp add: write_all_def)
    then show ?thesis using r k1 Inr w Suc by (cases w) simp_all
  qed (use r k1 in simp)
qed simp

lemma echo_run_live:
  assumes "tracks api live" "\<And>sock. keeps_live live (streams sock)"
  shows "live (snd (echo_run fuel api streams listener stops k)) = live k"
proof (induction stops arbitrary: k)
  case (Cons stop stops)
  obtain r k1 where a: "listener_accept api listener True k = (r, k1)" by fastforce
  then have own: "owns_on_success live k (r, k1)" using listener_accept_owns [OF assms(1), of k listener True] by simp
  show ?case
  proof (cases "stop \<or> (\<exists>e. r = Inl e)")
    case False
    then obtain sock where sock: "r = Inr sock" by (cases r) auto
    obtain u k2 where e: "echo_client fuel (streams sock) k1 = (u, k2)" by fastforce
    then have "live k2 = live k1" using echo_client_live [OF assms(2), of fuel sock k1] by simp
    then have "live (socket_drop api (Some sock) k2) = live k"
      using own sock tracks_rules(5) [OF assms(1)] by (simp add: owns_on_success_def socket_drop_def)
    then show ?thesis using Cons False a sock e by simp
  qed (use a own in \<open>auto simp: owns_on_success_def\<close>)
qed simp

text \<open>
  C33. The echo servers answer with what they receive.  On a connection with
  either kind of stream the loop ends, after at most one round for each byte that
  arrives and one more, and has sent back a prefix of what arrived: all of it
  when no read or write fails.  The blocking server drops every connection it has
  accepted, so that it leaves the sockets that are live as it found them.
\<close>

theorem echo_faithful:
  assumes "conn_ok c" "length (c_arrives c k) < fuel" "st = c_stream c \<or> st = blocking_stream c"
    and "tracks api live" "\<And>sock. keeps_live live (streams sock)"
  shows "(\<exists>k' m. echo_client fuel st k = (Some (), k') \<and> c_sent c k' = c_sent c k @ take m (c_arrives c k))
    \<and> ((\<forall>n k. \<exists>bs k'. st_read st n k = (Inr bs, k')) \<and> (\<forall>bs k. \<exists>k'. write_all st bs k = (Inr (), k')) \<longrightarrow>
        (\<exists>k'. echo_client fuel st k = (Some (), k') \<and> c_sent c k' = c_sent c k @ c_arrives c k))
    \<and> live (snd (echo_run fuel api streams listener stops k)) = live k"
proof (intro conjI impI)
  show "\<exists>k' m. echo_client fuel st k = (Some (), k') \<and> c_sent c k' = c_sent c k @ take m (c_arrives c k)"
    using assms(3) tcp.echo_returns [OF assms(1,2)] blocking.echo_returns [OF assms(1,2)] by blast
  show "\<exists>k'. echo_client fuel st k = (Some (), k') \<and> c_sent c k' = c_sent c k @ c_arrives c k"
    if "(\<forall>n k. \<exists>bs k'. st_read st n k = (Inr bs, k')) \<and> (\<forall>bs k. \<exists>k'. write_all st bs k = (Inr (), k'))"
    using assms(3) that tcp.echo_returns_all [OF assms(1,2)] blocking.echo_returns_all [OF assms(1,2)] by metis
  show "live (snd (echo_run fuel api streams listener stops k)) = live k"
    using echo_run_live [OF assms(4), of streams] assms(5) by blast
qed

text \<open>A kernel of one connection, which no socket function opens or closes.\<close>

definition idle_api :: "demo_net sock_api" where
  "idle_api = demo_api\<lparr>sock_create_kern := (\<lambda>_ k. (- 12, 0, k)), kernel_accept := (\<lambda>_ _ k. (- 11, 0, k))\<rparr>"

lemma idle_tracks: "tracks idle_api (\<lambda>_. {})"
  by (simp add: tracks_def idle_api_def demo_api_def)

lemma demo_write: "\<exists>k'. write_from (blocking_stream demo_conn) buf off k = (Inr (), k')"
proof (induction "blocking_stream demo_conn" buf off k rule: write_from.induct)
  case (1 buf off k)
  then show ?case
    by (cases "off < length buf")
      (auto simp: write_from.simps [of _ buf off k] blocking_stream_def demo_conn_def demo_api_def tcp_write_def demo_send_def check_err_def)
qed

theorem echo_faithful_witness:
  "\<exists>k'. echo_client 6 (blocking_stream demo_conn) \<lparr>d_in = [''ab'', ''cde''], d_out = ''>''\<rparr> = (Some (), k') \<and> d_out k' = ''>abcde''"
proof -
  let ?k = "\<lparr>d_in = [''ab'', ''cde''], d_out = ''>''\<rparr>" and ?st = "blocking_stream demo_conn"
  have "\<exists>bs k'. st_read ?st n k = (Inr bs, k')" for n k
    by (auto simp: blocking_stream_def demo_conn_def demo_api_def tcp_read_def demo_recv_def check_err_def split: list.splits)
  moreover have "\<exists>k'. write_all ?st bs k = (Inr (), k')" for bs k using demo_write by (simp add: write_all_def)
  moreover have "keeps_live (\<lambda>_. {}) ?st" by (simp add: keeps_live_def)
  ultimately show ?thesis
    using echo_faithful [OF demo_conn_ok _ _ idle_tracks, where k = ?k and fuel = 6 and st = ?st and streams = "\<lambda>_. ?st"]
    by (simp add: demo_conn_def)
qed

end
