(* ===== verification/Kernel_Log.thy ===== *)
theory Kernel_Log
  imports User_Copy
begin

text \<open>
  Log messages, \<open>rko-core/src/printk.rs\<close>: the formatter that the kernel calls
  for \<open>%pA\<close> with the rest of its buffer, and the format strings of the levels.
  A formatted value is the list of pieces that \<open>core::fmt\<close> hands over.
\<close>

record raw_formatter =
  rf_pos :: nat
  rf_end :: nat

definition write_str :: "byte list \<Rightarrow> raw_formatter \<times> umem \<Rightarrow> raw_formatter \<times> umem" where
  "write_str s st =
     (let (w, mem) = st; len = length s; avail = rf_end w - rf_pos w; to_write = (if len < avail then len else avail)
      in if to_write > 0
         then (w\<lparr>rf_pos := (rf_pos w + to_write) mod 2 ^ 64\<rparr>, poke (rf_pos w) (take to_write s) mem)
         else (w, mem))"

definition rust_fmt_argument :: "nat \<Rightarrow> nat \<Rightarrow> byte list list \<Rightarrow> umem \<Rightarrow> nat \<times> umem" where
  "rust_fmt_argument buf lim pieces mem =
     (case fold write_str pieces (\<lparr>rf_pos = buf, rf_end = lim\<rparr>, mem) of (w, mem') \<Rightarrow> (rf_pos w, mem'))"

text \<open>The format string of a level: the bytes of the level, and a prefix unless a line goes on.\<close>

definition generate :: "bool \<Rightarrow> byte list \<Rightarrow> byte list option" where
  "generate is_cont prefix =
     (if prefix ! 0 = 1 \<and> (if is_cont then prefix ! 1 = of_char CHR ''c'' else of_char CHR ''0'' \<le> prefix ! 1 \<and> prefix ! 1 \<le> of_char CHR ''7'')
         \<and> prefix ! 2 = 0
      then Some (prefix ! 0 # prefix ! 1 #
        (if is_cont then map of_char ''%pA'' @ [0, 0, 0, 0, 0] else map of_char ''%s: %pA'' @ [0]))
      else None)"

definition kern_level :: "nat option \<Rightarrow> byte list" where
  "kern_level level = (case level of Some n \<Rightarrow> [1, of_char CHR ''0'' + of_nat n, 0] | None \<Rightarrow> [1, of_char CHR ''c'', 0])"

text \<open>The pieces one after the other, cut at the end of the buffer.\<close>

lemma poke_nil: "poke a [] mem = mem"
  by (rule ext) (auto simp: poke_def)

lemma peek_append: "peek a (m + n) mem = peek a m mem @ peek (a + m) n mem"
  by (rule nth_equalityI) (auto simp: peek_def nth_append)

lemma fold_write_str:
  assumes "lim < 2 ^ 64" "pos \<le> lim"
  shows "\<exists>mem'. fold write_str pieces (\<lparr>rf_pos = pos, rf_end = lim\<rparr>, mem)
      = (\<lparr>rf_pos = pos + min (length (concat pieces)) (lim - pos), rf_end = lim\<rparr>, mem')
    \<and> peek pos (min (length (concat pieces)) (lim - pos)) mem' = take (lim - pos) (concat pieces)
    \<and> (\<forall>x. x < pos \<or> pos + min (length (concat pieces)) (lim - pos) \<le> x \<longrightarrow> mem' x = mem x)"
  using assms(2)
proof (induction pieces arbitrary: pos mem)
  case Nil
  then show ?case by (simp add: peek_def)
next
  case (Cons s pieces)
  let ?n = "min (length s) (lim - pos)" and ?mem = "poke pos (take (lim - pos) s) mem"
  have one: "write_str s (\<lparr>rf_pos = pos, rf_end = lim\<rparr>, mem) = (\<lparr>rf_pos = pos + ?n, rf_end = lim\<rparr>, ?mem)"
  proof (cases "length s < lim - pos")
    case True
    then have "pos + length s < 2 ^ 64" using assms(1) by linarith
    then show ?thesis using True by (cases "s = []") (simp_all add: write_str_def poke_nil)
  next
    case False
    then show ?thesis using Cons.prems assms(1) by (cases "lim = pos") (simp_all add: write_str_def poke_nil)
  qed
  have "pos + ?n \<le> lim" using Cons.prems by simp
  from Cons.IH [OF this, of ?mem] obtain mem' where m: "fold write_str pieces (\<lparr>rf_pos = pos + ?n, rf_end = lim\<rparr>, ?mem)
        = (\<lparr>rf_pos = pos + ?n + min (length (concat pieces)) (lim - (pos + ?n)), rf_end = lim\<rparr>, mem')"
      "peek (pos + ?n) (min (length (concat pieces)) (lim - (pos + ?n))) mem' = take (lim - (pos + ?n)) (concat pieces)"
      "\<forall>x. x < pos + ?n \<or> pos + ?n + min (length (concat pieces)) (lim - (pos + ?n)) \<le> x \<longrightarrow> mem' x = ?mem x"
    by blast
  have len: "min (length (concat (s # pieces))) (lim - pos) = ?n + min (length (concat pieces)) (lim - (pos + ?n))"
    unfolding concat.simps length_append by linarith
  have rest: "lim - (pos + ?n) = lim - pos - length s" by linarith
  have "peek pos ?n mem' = peek pos ?n ?mem" using m(3) by (intro peek_cong) auto
  also have "\<dots> = take (lim - pos) s" using peek_poke [of pos "take (lim - pos) s" mem] by simp
  finally have "peek pos (?n + min (length (concat pieces)) (lim - (pos + ?n))) mem' = take (lim - pos) (concat (s # pieces))"
    using m(2) unfolding peek_append concat.simps take_append rest by simp
  moreover have "mem' x = mem x" if "x < pos \<or> pos + (?n + min (length (concat pieces)) (lim - (pos + ?n))) \<le> x" for x
  proof -
    have "mem' x = ?mem x" using m(3) that by auto
    also have "\<dots> = mem x" using that by (auto simp: poke_def)
    finally show ?thesis .
  qed
  ultimately show ?case unfolding len using one m(1) by (intro exI [of _ mem']) (simp add: add.assoc)
qed

text \<open>
  C38. Formatting a message never leaves the buffer of the kernel: the text lands
  there, cut off at its end, no other byte changes, and the new position is
  behind the text; a buffer that is already full is left alone.  Every level has a
  format string of ten bytes that starts with the level, ends with NUL and asks
  for the prefix and the message, or for the message only.
\<close>

theorem log_message_confined:
  assumes "lim < 2 ^ 64" "level < 8"
  shows "(buf \<le> lim \<longrightarrow> (\<exists>mem'. rust_fmt_argument buf lim pieces mem = (buf + min (length (concat pieces)) (lim - buf), mem')
        \<and> peek buf (min (length (concat pieces)) (lim - buf)) mem' = take (lim - buf) (concat pieces)
        \<and> (\<forall>x. x < buf \<or> buf + min (length (concat pieces)) (lim - buf) \<le> x \<longrightarrow> mem' x = mem x)))
    \<and> (lim \<le> buf \<longrightarrow> rust_fmt_argument buf lim pieces mem = (buf, mem))
    \<and> generate False (kern_level (Some level)) = Some (take 2 (kern_level (Some level)) @ map of_char ''%s: %pA'' @ [0])
    \<and> generate True (kern_level None) = Some (take 2 (kern_level None) @ map of_char ''%pA'' @ replicate 5 0)"
proof (intro conjI impI)
  show "\<exists>mem'. rust_fmt_argument buf lim pieces mem = (buf + min (length (concat pieces)) (lim - buf), mem')
        \<and> peek buf (min (length (concat pieces)) (lim - buf)) mem' = take (lim - buf) (concat pieces)
        \<and> (\<forall>x. x < buf \<or> buf + min (length (concat pieces)) (lim - buf) \<le> x \<longrightarrow> mem' x = mem x)" if "buf \<le> lim"
    using fold_write_str [OF assms(1) that, of pieces mem] by (auto simp: rust_fmt_argument_def)
  have "fold write_str pieces (\<lparr>rf_pos = buf, rf_end = lim\<rparr>, mem) = (\<lparr>rf_pos = buf, rf_end = lim\<rparr>, mem)" if "lim \<le> buf"
    by (induction pieces) (use that in \<open>simp_all add: write_str_def\<close>)
  then show "rust_fmt_argument buf lim pieces mem = (buf, mem)" if "lim \<le> buf" using that by (simp add: rust_fmt_argument_def)
  have "level \<in> {0, 1, 2, 3, 4, 5, 6, 7}" using assms(2) by auto
  then show "generate False (kern_level (Some level)) = Some (take 2 (kern_level (Some level)) @ map of_char ''%s: %pA'' @ [0])"
    by (auto simp: generate_def kern_level_def)
  show "generate True (kern_level None) = Some (take 2 (kern_level None) @ map of_char ''%pA'' @ replicate 5 0)"
    by (simp add: generate_def kern_level_def numeral_eq_Suc)
qed

theorem log_message_confined_witness:
  "\<exists>mem'. rust_fmt_argument 100 103 [[65, 66], [67, 68]] (\<lambda>_. 0) = (103, mem') \<and> peek 100 3 mem' = [65, 66, 67] \<and> mem' 103 = 0"
  using log_message_confined [of 103 6 100 "[[65, 66], [67, 68]]" "\<lambda>_. 0"] by (auto simp: numeral_3_eq_3)

end
