(* ===== verification/Spec2Isabelle.thy ===== *)
theory Spec2Isabelle
  imports Kernel_Vec Tar_Fs Ext2_Fs Vfs_Vtable Http_Server Http_Uring Async_Executor Socket_Future Oneshot Unsafe_List Rofs_Test Sync_Channel Misc_Device Echo Kernel_Log
begin

text \<open>
  A verification development for rko, a framework for writing Linux kernel
  modules in Rust.  The repository has three layers and so has the development:
  \<open>rko-core\<close> wraps the kernel (memory, synchronisation, work queues, futures,
  sockets, the VFS); \<open>rko-util\<close> builds an HTTP library and an io_uring interface
  to it on top; \<open>samples\<close> holds file systems and servers that use both.  Paths
  below are under \<open>src/\<close>.

  \<^bold>\<open>Conventions.\<close>  The target is x86_64 in a release build: unchecked integer
  arithmetic wraps at its width, and what overflows is a \<open>word\<close> or is written with
  its modulus.  A method that takes \<open>&mut self\<close> and can fail is a function from the
  state to a result \<open>error + 'a\<close> and a new state.  A Rust panic is the value
  \<open>Panic\<close>, an access that would be undefined behaviour is a separate value, so that
  safety theorems say that neither is reached.  Code that several threads run is a
  step function: a label names the thread and the atomic access it makes next, the
  result is undefined where the thread cannot make it, and schedules are lists of
  labels.  Memory is sequentially consistent.

  \<^bold>\<open>Code outside the repository\<close> is an argument of the definitions that use it.  The
  kernel's allocator is a function that answers an allocation with success or
  failure; the page cache of a block device is a function from page numbers to
  bytes or an error; a socket is a pair of byte streams cut into segments, with
  errors; the header parser of the \<open>httparse\<close> crate is a function whose promise
  (a complete head gives its fields and its length, a proper prefix asks for more)
  is a named hypothesis with a witness; user memory is a function with faults; the
  kernel's inode cache, work queues and io_uring core are the environment steps of
  the machines.

  \<^bold>\<open>Foundations.\<close>
  \<^item> \<open>Rko_Prelude\<close>: machine integers, the state-and-error operations, base-256
    digits, generic list lemmas and the collections of simplification rules.
  \<^item> \<open>Interleaving\<close>: machines, runs and reachability; the locale of a kept
    invariant, interpreted for every machine of the development, and bounded
    progress under a fair choice of labels.
  \<^item> \<open>Rko_Error\<close>: \<open>rko-core/src/error.rs\<close>; the error type, its conversions from and
    to C, and the ranges in which they are inverse.

  \<^bold>\<open>Memory.\<close>
  \<^item> \<open>Kernel_Vec\<close>: \<open>alloc/kvec.rs\<close>, \<open>alloc/layout.rs\<close>, \<open>alloc/allocator.rs\<close>.  A
    vector is a block of slots that are live, moved-out or uninitialised.  Every method
    refines the list operation of its name, keeps the representation, never reads a
    dead slot, and leaves the vector unchanged when it fails; dropping a vector or a
    partly consumed iterator drops each element once.  The contract is the locale
    \<open>vector\<close>.
  \<^item> \<open>Kernel_Box\<close>: \<open>alloc/kbox.rs\<close>, \<open>types/cstring.rs\<close> on a heap of blocks.  However
    boxes are made, moved, leaked to raw pointers and dropped, no block is released
    twice, and every value is in a box, dropped once or moved out; strings survive
    the way through a foreign pointer.
  \<^item> \<open>User_Copy\<close>: \<open>user.rs\<close>, \<open>iov.rs\<close>; copies stay inside the buffer of the user.
  \<^item> \<open>Kernel_Log\<close>: \<open>printk.rs\<close>; messages stay inside the buffer of the kernel.
  \<^item> \<open>Unsafe_List\<close>: \<open>unsafe_list.rs\<close> on a heap of links.  The ring refines a list, and
    the constructor does not survive being moved.

  \<^bold>\<open>Synchronisation and tasks.\<close>
  \<^item> \<open>Sync_Prims\<close>: \<open>sync/nowaitlock.rs\<close>, \<open>sync/refcount.rs\<close>, \<open>sync/arc.rs\<close>,
    \<open>revocable.rs\<close>; mutual exclusion, one release, one drop of the value.
  \<^item> \<open>Arc_Queue\<close>: the pointers of \<open>sync/arc.rs\<close> and the work items of \<open>workqueue.rs\<close>,
    for all allocations of a program: raw and foreign pointers, borrows,
    \<open>UniqueArc\<close> and queued items lead back to the allocation they came from, and
    its count is their number.
  \<^item> \<open>Misc_Device\<close>: \<open>types/foreign_ownable.rs\<close>, \<open>miscdevice.rs\<close>.  The promise of
    \<open>ForeignOwnable\<close> is the locale \<open>foreign_ownable\<close>, interpreted for boxes, strings
    and \<open>Arc\<close>s; a device gives every open file what it made for it, and gets it back.
  \<^item> \<open>Async_Task\<close>, \<open>Async_Executor\<close>: \<open>workqueue.rs\<close>,
    \<open>kasync/executor/workqueue.rs\<close>, \<open>kasync/executor/mod.rs\<close>; a task as worker,
    wakers and canceller, and the executor's list of tasks: futures are polled only
    while alive and dropped once, \<open>stop\<close> leaves nothing running, a woken task is
    polled again.
  \<^item> \<open>Socket_Future\<close>: \<open>kasync/net/mod.rs\<close>; no wake-up is lost between the test of a
    socket and the registration of the waker.
  \<^item> \<open>Oneshot\<close>: \<open>kasync/oneshot.rs\<close>; delivery, release and the race on the waker.
  \<^item> \<open>Sync_Channel\<close>: \<open>sync/oneshot.rs\<close>, \<open>sync/completion.rs\<close>; delivery and release of
    the blocking channel, and the value that a time limit loses.

  \<^bold>\<open>Block devices and file systems.\<close>
  \<^item> \<open>On_Disk\<close>: \<open>types/le.rs\<close> and the derive macro \<open>FromBytes\<close>; round trips and
    splitting of slices.
  \<^item> \<open>Block_Mapper\<close>: \<open>fs/mapper.rs\<close>; the pages that an iteration visits, confinement
    of bounded mappers.  The contract of a reader of pages is the locale
    \<open>page_reader\<close>, interpreted for both mappers.
  \<^item> \<open>Vfs_Model\<close>: \<open>fs/inode.rs\<close>, \<open>fs/dir.rs\<close>, \<open>fs/dentry.rs\<close>, \<open>fs/sb.rs\<close>,
    \<open>fs/folio.rs\<close>; parameters of inodes, directory emission, locked folios.
  \<^item> \<open>Vfs_Vtable\<close>: \<open>fs/vtable.rs\<close>, \<open>fs/mod.rs\<close>, \<open>fs/registration.rs\<close>,
    \<open>alloc/memcache.rs\<close>; the operation tables, the trampolines, and the life of a mount
    as a machine of callbacks.
  \<^item> \<open>Rofs_Test\<close>: \<open>samples/rofs_test\<close>; listing, lookup, links and both ways of reading.
  \<^item> \<open>Tar_Fs\<close>: \<open>samples/tarfs\<close>; mounting, lookup, listing and reading.
  \<^item> \<open>Ext2_Fs\<close>: \<open>samples/ext2\<close> and the mapping of \<open>fs/iomap.rs\<close>; the tree of block
    pointers, absence of panics on every image, mounting and directories.

  \<^bold>\<open>Network and HTTP.\<close>
  \<^item> \<open>Net_Socket\<close>: \<open>net/addr.rs\<close>, \<open>net/tcp.rs\<close> and the operations of
    \<open>kasync/net/mod.rs\<close>; addresses in network order, streams (locale \<open>byte_stream\<close>),
    ownership of sockets.
  \<^item> \<open>Echo\<close>: \<open>samples/tcp_echo\<close>, \<open>samples/async_echo\<close>; a connection gets back what it
    sent, on both interpretations of \<open>byte_stream\<close>.
  \<^item> \<open>Http_Types\<close>, \<open>Http_Wire\<close>, \<open>Http_Parse\<close>, \<open>Http_Server\<close>: the files of
    \<open>rko-util/src/http\<close> but \<open>uring.rs\<close>; headers as lists of pairs, the text that is
    written, the buffered reader, the connection loop of the server and the client.
  \<^item> \<open>Uring_Codec\<close>, \<open>Http_Uring\<close>: \<open>rko-util/src/http/uring.rs\<close>; the binary form of a
    request, and all commands of user space interleaved with any number of calls of
    the bridge: routes, queues, ids and replies.
  \<^item> this theory composes them: a request written by the client is the request that
    the server parses.

  \<^bold>\<open>Bounds.\<close>  Loops over a buffer or a directory recurse on what is left of it and
  have termination proofs.  Loops whose end depends on the peer (reading a head,
  serving a connection) carry fuel that is the number of bytes and events the peer
  can still send, and the theorems show that they end within it.  Liveness theorems
  give the number of steps of the named threads within which the result is there,
  whatever other threads do in between.  Reference counts are 32-bit words: the
  theorem on the pointers of \<open>Arc\<close> is for programs of fewer than \<open>2 ^ 32\<close> steps, since
  every step adds at most one pointer.

  \<^bold>\<open>Not modelled.\<close>  \<open>rko-sys\<close> is generated bindings.  \<open>rko-macros\<close> manipulates token
  streams at build time; only the effect of \<open>FromBytes\<close> and of the \<open>HAS_\<close> flags of
  \<open>vtable\<close> is modelled.  \<open>module.rs\<close> and \<open>kunit.rs\<close> are macros that emit
  entry points and tables.  \<open>task.rs\<close>, \<open>time.rs\<close>, \<open>sync/rcu.rs\<close>, \<open>sync/lock\<close>,
  \<open>net/namespace.rs\<close>, \<open>io_uring.rs\<close> and \<open>fs/file.rs\<close> forward to one kernel function or read
  one field each; \<open>types/locked.rs\<close>, \<open>types/aref.rs\<close> and \<open>types/scope_guard.rs\<close> call one
  function at each end of a scope.  \<open>sync/condvar.rs\<close> waits with a record that it has
  not initialised, so that its behaviour is not given by the source.  Of
  \<open>fs/iomap.rs\<close>, \<open>fs/sb.rs\<close>, \<open>fs/folio.rs\<close> and \<open>fs/inode.rs\<close> the setters, flags and
  trampolines that only pass their arguments on are left out.  \<open>block_on\<close> and the
  table of wakers of \<open>kasync/executor\<close> depend on a stack slot and a static table that
  the kernel calls back into.  The remaining samples, \<open>rko-test-uring\<close> and the tests
  call the modelled code with constants.  Weak memory orderings, addresses of
  statics, interrupts and preemption inside a kernel call are below the level of
  the machines.
\<close>

section \<open>A request from client to server\<close>

text \<open>What the header parser says of a request that the client wrote.\<close>

definition request_fields :: "request \<Rightarrow> string \<Rightarrow> hp_request" where
  "request_fields req host =
     \<lparr>hq_method = Some (method_str (rq_method req)), hq_path = Some (kv_list (rq_path req)),
      hq_version = Some (case rq_version req of Http10 \<Rightarrow> 0 | Http11 \<Rightarrow> 1),
      hq_headers = (HOST, host)
        # (if kv_list (rq_body req) = [] then []
           else [(CONTENT_LENGTH, dec (length (kv_list (rq_body req))))])
        @ headers_iter (rq_headers req)\<rparr>"

lemma request_text_fields:
  "request_text req host =
     method_str (rq_method req) @ '' '' @ kv_list (rq_path req) @ '' '' @ version_str (rq_version req) @ crlf
     @ concat (map header_text (hq_headers (request_fields req host))) @ crlf"
  by (simp add: request_text_def request_fields_def)

lemma header_lengths:
  assumes "p \<in> set ps"
  shows "length (fst p) + length (snd p) \<le> length (concat (map header_text ps))"
  using assms by (induction ps) (auto simp: header_text_def)

lemma header_count: "length ps \<le> length (concat (map header_text ps))"
  by (induction ps) (auto simp: header_text_def)

lemma request_content_length:
  assumes "kv_inv u8_ty (rq_body req)"
    and "kv_list (rq_body req) = [] \<longrightarrow>
      first_value CONTENT_LENGTH ((HOST, host) # headers_iter (rq_headers req)) = None"
  shows "unwrap_or (Option.bind (first_value CONTENT_LENGTH (hq_headers (request_fields req host))) parse_usize) 0
    = length (kv_list (rq_body req))"
proof (cases "kv_list (rq_body req) = []")
  case True
  then show ?thesis using assms(2) by (simp add: request_fields_def)
next
  case False
  have "map ascii_lower HOST \<noteq> map ascii_lower CONTENT_LENGTH"
    by (auto simp: HOST_def CONTENT_LENGTH_def)
  then show ?thesis
    using False parse_usize_dec [OF u8_len_bound [OF assms(1)]] by (simp add: request_fields_def)
qed

text \<open>
  C2. A request that the client managed to send arrives at the server as the
  same request, however the network cuts the bytes into segments: same method,
  path, version and body, and the headers preceded by the \<open>Host\<close> and
  \<open>Content-Length\<close> lines, leaving exactly the bytes that follow it.  The
  head and the body must be within the server's limits, the header parser must
  accept the head, a request without a body must not claim a length, and
  memory and the connection must hold.
\<close>

theorem request_survives_wire:
  assumes "al_ok al" "al_total al" "conn_ok cl" "conn_ok sv" "no_read_error (c_stream sv)"
    and "kv_inv u8_ty (rq_body req)"
    and "write_request al (c_stream cl) req host k = (Inr (), k')"
    and "c_arrives sv ks = drop (length (c_sent cl k)) (c_sent cl k') @ rest"
    and "understands hp (request_text req host) (request_fields req host)"
    and "kv_list (rq_body req) = [] \<longrightarrow>
      first_value CONTENT_LENGTH ((HOST, host) # headers_iter (rq_headers req)) = None"
    and "length (request_text req host) \<le> max_header_size cfg"
    and "length (kv_list (rq_body req)) \<le> max_body_size cfg"
    and "small (max_header_size cfg)" "small (max_body_size cfg)"
    and "br_new al (max_header_size cfg) = Inr r"
  shows "\<exists>q r1 k1. parse_request hp al (c_stream sv) cfg (r, ks) = (Inr q, (r1, k1))
    \<and> rq_method q = rq_method req \<and> kv_list (rq_path q) = kv_list (rq_path req)
    \<and> rq_version q = rq_version req \<and> kv_list (rq_body q) = kv_list (rq_body req)
    \<and> headers_iter (rq_headers q) = hq_headers (request_fields req host)
    \<and> unread r1 @ c_arrives sv k1 = rest"
proof -
  let ?head = "request_text req host" and ?body = "kv_list (rq_body req)" and ?f = "request_fields req host"
  have r: "br_ok r" "unread r = []" "kv_len (br_buf r) = max_header_size cfg"
    using br_new_ok [OF assms(1,15)] by auto
  have sent: "c_sent cl k' = c_sent cl k @ ?head @ ?body"
    using write_request_spec [OF assms(1,3,6,7)] by auto
  have wire: "unread r @ c_arrives sv ks = ?head @ ?body @ rest" using assms(8) sent r(2) by simp
  have nonempty: "length (unread r) < length ?head" using r(2) by (simp add: request_text_def)
  have fits: "length ?head \<le> kv_len (br_buf r)" using r(3) assms(11) by simp
  obtain res r1 k1 where run: "parse_request hp al (c_stream sv) cfg (r, ks) = (res, (r1, k1))"
    by (metis surj_pair)
  have fields: "method_parse (unwrap_or (hq_method ?f) []) = Some (rq_method req)"
    "unwrap_or (hq_path ?f) ''/'' = kv_list (rq_path req)"
    "from_httparse (unwrap_or (hq_version ?f) 1) = rq_version req"
    by (simp_all add: request_fields_def from_httparse_def split: version.splits)
  have "length (concat (map header_text (hq_headers ?f))) \<le> length ?head" "length (kv_list (rq_path req)) \<le> length ?head"
    by (simp_all add: request_text_fields)
  then have lens: "small (length (unwrap_or (hq_path ?f) ''/''))" "small (length (hq_headers ?f))"
    "\<forall>p \<in> set (hq_headers ?f). small (length (fst p)) \<and> small (length (snd p))"
    using assms(11,13) header_count [of "hq_headers ?f"] header_lengths [of _ "hq_headers ?f"] fields(2)
    by (auto simp: small_def dest!: header_lengths)
  obtain r0 k0 where r0: "parse_request hp al (c_stream sv) cfg (r, ks)
      = take_request al (c_stream sv) cfg (length ?head) ?f (r0, k0)"
    "br_ok r0" "prefix ?head (unread r0)"
    using tcp.parse_request_reads_head [OF assms(4,9,5,11) r(1) nonempty fits wire] by blast
  have "length ?head \<le> length (unread r0)" using r0(3) by (auto simp: prefix_def)
  then have "res \<noteq> Inl (Fail Internal)"
    using tcp.take_request_small [OF assms(4,1,2) r0(2) _ lens assms(14)] run r0(1) by (metis fst_conv)
  with tcp.parse_request_spec [OF assms(4,1,9,5,11) r(1) nonempty fits wire fields(1)
      request_content_length [OF assms(6,10)] assms(12) run] fields(2,3) run
  show ?thesis by auto
qed

text \<open>The demonstration request, a parser that knows exactly its head, and a network that cuts it in two.\<close>

definition demo_head :: string where
  "demo_head = request_text demo_request ''h''"

definition demo_hp :: "string \<Rightarrow> hp_request hp_status" where
  "demo_hp bs = (if prefix demo_head bs then Complete (length demo_head) (request_fields demo_request ''h'')
     else if prefix bs demo_head then Partial else Invalid)"

lemma demo_hp_understands: "understands demo_hp demo_head (request_fields demo_request ''h'')"
  by (auto simp: understands_def demo_hp_def prefix_order.dual_order.antisym strict_prefix_def)

lemma demo_no_read_error: "no_read_error (c_stream demo_conn)"
  by (auto simp: no_read_error_def demo_eval split: list.splits)

theorem request_survives_wire_witness:
  "\<exists>r q r1 k1. br_new demo_al 200 = Inr r
     \<and> parse_request demo_hp demo_al (c_stream demo_conn) demo_cfg
         (r, \<lparr>d_in = [take 10 (demo_head @ ''hello''), drop 10 (demo_head @ ''hello'')], d_out = []\<rparr>)
       = (Inr q, (r1, k1))
     \<and> rq_method q = Post \<and> kv_list (rq_path q) = ''/a'' \<and> kv_list (rq_body q) = ''hello''"
proof -
  let ?k = "\<lparr>d_in = [], d_out = []\<rparr>"
  let ?ks = "\<lparr>d_in = [take 10 (demo_head @ ''hello''), drop 10 (demo_head @ ''hello'')], d_out = []\<rparr>"
  obtain k' where w: "write_request demo_al (c_stream demo_conn) demo_request ''h'' ?k = (Inr (), k')"
    using demo_written(1) by blast
  obtain r where r: "br_new demo_al 200 = Inr r" using demo_reader ..
  have body: "kv_list (rq_body demo_request) = ''hello''" by (simp add: demo_request_def)
  have "c_sent demo_conn k' = c_sent demo_conn ?k @ demo_head @ ''hello''"
    using write_request_spec [OF demo_al_ok demo_conn_ok demo_bodies(1) w] body by (auto simp: demo_head_def)
  moreover have "c_arrives demo_conn ?ks = demo_head @ ''hello''"
    by (simp only: demo_conn_def conn.simps demo_net.simps concat.simps append_Nil2 append_take_drop_id)
  ultimately have arrives: "c_arrives demo_conn ?ks = drop (length (c_sent demo_conn ?k)) (c_sent demo_conn k') @ []"
    by simp
  have "length demo_head \<le> 200" by (simp add: demo_head_def demo_texts crlf_def)
  then show ?thesis
    using request_survives_wire [OF demo_al_ok demo_al_total demo_conn_ok demo_conn_ok demo_no_read_error
        demo_bodies(1) w arrives demo_hp_understands [unfolded demo_head_def], of demo_cfg r] r body
    by (auto simp: demo_cfg_def default_config_def small_def demo_head_def demo_request_def)
qed

end
